(* ===== verification/Prelude.thy ===== *)
theory Prelude
  imports Main "HOL-Library.Word" "HOL-Library.Code_Target_Nat"
begin

text \<open>
  Shared vocabulary of the development.

  \<^item> Machine types of the Rust sources: \<open>u8\<close>, \<open>u16\<close>, \<open>u32\<close>, \<open>u64\<close> are words of that width;
    \<open>usize\<close> is a natural number below \<open>2 ^ 64\<close> (the deployment target is aarch64), and its
    addition \<open>usize_add\<close> wraps, because \<open>src/Cargo.toml\<close> builds every profile with
    overflow checks off.
  \<^item> \<open>subslice xs a b\<close> is Rust's \<open>xs[a..b]\<close> on an index range that is in bounds.
  \<^item> Loops \<open>for i in 0..N\<close> without early exit are folds over \<open>[0..<N]\<close>; the lemmas on flag
    loops and last-match loops characterise the two shapes the program uses.
  \<^item> Results \<open>Result<T, E>\<close> are sums, with \<open>Inl\<close> for the error.
\<close>

type_synonym u8 = "8 word"
type_synonym u16 = "16 word"
type_synonym u32 = "32 word"
type_synonym u64 = "64 word"
type_synonym usize = nat
type_synonym bytes = "u8 list"

named_theorems rrb_consts \<open>defining equations of the protocol constants\<close>
named_theorems loop_simps \<open>closed forms of the bounded scan loops\<close>
named_theorems byte_simps \<open>byte-order conversions\<close>

section \<open>usize arithmetic\<close>

definition usize_modulus :: nat where
  "usize_modulus = 2 ^ 64"

definition usize_add :: "usize \<Rightarrow> usize \<Rightarrow> usize" where
  "usize_add a b = (a + b) mod usize_modulus"

definition usize_checked_add :: "usize \<Rightarrow> usize \<Rightarrow> usize option" where
  "usize_checked_add a b = (if a + b < usize_modulus then Some (a + b) else None)"

lemma usize_add_exact [simp]: "a + b < usize_modulus \<Longrightarrow> usize_add a b = a + b"
  by (simp add: usize_add_def)

lemma usize_add_small: "a + b \<le> 1000000 \<Longrightarrow> usize_add a b = a + b"
  by (simp add: usize_modulus_def)

section \<open>Slices\<close>

definition subslice :: "'a list \<Rightarrow> nat \<Rightarrow> nat \<Rightarrow> 'a list" where
  "subslice xs a b = take (b - a) (drop a xs)"

lemma length_slice [simp]: "b \<le> length xs \<Longrightarrow> length (subslice xs a b) = b - a"
  by (auto simp: subslice_def min_def)

lemma slice_nth [simp]: "a + i < b \<Longrightarrow> b \<le> length xs \<Longrightarrow> subslice xs a b ! i = xs ! (a + i)"
  by (simp add: subslice_def)

lemma slice_empty [simp]: "subslice xs a a = []"
  by (simp add: subslice_def)

lemma slice_append_slice: "a \<le> b \<Longrightarrow> b \<le> c \<Longrightarrow> subslice xs a b @ subslice xs b c = subslice xs a c"
proof -
  assume "a \<le> b" "b \<le> c"
  then have "c - a = (b - a) + (c - b)" "b = (b - a) + a" by simp_all
  then show ?thesis
    unfolding subslice_def by (metis drop_drop take_add)
qed

lemma slice_slice: "b + d \<le> c \<Longrightarrow> subslice (subslice xs b c) a d = subslice xs (b + a) (b + d)"
  by (auto simp: subslice_def drop_take min_def add.commute)

lemma slice_prefix [simp]: "subslice (xs @ ys) 0 (length xs) = xs"
  by (simp add: subslice_def)

lemma slice_to_end: "a \<le> length xs \<Longrightarrow> subslice xs a (length xs) = drop a xs"
  by (simp add: subslice_def)

lemma slice_0: "subslice xs 0 n = take n xs"
  by (simp add: subslice_def)

lemma slice_drop: "subslice (drop a xs) b c = subslice xs (a + b) (a + c)"
  by (simp add: subslice_def add.commute)

lemma append_eq_slices:
  assumes "length a = n" "length b = k"
  shows "r = a @ b @ c \<longleftrightarrow> n + k \<le> length r \<and> take n r = a \<and> subslice r n (n + k) = b \<and> drop (n + k) r = c"
proof
  assume "r = a @ b @ c"
  then show "n + k \<le> length r \<and> take n r = a \<and> subslice r n (n + k) = b \<and> drop (n + k) r = c"
    using assms by (auto simp: subslice_def)
next
  assume "n + k \<le> length r \<and> take n r = a \<and> subslice r n (n + k) = b \<and> drop (n + k) r = c"
  moreover have "take n r @ subslice r n (n + k) @ drop (n + k) r = r"
    by (simp add: subslice_def add.commute [of n k] flip: drop_drop)
  ultimately show "r = a @ b @ c" by simp
qed

lemma subslice_2: "p + 2 \<le> length r \<Longrightarrow> subslice r p (p + 2) = [r ! p, r ! (p + 1)]"
  by (auto simp: list_eq_iff_nth_eq less_Suc_eq numeral_2_eq_2)

section \<open>Bounded scan loops\<close>

lemma fold_flag [loop_simps]:
  "fold (\<lambda>i b. if P i then True else b) xs b0 = (b0 \<or> (\<exists>i\<in>set xs. P i))"
  by (induction xs arbitrary: b0) auto

lemma fold_last_match_None [loop_simps]:
  "fold (\<lambda>i m. if P i then Some i else m) xs m0 = None \<longleftrightarrow> m0 = None \<and> (\<forall>i\<in>set xs. \<not> P i)"
  by (induction xs arbitrary: m0) auto

lemma fold_last_match_Some:
  "fold (\<lambda>i m. if P i then Some i else m) xs None = Some k \<Longrightarrow> k \<in> set xs \<and> P k"
proof -
  have "fold (\<lambda>i m. if P i then Some i else m) xs m0 = Some k \<Longrightarrow> m0 = Some k \<or> (k \<in> set xs \<and> P k)" for m0
    by (induction xs arbitrary: m0) (fastforce split: if_splits)+
  then show "fold (\<lambda>i m. if P i then Some i else m) xs None = Some k \<Longrightarrow> ?thesis"
    by fastforce
qed

lemma fold_last_match_unique:
  assumes "k \<in> set xs" "P k" "\<And>i. i \<in> set xs \<Longrightarrow> P i \<Longrightarrow> i = k"
  shows "fold (\<lambda>i m. if P i then Some i else m) xs m0 = Some k"
  using assms(1,3)
proof (induction xs arbitrary: m0)
  case Nil
  then show ?case by simp
next
  case (Cons x xs)
  show ?case
  proof (cases "k \<in> set xs")
    case True
    with Cons show ?thesis by simp
  next
    case False
    with Cons.prems assms(2) have "x = k" by simp
    moreover have "\<forall>i\<in>set xs. \<not> P i" using Cons.prems False by auto
    then have "fold (\<lambda>i m. if P i then Some i else m) xs m = m" for m
      by (induction xs arbitrary: m) auto
    ultimately show ?thesis using assms(2) by simp
  qed
qed

section \<open>Byte order\<close>

definition u16_from_be_bytes :: "u8 \<Rightarrow> u8 \<Rightarrow> u16" where
  "u16_from_be_bytes a b = word_of_nat (256 * unat a + unat b)"

definition u16_from_le_bytes :: "u8 \<Rightarrow> u8 \<Rightarrow> u16" where
  "u16_from_le_bytes a b = u16_from_be_bytes b a"

definition u16_to_be_bytes :: "u16 \<Rightarrow> bytes" where
  "u16_to_be_bytes w = [word_of_nat (unat w div 256), word_of_nat (unat w mod 256)]"

definition u16_to_le_bytes :: "u16 \<Rightarrow> bytes" where
  "u16_to_le_bytes w = rev (u16_to_be_bytes w)"

lemma unat_u8_lt [simp]: "unat (b :: u8) < 256"
  using unsigned_less [of b, where ?'a = nat] by simp

lemma unat_u16_lt [simp]: "unat (w :: u16) < 65536"
  using unsigned_less [of w, where ?'a = nat] by simp

lemma unat_u16_from_be [byte_simps]: "unat (u16_from_be_bytes a b) = 256 * unat a + unat b"
proof -
  have "256 * unat a + unat b < 65536"
    using unat_u8_lt [of a] unat_u8_lt [of b] by linarith
  then show ?thesis
    unfolding u16_from_be_bytes_def by (subst unat_of_nat) simp
qed

lemma unat_u16_from_le [byte_simps]: "unat (u16_from_le_bytes a b) = unat a + 256 * unat b"
  by (simp add: u16_from_le_bytes_def unat_u16_from_be)

lemma length_u16_to_bytes [simp]:
  "length (u16_to_be_bytes w) = 2" "length (u16_to_le_bytes w) = 2"
  by (simp_all add: u16_to_be_bytes_def u16_to_le_bytes_def)

lemma u16_to_from_be [byte_simps]: "u16_to_be_bytes (u16_from_be_bytes a b) = [a, b]"
  by (simp add: u16_to_be_bytes_def unat_u16_from_be)

lemma u16_to_from_le [byte_simps]: "u16_to_le_bytes (u16_from_le_bytes a b) = [a, b]"
  by (simp add: u16_to_le_bytes_def u16_from_le_bytes_def u16_to_from_be)

lemma u16_from_to_be:
  "u16_from_be_bytes (word_of_nat (unat w div 256)) (word_of_nat (unat w mod 256)) = w"
proof -
  have "unat w div 256 < 256"
    using unat_u16_lt [of w] by linarith
  then show ?thesis
    by (simp add: u16_from_be_bytes_def unat_of_nat)
qed

lemma u16_to_be_nth [simp]:
  "u16_from_be_bytes (u16_to_be_bytes w ! 0) (u16_to_be_bytes w ! Suc 0) = w"
  by (simp add: u16_to_be_bytes_def u16_from_to_be)

lemma u16_to_le_nth [simp]:
  "u16_from_le_bytes (u16_to_le_bytes w ! 0) (u16_to_le_bytes w ! Suc 0) = w"
  by (simp add: u16_to_le_bytes_def u16_to_be_bytes_def u16_from_le_bytes_def u16_from_to_be)

lemma u16_from_be_eq_iff: "u16_from_be_bytes a b = w \<longleftrightarrow> [a, b] = u16_to_be_bytes w"
proof
  assume "u16_from_be_bytes a b = w"
  then show "[a, b] = u16_to_be_bytes w" by (auto simp: u16_to_from_be)
next
  assume "[a, b] = u16_to_be_bytes w"
  then show "u16_from_be_bytes a b = w"
    by (simp add: u16_to_be_bytes_def u16_from_to_be)
qed

lemma u16_from_le_eq_iff: "u16_from_le_bytes a b = w \<longleftrightarrow> [a, b] = u16_to_le_bytes w"
  by (auto simp: u16_from_le_bytes_def u16_from_be_eq_iff u16_to_le_bytes_def u16_to_be_bytes_def)

end
