(* ===== verification/Proto.thy ===== *)
theory Proto
  imports Prelude
begin

text \<open>
  The protocol model of \<open>src/src/proto/mod.rs\<close>: the \<open>MAX_*\<close> bounds, the identity a frame is
  checked against (\<open>Peer\<close>, \<open>Local\<close>, \<open>Filter\<close>, fixed-size arrays with a count of the valid
  entries) and the statistics vocabulary (\<open>Counter\<close>, \<open>COUNTER_NAMES\<close>).

  A fixed-size array \<open>[T; N]\<close> is a list; \<open>wf_Peer\<close>, \<open>wf_Local\<close> and \<open>wf_Filter\<close> state the lengths
  the Rust types guarantee, and the counts being within the array, which the fields' comments
  promise. \<open>filter_peers\<close>, \<open>filter_locals\<close> read the valid prefix of each array.
\<close>

section \<open>Bounds\<close>

definition MAX_PEERS :: usize where [rrb_consts]: "MAX_PEERS = 8"
definition MAX_LOCALS :: usize where [rrb_consts]: "MAX_LOCALS = 8"
definition MAX_FRAME :: usize where [rrb_consts]: "MAX_FRAME = 2048"
definition MAX_TLVS :: usize where [rrb_consts]: "MAX_TLVS = 16"
definition MAX_R0KH :: usize where [rrb_consts]: "MAX_R0KH = 48"
definition MAX_PEER_BSSIDS :: usize where [rrb_consts]: "MAX_PEER_BSSIDS = 8"

section \<open>Identities\<close>

type_synonym mac_addr = bytes

record Peer =
  peer_mac :: mac_addr
  bssid_count :: u8
  peer_bssids :: "mac_addr list"

record Local =
  local_bssid :: mac_addr
  r0kh_len :: u8
  r0kh :: bytes

record Filter =
  management_vlan :: u16
  peer_count :: u8
  local_count :: u8
  target_mac :: mac_addr
  locals :: "Local list"
  peers :: "Peer list"

definition Peer_default :: Peer where
  "Peer_default = \<lparr>peer_mac = replicate 6 0, bssid_count = 0,
     peer_bssids = replicate MAX_PEER_BSSIDS (replicate 6 0)\<rparr>"

definition Local_default :: Local where
  "Local_default = \<lparr>local_bssid = replicate 6 0, r0kh_len = 0, r0kh = replicate MAX_R0KH 0\<rparr>"

definition Filter_default :: Filter where
  "Filter_default = \<lparr>management_vlan = 1, peer_count = 0, local_count = 0,
     target_mac = replicate 6 0, locals = replicate MAX_LOCALS Local_default,
     peers = replicate MAX_PEERS Peer_default\<rparr>"

definition wf_Peer :: "Peer \<Rightarrow> bool" where
  "wf_Peer p \<longleftrightarrow> length (peer_mac p) = 6 \<and> unat (bssid_count p) \<le> MAX_PEER_BSSIDS \<and>
     length (peer_bssids p) = MAX_PEER_BSSIDS \<and> list_all (\<lambda>b. length b = 6) (peer_bssids p)"

definition wf_Local :: "Local \<Rightarrow> bool" where
  "wf_Local l \<longleftrightarrow> length (local_bssid l) = 6 \<and> unat (r0kh_len l) \<le> MAX_R0KH \<and>
     length (r0kh l) = MAX_R0KH"

definition wf_Filter :: "Filter \<Rightarrow> bool" where
  "wf_Filter f \<longleftrightarrow> unat (peer_count f) \<le> MAX_PEERS \<and> unat (local_count f) \<le> MAX_LOCALS \<and>
     length (target_mac f) = 6 \<and> length (locals f) = MAX_LOCALS \<and> length (peers f) = MAX_PEERS \<and>
     list_all wf_Local (locals f) \<and> list_all wf_Peer (peers f)"

text \<open>The valid prefix of each counted array.\<close>

definition peer_bss_list :: "Peer \<Rightarrow> mac_addr list" where
  "peer_bss_list p = take (unat (bssid_count p)) (peer_bssids p)"

definition local_r0kh :: "Local \<Rightarrow> bytes" where
  "local_r0kh l = take (unat (r0kh_len l)) (r0kh l)"

definition filter_peers :: "Filter \<Rightarrow> Peer list" where
  "filter_peers f = take (unat (peer_count f)) (peers f)"

definition filter_locals :: "Filter \<Rightarrow> Local list" where
  "filter_locals f = take (unat (local_count f)) (locals f)"

lemma wf_Peer_default: "wf_Peer Peer_default"
  by (simp add: wf_Peer_def Peer_default_def rrb_consts list_all_iff)

lemma wf_Local_default: "wf_Local Local_default"
  by (simp add: wf_Local_def Local_default_def rrb_consts)

lemma wf_Filter_default: "wf_Filter Filter_default"
  by (simp add: wf_Filter_def Filter_default_def rrb_consts list_all_iff
      wf_Peer_default wf_Local_default)

lemma filter_locals_default [simp]: "filter_locals Filter_default = []"
  by (simp add: filter_locals_def Filter_default_def)

lemma wf_Filter_lengths:
  assumes "wf_Filter f"
  shows "length (filter_peers f) = unat (peer_count f)"
    and "length (filter_locals f) = unat (local_count f)"
    and "length (target_mac f) = 6" "length (peers f) = 8" "length (locals f) = 8"
    and "unat (peer_count f) \<le> 8" "unat (local_count f) \<le> 8"
  using assms by (auto simp: wf_Filter_def filter_peers_def filter_locals_def rrb_consts)

lemma wf_Filter_peer: "wf_Filter f \<Longrightarrow> p \<in> set (filter_peers f) \<Longrightarrow> wf_Peer p"
  by (auto simp: wf_Filter_def filter_peers_def list_all_iff dest: in_set_takeD)

lemma wf_Filter_local: "wf_Filter f \<Longrightarrow> l \<in> set (filter_locals f) \<Longrightarrow> wf_Local l"
  by (auto simp: wf_Filter_def filter_locals_def list_all_iff dest: in_set_takeD)

lemma length_local_r0kh: "wf_Local l \<Longrightarrow> length (local_r0kh l) = unat (r0kh_len l)"
  by (simp add: wf_Local_def local_r0kh_def)

text \<open>
  A scan bounded by the array length that tests \<open>i < count\<close> first visits exactly the valid
  prefix.
\<close>

lemma counted_scan [loop_simps]:
  assumes "length xs = n" "c \<le> n"
  shows "(\<exists>i\<in>set [0..<n]. i < c \<and> P (xs ! i)) \<longleftrightarrow> (\<exists>x\<in>set (take c xs). P x)"
  using assms by (fastforce simp: in_set_conv_nth)

section \<open>Counters\<close>

datatype Counter =
    Seen | Length | Vlan | EtherAddress | OuiType | SourceBss | DestinationBss | AuthLength
  | Tlv | BroadcastScope | Matched | Observed | RateLimited | Injected | InjectError
  | Pull | Response | Push | SeqRequest | SeqResponse

text \<open>The discriminant \<open>c as usize\<close> of the \<open>repr(u32)\<close> enum: declaration order from 0.\<close>

fun counter_index :: "Counter \<Rightarrow> usize" where
  "counter_index Seen = 0"
| "counter_index Length = 1"
| "counter_index Vlan = 2"
| "counter_index EtherAddress = 3"
| "counter_index OuiType = 4"
| "counter_index SourceBss = 5"
| "counter_index DestinationBss = 6"
| "counter_index AuthLength = 7"
| "counter_index Tlv = 8"
| "counter_index BroadcastScope = 9"
| "counter_index Matched = 10"
| "counter_index Observed = 11"
| "counter_index RateLimited = 12"
| "counter_index Injected = 13"
| "counter_index InjectError = 14"
| "counter_index Pull = 15"
| "counter_index Response = 16"
| "counter_index Push = 17"
| "counter_index SeqRequest = 18"
| "counter_index SeqResponse = 19"

definition COUNTER_NAMES :: "string list" where
  "COUNTER_NAMES = [
     ''seen'', ''reject_length'', ''reject_vlan'', ''reject_ether_address'',
     ''reject_oui_or_type'', ''reject_source_bss'', ''reject_destination_bss'',
     ''reject_auth_length'', ''reject_tlv'', ''reject_broadcast_scope'', ''matched'',
     ''observed'', ''rate_limited'', ''injected'', ''inject_error'', ''pull'', ''response'',
     ''push'', ''seq_request'', ''seq_response'']"

definition all_counters :: "Counter list" where
  "all_counters = [Seen, Length, Vlan, EtherAddress, OuiType, SourceBss, DestinationBss,
     AuthLength, Tlv, BroadcastScope, Matched, Observed, RateLimited, Injected, InjectError,
     Pull, Response, Push, SeqRequest, SeqResponse]"

definition reject_counters :: "Counter list" where
  "reject_counters = [Length, Vlan, EtherAddress, OuiType, SourceBss, DestinationBss,
     AuthLength, Tlv, BroadcastScope]"

definition kind_counters :: "Counter list" where
  "kind_counters = [Pull, Response, Push, SeqRequest, SeqResponse]"

lemma length_COUNTER_NAMES [simp]: "length COUNTER_NAMES = 20"
  by (simp add: COUNTER_NAMES_def)

lemma counter_index_less [simp]: "counter_index c < 20"
  by (cases c) simp_all

lemma counter_index_inject [simp]: "counter_index a = counter_index b \<longleftrightarrow> a = b"
  by (cases a; cases b) simp_all

lemma counter_index_all: "map counter_index all_counters = [0..<20]"
  by (simp add: all_counters_def upt_rec)

lemma set_all_counters: "c \<in> set all_counters"
  by (cases c) (simp_all add: all_counters_def)

lemma reject_names:
  "c \<in> set reject_counters \<longleftrightarrow> take 7 (COUNTER_NAMES ! counter_index c) = ''reject_''"
  by (cases c) (simp_all add: reject_counters_def COUNTER_NAMES_def)

end
