(* ===== verification/Parse.thy ===== *)
theory Parse
  imports Proto
begin

text \<open>
  The frame validator of \<open>src/src/proto/parse.rs\<close>: the bounds-checked reader, the VLAN view, and
  \<open>classify\<close> with its body parser \<open>parse_rrb\<close>. One definition per loop of \<open>parse_rrb\<close>, in source
  order; \<open>usize\<close> sums wrap as the build makes them (\<open>usize_add\<close>), and the lemmas show that no
  wrap happens on a frame that passed the length gate.
\<close>

unbundle bit_operations_syntax

section \<open>Constants\<close>

definition ETH_P_RRB :: u16 where [rrb_consts]: "ETH_P_RRB = 0x88b7"
definition TPID_8021Q :: u16 where [rrb_consts]: "TPID_8021Q = 0x8100"
definition TCI_VID_MASK :: u16 where [rrb_consts]: "TCI_VID_MASK = 0x0fff"
definition ETH_HEADER_LEN :: usize where [rrb_consts]: "ETH_HEADER_LEN = 14"
definition ETH_TYPE_OFFSET :: usize where [rrb_consts]: "ETH_TYPE_OFFSET = 12"
definition VLAN_TAG_LEN :: usize where [rrb_consts]: "VLAN_TAG_LEN = 4"
definition RRB_HEADER_LEN :: usize where [rrb_consts]: "RRB_HEADER_LEN = 20"
definition RRB_SELECTOR :: bytes where "RRB_SELECTOR = [0x00, 0x13, 0x74, 0x00, 0x01]"
definition KIND_PULL :: u8 where [rrb_consts]: "KIND_PULL = 1"
definition KIND_RESPONSE :: u8 where [rrb_consts]: "KIND_RESPONSE = 2"
definition KIND_PUSH :: u8 where [rrb_consts]: "KIND_PUSH = 3"
definition KIND_SEQ_REQUEST :: u8 where [rrb_consts]: "KIND_SEQ_REQUEST = 4"
definition KIND_SEQ_RESPONSE :: u8 where [rrb_consts]: "KIND_SEQ_RESPONSE = 5"
definition TLV_R0KH :: u16 where [rrb_consts]: "TLV_R0KH = 4"
definition TLV_R1KH :: u16 where [rrb_consts]: "TLV_R1KH = 5"
definition TLV_HEADER_LEN :: usize where [rrb_consts]: "TLV_HEADER_LEN = 4"
definition SIV_LEN :: usize where [rrb_consts]: "SIV_LEN = 16"
definition BROADCAST :: mac_addr where "BROADCAST = replicate 6 255"

section \<open>Reading a frame\<close>

text \<open>
  \<open>ReadFrame for &[u8]\<close>: \<open>self.get(offset..offset.checked_add(N)?)?\<close> yields exactly \<open>N\<close> bytes,
  so the conversion to \<open>[u8; N]\<close> cannot fail.
\<close>

definition frame_len :: "bytes \<Rightarrow> usize" where
  "frame_len r = length r"

definition frame_read :: "nat \<Rightarrow> bytes \<Rightarrow> usize \<Rightarrow> bytes option" where
  "frame_read n r offset =
     (case usize_checked_add offset n of
        None \<Rightarrow> None
      | Some stop \<Rightarrow> if stop \<le> length r then Some (subslice r offset stop) else None)"

definition frame_is_empty :: "bytes \<Rightarrow> bool" where
  "frame_is_empty r \<longleftrightarrow> frame_len r = 0"

record Vlan =
  present :: bool
  proto :: u16
  tci :: u16

definition Vlan_default :: Vlan where
  "Vlan_default = \<lparr>present = False, proto = 0, tci = 0\<rparr>"

record Match =
  kind :: u8
  body_offset :: usize

section \<open>The body parser\<close>

text \<open>\<open>for i in 0..MAX_PEERS\<close>: the last configured peer whose MAC is the Ethernet source.\<close>

definition scan_peers :: "Filter \<Rightarrow> mac_addr \<Rightarrow> usize option" where
  "scan_peers f src =
     fold (\<lambda>i matched_peer.
         if i < unat (peer_count f) \<and> peer_mac (peers f ! i) = src then Some i else matched_peer)
       [0..<MAX_PEERS] None"

text \<open>\<open>for j in 0..MAX_PEER_BSSIDS\<close>: does the peer own the claimed source BSS?\<close>

definition scan_peer_bssids :: "Peer \<Rightarrow> mac_addr \<Rightarrow> bool" where
  "scan_peer_bssids peer bss =
     fold (\<lambda>j bss_found.
         if j < unat (bssid_count peer) \<and> peer_bssids peer ! j = bss then True else bss_found)
       [0..<MAX_PEER_BSSIDS] False"

definition source_bss_ok :: "Filter \<Rightarrow> usize option \<Rightarrow> mac_addr \<Rightarrow> bool" where
  "source_bss_ok f matched_peer bss =
     (case matched_peer of
        None \<Rightarrow> True
      | Some i \<Rightarrow>
          let peer = peers f ! i
          in if 0 < bssid_count peer then scan_peer_bssids peer bss else True)"

text \<open>\<open>for i in 0..MAX_LOCALS\<close>: is the destination BSS one of ours?\<close>

definition scan_locals :: "Filter \<Rightarrow> mac_addr \<Rightarrow> bool" where
  "scan_locals f bss =
     fold (\<lambda>i local_found.
         if i < unat (local_count f) \<and> local_bssid (locals f ! i) = bss then True else local_found)
       [0..<MAX_LOCALS] False"

text \<open>The TLV walk: its loop state and, per iteration \<open>i\<close>, the break, the checks, the advance.\<close>

record walk =
  pos :: usize
  tags :: "u16 list"
  r0kh_position :: usize
  r0kh_size :: usize

definition walk_init :: "usize \<Rightarrow> walk" where
  "walk_init start = \<lparr>pos = start, tags = replicate MAX_TLVS 0, r0kh_position = 0, r0kh_size = 0\<rparr>"

definition duplicate_tag :: "u16 list \<Rightarrow> nat \<Rightarrow> u16 \<Rightarrow> bool" where
  "duplicate_tag seen i tag \<longleftrightarrow> list_ex (\<lambda>(j, previous). j < i \<and> previous = tag) (enumerate 0 seen)"

definition tlv_step :: "bytes \<Rightarrow> usize \<Rightarrow> nat \<Rightarrow> walk \<Rightarrow> Counter + walk" where
  "tlv_step r end_pos i w =
     (if end_pos < usize_add (pos w) TLV_HEADER_LEN then Inl Tlv
      else case frame_read 4 r (pos w) of
        None \<Rightarrow> Inl Tlv
      | Some tlv \<Rightarrow>
          let tag = u16_from_le_bytes (tlv ! 0) (tlv ! 1);
              size = unat (u16_from_le_bytes (tlv ! 2) (tlv ! 3))
          in if duplicate_tag (tags w) i tag then Inl Tlv
             else
               let value_pos = usize_add (pos w) TLV_HEADER_LEN
               in if end_pos < usize_add value_pos size then Inl Tlv
                  else Inr \<lparr>pos = usize_add value_pos size, tags = (tags w)[i := tag],
                         r0kh_position = (if tag = TLV_R0KH then value_pos else r0kh_position w),
                         r0kh_size = (if tag = TLV_R0KH then size else r0kh_size w)\<rparr>)"

function tlv_walk :: "bytes \<Rightarrow> usize \<Rightarrow> nat \<Rightarrow> walk \<Rightarrow> Counter + walk" where
  "tlv_walk r end_pos i w =
     (if i < MAX_TLVS then
        if pos w = end_pos then Inr w
        else case tlv_step r end_pos i w of
            Inl e \<Rightarrow> Inl e
          | Inr w' \<Rightarrow> tlv_walk r end_pos (Suc i) w'
      else Inr w)"
  by pat_completeness auto
termination
  by (relation "measure (\<lambda>(r, end_pos, i, w). MAX_TLVS - i)") auto

declare tlv_walk.simps [simp del]

text \<open>
  The broadcast check: \<open>r0kh_identical\<close> is the inner loop \<open>for j in 0..MAX_R0KH\<close> with its break
  at \<open>r0kh_size\<close> and its fallible one-byte read, \<open>scan_r0kh\<close> the outer loop over the locals.
\<close>

function r0kh_identical :: "bytes \<Rightarrow> usize \<Rightarrow> usize \<Rightarrow> bytes \<Rightarrow> nat \<Rightarrow> bool \<Rightarrow> Counter + bool" where
  "r0kh_identical r position sz ident j identical =
     (if j < MAX_R0KH then
        if j = sz then Inr identical
        else case frame_read 1 r (usize_add position j) of
            None \<Rightarrow> Inl Tlv
          | Some b \<Rightarrow>
              r0kh_identical r position sz ident (Suc j) (if b ! 0 \<noteq> ident ! j then False else identical)
      else Inr identical)"
  by pat_completeness auto
termination
  by (relation "measure (\<lambda>(r, position, sz, ident, j, identical). MAX_R0KH - j)") auto

declare r0kh_identical.simps [simp del]

function scan_r0kh :: "bytes \<Rightarrow> Filter \<Rightarrow> usize \<Rightarrow> usize \<Rightarrow> nat \<Rightarrow> bool \<Rightarrow> Counter + bool" where
  "scan_r0kh r f position sz i r0kh_found =
     (if i < MAX_LOCALS then
        if unat (local_count f) \<le> i \<or> unat (r0kh_len (locals f ! i)) \<noteq> sz
        then scan_r0kh r f position sz (Suc i) r0kh_found
        else case r0kh_identical r position sz (r0kh (locals f ! i)) 0 True of
            Inl e \<Rightarrow> Inl e
          | Inr identical \<Rightarrow>
              scan_r0kh r f position sz (Suc i) (if identical then True else r0kh_found)
      else Inr r0kh_found)"
  by pat_completeness auto
termination
  by (relation "measure (\<lambda>(r, f, position, sz, i, r0kh_found). MAX_LOCALS - i)") auto

declare scan_r0kh.simps [simp del]

definition broadcast_scope :: "bytes \<Rightarrow> Filter \<Rightarrow> u8 \<Rightarrow> usize \<Rightarrow> usize \<Rightarrow> Counter + unit" where
  "broadcast_scope r f k position sz =
     (if (k \<noteq> KIND_PULL \<and> k \<noteq> KIND_SEQ_REQUEST) \<or> sz = 0 \<or> MAX_R0KH < sz
      then Inl BroadcastScope
      else case scan_r0kh r f position sz 0 False of
          Inl e \<Rightarrow> Inl e
        | Inr r0kh_found \<Rightarrow> if \<not> r0kh_found then Inl BroadcastScope else Inr ())"

definition parse_rrb :: "bytes \<Rightarrow> usize \<Rightarrow> Filter \<Rightarrow> Counter + Match" where
  "parse_rrb r body f =
     (case frame_read 6 r 0 of None \<Rightarrow> Inl Length | Some dst \<Rightarrow>
      case frame_read 6 r 6 of None \<Rightarrow> Inl Length | Some src \<Rightarrow>
      if dst \<noteq> target_mac f \<and> dst \<noteq> BROADCAST then Inl EtherAddress else
      let matched_peer = scan_peers f src in
      if 0 < peer_count f \<and> matched_peer = None then Inl EtherAddress else
      case frame_read RRB_HEADER_LEN r body of None \<Rightarrow> Inl Length | Some header \<Rightarrow>
      if subslice header 0 5 \<noteq> RRB_SELECTOR \<or> header ! 5 < KIND_PULL \<or> KIND_SEQ_RESPONSE < header ! 5
      then Inl OuiType else
      if \<not> source_bss_ok f matched_peer (subslice header 6 12) then Inl SourceBss else
      let broadcast = (subslice header 12 18 = BROADCAST) in
      if \<not> broadcast \<and> \<not> scan_locals f (subslice header 12 18) then Inl DestinationBss else
      let alen = unat (u16_from_le_bytes (header ! 18) (header ! 19));
          end_pos = usize_add (usize_add body RRB_HEADER_LEN) alen in
      if frame_len r < usize_add end_pos SIV_LEN then Inl AuthLength else
      case tlv_walk r end_pos 0 (walk_init (usize_add body RRB_HEADER_LEN)) of
        Inl e \<Rightarrow> Inl e
      | Inr w \<Rightarrow>
          if pos w \<noteq> end_pos then Inl Tlv else
          let m = \<lparr>kind = header ! 5, body_offset = body\<rparr> in
          if broadcast
          then case broadcast_scope r f (header ! 5) (r0kh_position w) (r0kh_size w) of
              Inl e \<Rightarrow> Inl e
            | Inr _ \<Rightarrow> Inr m
          else Inr m)"

section \<open>The ingress gate\<close>

definition classify :: "bytes \<Rightarrow> Vlan \<Rightarrow> Filter \<Rightarrow> Counter + Match" where
  "classify r vlan f =
     (if frame_len r < ETH_HEADER_LEN \<or> MAX_FRAME < frame_len r then Inl Length else
      case frame_read 2 r ETH_TYPE_OFFSET of None \<Rightarrow> Inl Length | Some ty \<Rightarrow>
      let eth_proto = u16_from_be_bytes (ty ! 0) (ty ! 1) in
      if present vlan then
        if proto vlan \<noteq> TPID_8021Q \<or> tci vlan AND TCI_VID_MASK \<noteq> management_vlan f \<or>
           eth_proto \<noteq> ETH_P_RRB
        then Inl Vlan
        else parse_rrb r ETH_HEADER_LEN f
      else
        case frame_read 4 r ETH_HEADER_LEN of None \<Rightarrow> Inl Vlan | Some tag \<Rightarrow>
        if eth_proto \<noteq> TPID_8021Q \<or>
           u16_from_be_bytes (tag ! 0) (tag ! 1) AND TCI_VID_MASK \<noteq> management_vlan f \<or>
           subslice tag 2 4 \<noteq> u16_to_be_bytes ETH_P_RRB
        then Inl Vlan
        else parse_rrb r (usize_add ETH_HEADER_LEN VLAN_TAG_LEN) f)"

section \<open>The reader interface\<close>

text \<open>
  What the parser relies on of a \<open>ReadFrame\<close>: \<open>view\<close> is the byte string behind the reader; a read
  that succeeds lies inside it and returns its bytes, and an in-bounds read succeeds. The length
  bound is the one every Rust slice has.
\<close>

locale frame_reader =
  fixes len :: "'r \<Rightarrow> usize"
    and read :: "nat \<Rightarrow> 'r \<Rightarrow> usize \<Rightarrow> bytes option"
    and view :: "'r \<Rightarrow> bytes"
  assumes len_view: "len r = length (view r)"
    and read_sound: "read n r off = Some bs \<Longrightarrow> off + n \<le> len r \<and> bs = subslice (view r) off (off + n)"
    and read_total: "len r < usize_modulus \<Longrightarrow> off + n \<le> len r \<Longrightarrow> read n r off \<noteq> None"
begin

lemma read_length: "read n r off = Some bs \<Longrightarrow> length bs = n"
  using read_sound len_view by fastforce

lemma read_out_of_bounds: "len r < off + n \<Longrightarrow> read n r off = None"
  using read_sound by (metis leD option.exhaust)

lemma read_eq:
  assumes "len r < usize_modulus"
  shows "read n r off = (if off + n \<le> len r then Some (subslice (view r) off (off + n)) else None)"
proof (cases "off + n \<le> len r")
  case True
  with assms obtain bs where "read n r off = Some bs" using read_total by blast
  with True show ?thesis using read_sound by auto
next
  case False
  then show ?thesis by (simp add: read_out_of_bounds)
qed

lemma read_nth:
  "read n r off = Some bs \<Longrightarrow> k < n \<Longrightarrow> bs ! k = view r ! (off + k)"
  using read_sound len_view by fastforce

lemma read_agree:
  assumes "read n r off = Some bs" "read m r off = Some cs" "m \<le> n"
  shows "cs = take m bs"
proof -
  have "bs = subslice (view r) off (off + n)" "cs = subslice (view r) off (off + m)"
    using assms(1,2) read_sound by blast+
  with assms(3) show ?thesis by (simp add: subslice_def min_def)
qed

end

interpretation slice_reader: frame_reader frame_len frame_read "\<lambda>r. r"
  by unfold_locales
    (auto simp: frame_len_def frame_read_def usize_checked_add_def split: option.splits if_splits)

lemma frame_read_eq:
  assumes "length r \<le> MAX_FRAME"
  shows "frame_read n r off = (if off + n \<le> length r then Some (subslice r off (off + n)) else None)"
proof -
  have "frame_len r < usize_modulus"
    using assms by (simp add: frame_len_def rrb_consts usize_modulus_def)
  from slice_reader.read_eq [OF this] show ?thesis by (simp add: frame_len_def)
qed

section \<open>The scans\<close>

lemma scan_peers_None:
  assumes "wf_Filter f"
  shows "scan_peers f src = None \<longleftrightarrow> src \<notin> peer_mac ` set (filter_peers f)"
proof -
  have "(\<exists>i\<in>set [0..<MAX_PEERS]. i < unat (peer_count f) \<and> peer_mac (peers f ! i) = src) \<longleftrightarrow>
      (\<exists>p\<in>set (filter_peers f). peer_mac p = src)"
    unfolding filter_peers_def using assms by (intro counted_scan) (auto simp: wf_Filter_def)
  then show ?thesis
    by (auto simp: scan_peers_def fold_last_match_None image_iff)
qed

lemma scan_peers_Some:
  assumes "wf_Filter f" "scan_peers f src = Some i"
  shows "peers f ! i \<in> set (filter_peers f)" "peer_mac (peers f ! i) = src"
proof -
  have "i < MAX_PEERS" "i < unat (peer_count f)" "peer_mac (peers f ! i) = src"
    using assms(2) unfolding scan_peers_def by (auto dest: fold_last_match_Some)
  then show "peers f ! i \<in> set (filter_peers f)" "peer_mac (peers f ! i) = src"
    using assms(1) by (auto simp: filter_peers_def in_set_conv_nth wf_Filter_def)
qed

lemma scan_peer_bssids_iff:
  "wf_Peer p \<Longrightarrow> scan_peer_bssids p bss \<longleftrightarrow> bss \<in> set (peer_bss_list p)"
  unfolding scan_peer_bssids_def peer_bss_list_def
  by (subst fold_flag, subst counted_scan [where P = "\<lambda>b. b = bss"]) (auto simp: wf_Peer_def)

lemma scan_locals_iff:
  "wf_Filter f \<Longrightarrow> scan_locals f bss \<longleftrightarrow> bss \<in> local_bssid ` set (filter_locals f)"
  unfolding scan_locals_def filter_locals_def
  by (subst fold_flag, subst counted_scan [where P = "\<lambda>l. local_bssid l = bss"])
    (auto simp: wf_Filter_def)

lemma source_bss_ok_Some:
  assumes "wf_Peer (peers f ! i)"
  shows "source_bss_ok f (Some i) bss \<longleftrightarrow>
    peer_bss_list (peers f ! i) = [] \<or> bss \<in> set (peer_bss_list (peers f ! i))"
proof (cases "bssid_count (peers f ! i) = 0")
  case True
  then show ?thesis by (simp add: source_bss_ok_def peer_bss_list_def)
next
  case False
  then have "0 < bssid_count (peers f ! i)" by (simp add: word_neq_0_conv)
  moreover have "peer_bss_list (peers f ! i) \<noteq> []"
    using assms False by (auto simp: wf_Peer_def peer_bss_list_def rrb_consts unat_eq_0)
  ultimately show ?thesis
    using assms by (simp add: source_bss_ok_def scan_peer_bssids_iff)
qed

text \<open>The identity comparison reads only bytes of the R0KH-ID value and cannot fail on them.\<close>

lemma r0kh_identical_eq:
  assumes "length r \<le> MAX_FRAME" "position + sz \<le> length r" "sz \<le> MAX_R0KH"
  shows "j \<le> sz \<Longrightarrow> r0kh_identical r position sz ident j b =
    Inr (b \<and> (\<forall>k. j \<le> k \<and> k < sz \<longrightarrow> r ! (position + k) = ident ! k))"
proof (induction "sz - j" arbitrary: j b)
  case 0
  then show ?case by (subst r0kh_identical.simps) auto
next
  case (Suc n)
  then have j: "j < sz" "j < MAX_R0KH" "Suc j \<le> sz" "n = sz - Suc j" using assms(3) by auto
  have "usize_add position j = position + j"
    using assms j by (intro usize_add_small) (simp add: rrb_consts)
  then have rd: "frame_read 1 r (usize_add position j) = Some (subslice r (position + j) (position + j + 1))"
    using assms j by (simp add: frame_read_eq)
  have hd: "subslice r (position + j) (Suc (position + j)) ! 0 = r ! (position + j)"
    using assms(2) j by simp
  have split: "(\<forall>k. j \<le> k \<and> k < sz \<longrightarrow> P k) \<longleftrightarrow> P j \<and> (\<forall>k. Suc j \<le> k \<and> k < sz \<longrightarrow> P k)" for P
    using j by (metis Suc_leD Suc_leI le_less le_refl)
  show ?case
    using j rd hd Suc.hyps(1) [OF j(4,3)]
    by (subst r0kh_identical.simps) (auto simp: split [of "\<lambda>k. r ! (position + k) = ident ! k"])
qed

lemma r0kh_identical_slice:
  assumes "length r \<le> MAX_FRAME" "position + sz \<le> length r" "sz \<le> length ident" "sz \<le> MAX_R0KH"
  shows "r0kh_identical r position sz ident 0 True =
    Inr (subslice r position (position + sz) = take sz ident)"
proof -
  have "(\<forall>k. k < sz \<longrightarrow> r ! (position + k) = ident ! k) \<longleftrightarrow>
      subslice r position (position + sz) = take sz ident"
    using assms by (auto simp: list_eq_iff_nth_eq)
  then show ?thesis using assms by (simp add: r0kh_identical_eq)
qed

lemma scan_r0kh_from:
  assumes "wf_Filter f" "length r \<le> MAX_FRAME" "position + sz \<le> length r" "sz \<le> MAX_R0KH"
  shows "i \<le> MAX_LOCALS \<Longrightarrow> scan_r0kh r f position sz i b =
    Inr (b \<or> (\<exists>k. i \<le> k \<and> k < unat (local_count f) \<and>
           local_r0kh (locals f ! k) = subslice r position (position + sz)))"
proof (induction "MAX_LOCALS - i" arbitrary: i b)
  case 0
  then have "i = MAX_LOCALS" by simp
  moreover have "unat (local_count f) \<le> MAX_LOCALS" using assms(1) by (simp add: wf_Filter_def)
  ultimately show ?case by (subst scan_r0kh.simps) auto
next
  case (Suc n)
  then have i: "i < MAX_LOCALS" "n = MAX_LOCALS - Suc i" "Suc i \<le> MAX_LOCALS" by auto
  let ?v = "subslice r position (position + sz)"
  have wl: "wf_Local (locals f ! i)"
    using assms(1) i by (auto simp: wf_Filter_def list_all_length)
  have len: "length ?v = sz" using assms(3) by simp
  have split: "(\<exists>k. i \<le> k \<and> k < c \<and> P k) \<longleftrightarrow> i < c \<and> P i \<or> (\<exists>k. Suc i \<le> k \<and> k < c \<and> P k)" for P c
    by (metis Suc_leD Suc_leI le_less le_refl)
  have "unat (r0kh_len (locals f ! i)) = sz \<Longrightarrow>
      r0kh_identical r position sz (r0kh (locals f ! i)) 0 True =
        Inr (local_r0kh (locals f ! i) = ?v)"
    using assms wl by (subst r0kh_identical_slice) (auto simp: wf_Local_def local_r0kh_def)
  moreover have "unat (r0kh_len (locals f ! i)) \<noteq> sz \<Longrightarrow> local_r0kh (locals f ! i) \<noteq> ?v"
    using length_local_r0kh [OF wl] len by metis
  ultimately show ?case
    using i Suc.hyps(1) [OF i(2,3)]
    by (subst scan_r0kh.simps)
       (auto simp: split [where P = "\<lambda>k. local_r0kh (locals f ! k) = ?v"])
qed

lemma scan_r0kh_iff:
  assumes "wf_Filter f" "length r \<le> MAX_FRAME" "position + sz \<le> length r" "sz \<le> MAX_R0KH"
  shows "scan_r0kh r f position sz 0 False =
    Inr (subslice r position (position + sz) \<in> local_r0kh ` set (filter_locals f))"
proof -
  have "length (locals f) = MAX_LOCALS" "unat (local_count f) \<le> MAX_LOCALS"
    using assms(1) by (auto simp: wf_Filter_def)
  then have "(\<exists>k<unat (local_count f). local_r0kh (locals f ! k) = v) \<longleftrightarrow>
      v \<in> local_r0kh ` set (filter_locals f)" for v
    by (force simp: filter_locals_def in_set_conv_nth image_iff)
  then show ?thesis
    using scan_r0kh_from [OF assms, of 0 False] by simp
qed

section \<open>Which errors each loop can raise\<close>

lemma tlv_step_error: "tlv_step r end_pos i w = Inl e \<Longrightarrow> e = Tlv"
  by (auto simp: tlv_step_def Let_def split: option.splits if_splits)

lemma tlv_walk_error: "tlv_walk r end_pos i w = Inl e \<Longrightarrow> e = Tlv"
proof (induction r end_pos i w rule: tlv_walk.induct)
  case (1 r end_pos i w)
  then show ?case
    by (subst (asm) (2) tlv_walk.simps) (auto split: if_splits sum.splits dest: tlv_step_error)
qed

lemma r0kh_identical_error: "r0kh_identical r position sz ident j b = Inl e \<Longrightarrow> e = Tlv"
proof (induction r position sz ident j b rule: r0kh_identical.induct)
  case (1 r position sz ident j b)
  then show ?case
    by (subst (asm) (2) r0kh_identical.simps) (auto split: if_splits option.splits)
qed

lemma scan_r0kh_error: "scan_r0kh r f position sz i b = Inl e \<Longrightarrow> e = Tlv"
proof (induction r f position sz i b rule: scan_r0kh.induct)
  case (1 r f position sz i b)
  then show ?case
    by (subst (asm) (3) scan_r0kh.simps)
      (auto split: if_splits sum.splits dest: r0kh_identical_error)
qed

lemma broadcast_scope_error:
  "broadcast_scope r f k position sz = Inl e \<Longrightarrow> e = Tlv \<or> e = BroadcastScope"
  by (auto simp: broadcast_scope_def split: if_splits sum.splits dest: scan_r0kh_error)

lemma parse_rrb_error: "parse_rrb r body f = Inl e \<Longrightarrow> e \<in> set reject_counters"
  unfolding parse_rrb_def Let_def reject_counters_def
  by (auto split: option.splits if_splits sum.splits dest: tlv_walk_error broadcast_scope_error)

lemma classify_error: "classify r vlan f = Inl e \<Longrightarrow> e \<in> set reject_counters"
  unfolding classify_def Let_def
  by (auto split: option.splits if_splits dest: parse_rrb_error simp: reject_counters_def)

end
