(* ===== verification/Wire.thy ===== *)
theory Wire
  imports Parse
begin

text \<open>
  The wire format the validator of \<open>src/src/proto/parse.rs\<close> implements, stated declaratively: an RRB
  message is a record, \<open>encode_body\<close> lays it out as the module comment and the field comments
  describe, and \<open>acceptable\<close> says which messages the configured identity admits. The theorems at
  the end show that \<open>classify\<close> accepts a frame exactly when it is the encoding of an acceptable
  message, tagged inline or in metadata.
\<close>

unbundle bit_operations_syntax

section \<open>TLV streams\<close>

type_synonym tlv = "u16 \<times> bytes"

fun encode_tlv :: "tlv \<Rightarrow> bytes" where
  "encode_tlv (tag, v) = u16_to_le_bytes tag @ u16_to_le_bytes (word_of_nat (length v)) @ v"

definition encode_tlvs :: "tlv list \<Rightarrow> bytes" where
  "encode_tlvs ts = concat (map encode_tlv ts)"

definition tlvs_ok :: "tlv list \<Rightarrow> bool" where
  "tlvs_ok ts \<longleftrightarrow> length ts \<le> MAX_TLVS \<and> distinct (map fst ts) \<and>
     list_all (\<lambda>(tag, v). length v < 65536) ts"

definition r0kh_value :: "tlv list \<Rightarrow> bytes" where
  "r0kh_value ts = (case map_of ts TLV_R0KH of None \<Rightarrow> [] | Some v \<Rightarrow> v)"

lemma encode_tlvs_simps [simp]:
  "encode_tlvs [] = []"
  "encode_tlvs (t # ts) = encode_tlv t @ encode_tlvs ts"
  by (simp_all add: encode_tlvs_def)

lemma length_encode_tlv [simp]: "length (encode_tlv t) = 4 + length (snd t)"
  by (cases t) simp

lemma encode_tlvs_eq_Nil [simp]: "encode_tlvs ts = [] \<longleftrightarrow> ts = []"
  by (cases ts) (auto dest: arg_cong [of _ _ length])

section \<open>One step of the walk\<close>

text \<open>
  The facts every iteration works under: the frame passed the length gate, the auth block ends
  before the SIV trailer, the position is inside the block.
\<close>

definition walk_ok :: "bytes \<Rightarrow> usize \<Rightarrow> nat \<Rightarrow> walk \<Rightarrow> bool" where
  "walk_ok r end_pos i w \<longleftrightarrow> length r \<le> MAX_FRAME \<and> end_pos \<le> length r \<and> pos w \<le> end_pos \<and>
     length (tags w) = MAX_TLVS \<and> i \<le> MAX_TLVS"

lemma duplicate_tag_iff:
  "i \<le> length seen \<Longrightarrow> duplicate_tag seen i tag \<longleftrightarrow> tag \<in> set (take i seen)"
  by (auto simp: duplicate_tag_def list_ex_iff Bex_def in_set_enumerate_eq
      in_set_conv_nth [of tag "take i seen"]) (metis order_less_le_trans)

definition tlv_at :: "bytes \<Rightarrow> usize \<Rightarrow> tlv" where
  "tlv_at r p =
     (let size = unat (u16_from_le_bytes (r ! (p + 2)) (r ! (p + 3)))
      in (u16_from_le_bytes (r ! p) (r ! (p + 1)), subslice r (p + 4) (p + 4 + size)))"

definition walk_next :: "nat \<Rightarrow> tlv \<Rightarrow> walk \<Rightarrow> walk" where
  "walk_next i t w = \<lparr>pos = pos w + 4 + length (snd t), tags = (tags w)[i := fst t],
     r0kh_position = (if fst t = TLV_R0KH then pos w + 4 else r0kh_position w),
     r0kh_size = (if fst t = TLV_R0KH then length (snd t) else r0kh_size w)\<rparr>"

lemma u16_le_list: "u16_to_le_bytes (u16_from_le_bytes a b) = [a, b]"
  by (rule u16_to_from_le)

lemma subslice_4:
  assumes "p + 4 \<le> length r"
  shows "subslice r p (p + 4) = [r ! p, r ! (p + 1), r ! (p + 2), r ! (p + 3)]"
  using assms by (auto simp: list_eq_iff_nth_eq less_Suc_eq numeral_eq_Suc)

lemma encode_tlv_at:
  assumes "p + 4 + length (snd (tlv_at r p)) \<le> length r"
    and "length (snd (tlv_at r p)) = unat (u16_from_le_bytes (r ! (p + 2)) (r ! (p + 3)))"
  shows "encode_tlv (tlv_at r p) = subslice r p (p + 4 + length (snd (tlv_at r p)))"
proof -
  let ?n = "unat (u16_from_le_bytes (r ! (p + 2)) (r ! (p + 3)))"
  have "encode_tlv (tlv_at r p) =
      [r ! p, r ! (p + 1), r ! (p + 2), r ! (p + 3)] @ subslice r (p + 4) (p + 4 + ?n)"
    using assms(2) by (simp add: tlv_at_def Let_def u16_le_list)
  also have "\<dots> = subslice r p (p + 4) @ subslice r (p + 4) (p + 4 + ?n)"
    using assms by (simp add: subslice_4)
  finally show ?thesis using assms(2) by (simp add: slice_append_slice)
qed

text \<open>
  A step succeeds exactly when a whole TLV with a fresh tag starts at the position and ends
  inside the block, and then it moves past it; every other step is a \<open>Tlv\<close> rejection.
\<close>

definition step_fits :: "bytes \<Rightarrow> usize \<Rightarrow> nat \<Rightarrow> walk \<Rightarrow> bool" where
  "step_fits r end_pos i w \<longleftrightarrow> pos w + 4 \<le> end_pos \<and>
     pos w + 4 + unat (u16_from_le_bytes (r ! (pos w + 2)) (r ! (pos w + 3))) \<le> end_pos \<and>
     fst (tlv_at r (pos w)) \<notin> set (take i (tags w))"

lemma step_fits_length:
  assumes "walk_ok r end_pos i w" "step_fits r end_pos i w"
  shows "length (snd (tlv_at r (pos w))) = unat (u16_from_le_bytes (r ! (pos w + 2)) (r ! (pos w + 3)))"
  using assms by (simp add: tlv_at_def Let_def walk_ok_def step_fits_def)

lemma tlv_step_eq:
  assumes "walk_ok r end_pos i w"
  shows "tlv_step r end_pos i w =
    (if step_fits r end_pos i w then Inr (walk_next i (tlv_at r (pos w)) w) else Inl Tlv)"
proof -
  have b: "length r \<le> 2048" "end_pos \<le> length r" "pos w \<le> end_pos" "length (tags w) = 16" "i \<le> 16"
    using assms by (simp_all add: walk_ok_def rrb_consts)
  have a1: "usize_add (pos w) 4 = pos w + 4"
    using b by (intro usize_add_small) simp
  have a2: "usize_add (pos w + 4) (unat (x :: u16)) = pos w + 4 + unat x" for x
    using b unat_u16_lt [of x] by (intro usize_add_small) linarith
  have rd: "frame_read 4 r (pos w) = (if pos w + 4 \<le> length r then
      Some [r ! pos w, r ! (pos w + 1), r ! (pos w + 2), r ! (pos w + 3)] else None)"
    using b by (simp add: frame_read_eq rrb_consts subslice_4)
  show ?thesis
  proof (cases "pos w + 4 \<le> end_pos")
    case True
    with b have "pos w + 4 \<le> length r" by simp
    with True show ?thesis
      using b by (auto simp: tlv_step_def a1 a2 rd TLV_HEADER_LEN_def Let_def duplicate_tag_iff
          step_fits_def walk_next_def tlv_at_def)
  next
    case False
    then show ?thesis by (simp add: tlv_step_def step_fits_def a1 TLV_HEADER_LEN_def)
  qed
qed

lemma walk_next_ok:
  assumes "walk_ok r end_pos i w" "step_fits r end_pos i w" "i < MAX_TLVS"
  shows "walk_ok r end_pos (Suc i) (walk_next i (tlv_at r (pos w)) w)"
  using assms step_fits_length [OF assms(1,2)]
  by (simp add: walk_ok_def walk_next_def step_fits_def)

section \<open>The whole walk\<close>

text \<open>
  \<open>r0kh_located\<close> relates the state before and after consuming the TLVs \<open>ts\<close>: where the R0KH-ID
  sits, if the stream carries one.
\<close>

definition r0kh_located :: "bytes \<Rightarrow> tlv list \<Rightarrow> walk \<Rightarrow> walk \<Rightarrow> bool" where
  "r0kh_located r ts w w' \<longleftrightarrow>
     (case map_of ts TLV_R0KH of
        None \<Rightarrow> r0kh_position w' = r0kh_position w \<and> r0kh_size w' = r0kh_size w
      | Some v \<Rightarrow> r0kh_size w' = length v \<and> r0kh_position w' + length v \<le> length r \<and>
          subslice r (r0kh_position w') (r0kh_position w' + length v) = v)"

definition fresh_tags :: "nat \<Rightarrow> walk \<Rightarrow> tlv list \<Rightarrow> bool" where
  "fresh_tags i w ts \<longleftrightarrow> distinct (map fst ts) \<and> set (map fst ts) \<inter> set (take i (tags w)) = {}"

lemma r0kh_located_Cons:
  assumes "r0kh_located r ts (walk_next i t w) w'" "fst t \<notin> fst ` set ts"
    and "pos w + 4 + length (snd t) \<le> length r"
    and "snd t = subslice r (pos w + 4) (pos w + 4 + length (snd t))"
  shows "r0kh_located r (t # ts) w w'"
proof (cases "fst t = TLV_R0KH")
  case True
  then have "map_of ts TLV_R0KH = None" using assms(2) by (simp add: map_of_eq_None_iff)
  then show ?thesis using True assms by (cases t) (simp add: r0kh_located_def walk_next_def)
next
  case False
  then show ?thesis
    using assms(1) by (cases t) (simp add: r0kh_located_def walk_next_def split: option.splits)
qed

lemma fresh_tags_Cons:
  assumes "i < MAX_TLVS" "length (tags w) = MAX_TLVS"
  shows "fresh_tags i w (t # ts) \<longleftrightarrow>
    fst t \<notin> set (take i (tags w)) \<and> fst t \<notin> fst ` set ts \<and> fresh_tags (Suc i) (walk_next i t w) ts"
  using assms by (auto simp: fresh_tags_def walk_next_def take_Suc_conv_app_nth)

lemma tlv_walk_sound:
  assumes "walk_ok r end_pos i w" "tlv_walk r end_pos i w = Inr w'" "pos w' = end_pos"
  shows "\<exists>ts. subslice r (pos w) end_pos = encode_tlvs ts \<and> length ts + i \<le> MAX_TLVS \<and>
    fresh_tags i w ts \<and> list_all (\<lambda>(tag, v). length v < 65536) ts \<and> r0kh_located r ts w w'"
  using assms
proof (induction "MAX_TLVS - i" arbitrary: i w)
  case 0
  then have "w' = w" by (subst (asm) tlv_walk.simps) simp
  with 0 show ?case
    by (intro exI [of _ "[]"]) (simp add: fresh_tags_def r0kh_located_def walk_ok_def)
next
  case (Suc n)
  then have i: "i < MAX_TLVS" "n = MAX_TLVS - Suc i" by auto
  show ?case
  proof (cases "pos w = end_pos")
    case True
    then have "w' = w" using Suc.prems(2) i by (subst (asm) tlv_walk.simps) simp
    with True i show ?thesis
      by (intro exI [of _ "[]"]) (simp add: fresh_tags_def r0kh_located_def)
  next
    case False
    let ?t = "tlv_at r (pos w)"
    let ?w = "walk_next i ?t w"
    have fits: "step_fits r end_pos i w" and rest: "tlv_walk r end_pos (Suc i) ?w = Inr w'"
      using Suc.prems(1,2) False i
      by (subst (asm) tlv_walk.simps, simp add: tlv_step_eq split: if_splits)+
    note ok = walk_next_ok [OF Suc.prems(1) fits i(1)]
    from Suc.hyps(1) [OF i(2) ok rest Suc.prems(3)] obtain ts where
      ts: "subslice r (pos ?w) end_pos = encode_tlvs ts" "length ts + Suc i \<le> MAX_TLVS"
        "fresh_tags (Suc i) ?w ts" "list_all (\<lambda>(tag, v). length v < 65536) ts"
        "r0kh_located r ts ?w w'" by blast
    note len = step_fits_length [OF Suc.prems(1) fits]
    have bounds: "pos w + 4 + length (snd ?t) \<le> end_pos" "end_pos \<le> length r"
      using fits len Suc.prems(1) by (simp_all add: step_fits_def walk_ok_def)
    have enc: "encode_tlv ?t = subslice r (pos w) (pos ?w)"
      using encode_tlv_at [of "pos w" r] len bounds by (simp add: walk_next_def add.assoc)
    have notin: "fst ?t \<notin> fst ` set ts"
      using ts(3) i Suc.prems(1)
      by (auto simp: fresh_tags_def walk_next_def walk_ok_def take_Suc_conv_app_nth)
    have snd_t: "snd ?t = subslice r (pos w + 4) (pos w + 4 + length (snd ?t))"
      using len by (simp add: tlv_at_def Let_def)
    have "subslice r (pos w) end_pos = encode_tlvs (?t # ts)"
      using enc ts(1) bounds slice_append_slice [of "pos w" "pos ?w" end_pos r]
      by (simp add: walk_next_def)
    moreover have "fresh_tags i w (?t # ts)"
      using ts(3) notin fits i Suc.prems(1)
      by (simp add: fresh_tags_Cons walk_ok_def step_fits_def)
    moreover have "length (snd ?t) < 65536" using len by simp
    moreover have "r0kh_located r (?t # ts) w w'"
      using ts(5) notin bounds snd_t by (intro r0kh_located_Cons) auto
    ultimately show ?thesis
      using ts by (intro exI [of _ "?t # ts"]) (simp add: case_prod_beta)
  qed
qed


lemma encode_tlv_prefix:
  assumes "subslice r p q = encode_tlv t @ rest" "q \<le> length r" "length (snd t) < 65536"
  shows "tlv_at r p = t" "p + 4 + length (snd t) \<le> q"
    "subslice r (p + 4 + length (snd t)) q = rest"
    "unat (u16_from_le_bytes (r ! (p + 2)) (r ! (p + 3))) = length (snd t)"
proof -
  let ?n = "length (snd t)"
  have len: "q - p = 4 + ?n + length rest"
    using arg_cong [OF assms(1), of length] assms(2) by simp
  then show b: "p + 4 + ?n \<le> q" by simp
  have at: "r ! (p + k) = (encode_tlv t @ rest) ! k" if "k < 4 + ?n" for k
    using that b assms(2) slice_nth [of p k q r] by (simp add: assms(1))
  obtain tag v where t: "t = (tag, v)" by (cases t)
  let ?enc = "u16_to_le_bytes tag @ u16_to_le_bytes (word_of_nat (length v)) @ v"
  have four: "r ! p = u16_to_le_bytes tag ! 0" "r ! (p + 1) = u16_to_le_bytes tag ! 1"
    "r ! (p + 2) = u16_to_le_bytes (word_of_nat (length v)) ! 0"
    "r ! (p + 3) = u16_to_le_bytes (word_of_nat (length v)) ! 1"
    using at [of 0] at [of 1] at [of 2] at [of 3] by (simp_all add: t nth_append)
  then have tag: "u16_from_le_bytes (r ! p) (r ! (p + 1)) = tag"
    by simp
  show size: "unat (u16_from_le_bytes (r ! (p + 2)) (r ! (p + 3))) = length (snd t)"
    using four(3,4) assms(3) by (simp add: t unat_of_nat)
  have drop: "subslice r (p + k) q = drop k (encode_tlv t @ rest)" if "p + k \<le> q" for k
    using that by (simp add: subslice_def add.commute drop_take flip: assms(1))
  show "subslice r (p + 4 + ?n) q = rest"
    using drop [of "4 + ?n"] b by (simp add: add.assoc)
  have "subslice r (p + 4) (p + 4 + ?n) = take ?n (subslice r (p + 4) q)"
    using b by (simp add: subslice_def min_def)
  also have "\<dots> = v"
    using drop [of 4] b by (simp add: t u16_to_le_bytes_def u16_to_be_bytes_def)
  finally show "tlv_at r p = t"
    using tag size by (simp add: tlv_at_def Let_def t)
qed

lemma tlv_walk_complete:
  assumes "walk_ok r end_pos i w" "subslice r (pos w) end_pos = encode_tlvs ts"
    and "length ts + i \<le> MAX_TLVS" "fresh_tags i w ts" "list_all (\<lambda>(tag, v). length v < 65536) ts"
  shows "\<exists>w'. tlv_walk r end_pos i w = Inr w' \<and> pos w' = end_pos \<and> r0kh_located r ts w w'"
  using assms
proof (induction ts arbitrary: i w)
  case Nil
  then have "pos w = end_pos"
    using length_slice [of end_pos r "pos w"] by (simp add: walk_ok_def)
  then show ?case by (subst tlv_walk.simps) (auto simp: r0kh_located_def)
next
  case (Cons t ts)
  then have i: "i < MAX_TLVS" and small: "length (snd t) < 65536" and b: "end_pos \<le> length r"
    by (auto simp: case_prod_beta walk_ok_def)
  have enc: "subslice r (pos w) end_pos = encode_tlv t @ encode_tlvs ts" using Cons.prems(2) by simp
  note prefix = encode_tlv_prefix [OF enc b small]
  have fr: "fst t \<notin> set (take i (tags w))" "fst t \<notin> fst ` set ts"
    "fresh_tags (Suc i) (walk_next i t w) ts"
    using Cons.prems(1,4) i by (auto simp: fresh_tags_Cons walk_ok_def)
  have fits: "step_fits r end_pos i w" using prefix fr by (simp add: step_fits_def)
  have ok: "walk_ok r end_pos (Suc i) (walk_next i t w)"
    using walk_next_ok [OF Cons.prems(1) fits i] prefix by simp
  have "subslice r (pos (walk_next i t w)) end_pos = encode_tlvs ts"
    using prefix(3) by (simp add: walk_next_def)
  from Cons.IH [OF ok this _ fr(3)] Cons.prems(3,5) obtain w' where
    w': "tlv_walk r end_pos (Suc i) (walk_next i t w) = Inr w'" "pos w' = end_pos"
      "r0kh_located r ts (walk_next i t w) w'" by auto
  have "pos w \<noteq> end_pos" using prefix(2) by simp
  then have "tlv_walk r end_pos i w = Inr w'"
    using i w'(1) fits prefix(1) by (subst tlv_walk.simps) (simp add: tlv_step_eq Cons.prems(1))
  moreover have "snd t = subslice r (pos w + 4) (pos w + 4 + length (snd t))"
    using prefix(1,4) by (simp add: tlv_at_def Let_def) (metis snd_conv)
  then have "r0kh_located r (t # ts) w w'"
    using w'(3) fr(2) prefix(2) b by (intro r0kh_located_Cons) auto
  ultimately show ?case using w'(2) by blast
qed

section \<open>Messages\<close>

record rrb_msg =
  m_dst :: mac_addr
  m_src :: mac_addr
  m_kind :: u8
  m_src_bss :: mac_addr
  m_dst_bss :: mac_addr
  m_tlvs :: "tlv list"
  m_sealed :: bytes

definition wf_msg :: "rrb_msg \<Rightarrow> bool" where
  "wf_msg m \<longleftrightarrow> length (m_dst m) = 6 \<and> length (m_src m) = 6 \<and> length (m_src_bss m) = 6 \<and>
     length (m_dst_bss m) = 6 \<and> tlvs_ok (m_tlvs m) \<and> length (encode_tlvs (m_tlvs m)) < 65536 \<and>
     SIV_LEN \<le> length (m_sealed m)"

definition encode_header :: "rrb_msg \<Rightarrow> bytes" where
  "encode_header m = RRB_SELECTOR @ [m_kind m] @ m_src_bss m @ m_dst_bss m @
     u16_to_le_bytes (word_of_nat (length (encode_tlvs (m_tlvs m))))"

definition encode_body :: "rrb_msg \<Rightarrow> bytes" where
  "encode_body m = encode_header m @ encode_tlvs (m_tlvs m) @ m_sealed m"

text \<open>The two wire representations: the 802.1Q tag inline, or lifted into socket metadata.\<close>

definition encode_inline :: "u16 \<Rightarrow> rrb_msg \<Rightarrow> bytes" where
  "encode_inline t m = m_dst m @ m_src m @ u16_to_be_bytes TPID_8021Q @ u16_to_be_bytes t @
     u16_to_be_bytes ETH_P_RRB @ encode_body m"

definition encode_untagged :: "rrb_msg \<Rightarrow> bytes" where
  "encode_untagged m = m_dst m @ m_src m @ u16_to_be_bytes ETH_P_RRB @ encode_body m"

definition carries :: "Filter \<Rightarrow> Vlan \<Rightarrow> bytes \<Rightarrow> rrb_msg \<Rightarrow> bool" where
  "carries f vlan r m \<longleftrightarrow>
     (if present vlan
      then proto vlan = TPID_8021Q \<and> tci vlan AND TCI_VID_MASK = management_vlan f \<and>
        r = encode_untagged m
      else \<exists>t. t AND TCI_VID_MASK = management_vlan f \<and> r = encode_inline t m)"

section \<open>Which messages the configured identity admits\<close>

definition sender_ok :: "Filter \<Rightarrow> mac_addr \<Rightarrow> mac_addr \<Rightarrow> bool" where
  "sender_ok f src bss \<longleftrightarrow> filter_peers f = [] \<or>
     (\<exists>p\<in>set (filter_peers f). peer_mac p = src \<and>
        (peer_bss_list p = [] \<or> bss \<in> set (peer_bss_list p)))"

definition target_ok :: "Filter \<Rightarrow> u8 \<Rightarrow> mac_addr \<Rightarrow> bytes \<Rightarrow> bool" where
  "target_ok f k bss r0kh_id \<longleftrightarrow>
     (if bss = BROADCAST
      then k \<in> {KIND_PULL, KIND_SEQ_REQUEST} \<and> r0kh_id \<noteq> [] \<and> length r0kh_id \<le> MAX_R0KH \<and>
        r0kh_id \<in> local_r0kh ` set (filter_locals f)
      else bss \<in> local_bssid ` set (filter_locals f))"

definition header_ok :: "Filter \<Rightarrow> mac_addr \<Rightarrow> mac_addr \<Rightarrow> u8 \<Rightarrow> mac_addr \<Rightarrow> mac_addr \<Rightarrow> bytes \<Rightarrow> bool" where
  "header_ok f dst src k src_bss dst_bss r0kh_id \<longleftrightarrow>
     (dst = target_mac f \<or> dst = BROADCAST) \<and> sender_ok f src src_bss \<and>
     KIND_PULL \<le> k \<and> k \<le> KIND_SEQ_RESPONSE \<and> target_ok f k dst_bss r0kh_id"

definition acceptable :: "Filter \<Rightarrow> rrb_msg \<Rightarrow> bool" where
  "acceptable f m \<longleftrightarrow> header_ok f (m_dst m) (m_src m) (m_kind m) (m_src_bss m) (m_dst_bss m)
     (r0kh_value (m_tlvs m))"

definition distinct_peers :: "Filter \<Rightarrow> bool" where
  "distinct_peers f \<longleftrightarrow> distinct (map peer_mac (filter_peers f))"

lemma sender_check:
  assumes "wf_Filter f" "distinct_peers f"
  shows "\<not> (0 < peer_count f \<and> scan_peers f src = None) \<and> source_bss_ok f (scan_peers f src) bss \<longleftrightarrow>
    sender_ok f src bss"
proof (cases "scan_peers f src")
  case None
  have "peer_count f = 0 \<longleftrightarrow> filter_peers f = []"
    using wf_Filter_lengths(1) [OF assms(1)] by (metis length_0_conv unat_eq_zero)
  moreover have "src \<notin> peer_mac ` set (filter_peers f)"
    using None scan_peers_None [OF assms(1)] by simp
  ultimately show ?thesis
    unfolding None by (auto simp: source_bss_ok_def sender_ok_def word_gt_0)
next
  case (Some i)
  let ?p = "peers f ! i"
  have p: "?p \<in> set (filter_peers f)" "peer_mac ?p = src"
    using scan_peers_Some [OF assms(1) Some] by simp_all
  have uniq: "q = ?p" if "q \<in> set (filter_peers f)" "peer_mac q = src" for q
    using that p assms(2) by (auto simp: distinct_peers_def distinct_map dest: inj_onD)
  have "wf_Peer ?p" using p(1) assms(1) by (rule wf_Filter_peer [rotated])
  moreover have "sender_ok f src bss \<longleftrightarrow> peer_bss_list ?p = [] \<or> bss \<in> set (peer_bss_list ?p)"
    using p uniq unfolding sender_ok_def by (metis empty_iff list.set(1))
  ultimately show ?thesis
    unfolding Some by (simp add: source_bss_ok_Some)
qed

lemma broadcast_scope_iff:
  assumes "wf_Filter f" "length r \<le> MAX_FRAME" "position + length v \<le> length r"
    and "v = subslice r position (position + length v)"
  shows "broadcast_scope r f k position (length v) = Inr () \<longleftrightarrow> target_ok f k BROADCAST v"
proof (cases "length v \<le> MAX_R0KH")
  case True
  then show ?thesis
    using scan_r0kh_iff [OF assms(1-3) True] assms(4)
    by (auto simp: broadcast_scope_def target_ok_def)
next
  case False
  then show ?thesis by (simp add: broadcast_scope_def target_ok_def)
qed

section \<open>The body parser, inverted\<close>

lemma header_split:
  assumes "length h = 20"
  shows "h = take 5 h @ [h ! 5] @ subslice h 6 12 @ subslice h 12 18 @ [h ! 18, h ! 19]"
proof -
  have "take 5 h @ [h ! 5] = take 6 h"
    using assms take_Suc_conv_app_nth [of 5 h] by simp
  moreover have "take 6 h @ subslice h 6 12 = take 12 h" "take 12 h @ subslice h 12 18 = take 18 h"
    using slice_append_slice [of 0 6 12 h] slice_append_slice [of 0 12 18 h] by (simp_all add: slice_0)
  moreover have "take 18 h @ [h ! 18, h ! 19] = h"
    using assms take_Suc_conv_app_nth [of 18 h] take_Suc_conv_app_nth [of 19 h] by simp
  ultimately show ?thesis by (metis append.assoc)
qed

definition header_fits :: "Filter \<Rightarrow> mac_addr \<Rightarrow> mac_addr \<Rightarrow> bytes \<Rightarrow> bytes \<Rightarrow> bool" where
  "header_fits f dst src h r0kh_id \<longleftrightarrow> length h = 20 \<and> take 5 h = RRB_SELECTOR \<and>
     header_ok f dst src (h ! 5) (subslice h 6 12) (subslice h 12 18) r0kh_id"

definition auth_len :: "bytes \<Rightarrow> nat" where
  "auth_len h = unat (u16_from_le_bytes (h ! 18) (h ! 19))"

text \<open>
  The TLV walk of \<open>parse_rrb\<close>, from its initial state, succeeds with the block consumed exactly on
  the encodings of admissible TLV lists, and then it has located the R0KH-ID.
\<close>

definition r0kh_at :: "bytes \<Rightarrow> walk \<Rightarrow> bytes \<Rightarrow> bool" where
  "r0kh_at r w v \<longleftrightarrow> r0kh_size w = length v \<and> r0kh_position w + length v \<le> length r \<and>
     v = subslice r (r0kh_position w) (r0kh_position w + length v)"

lemma r0kh_located_init: "r0kh_located r ts (walk_init start) w \<Longrightarrow> r0kh_at r w (r0kh_value ts)"
  by (auto simp: r0kh_located_def r0kh_at_def r0kh_value_def walk_init_def split: option.splits)

lemma walk_init_ok:
  "length r \<le> MAX_FRAME \<Longrightarrow> end_pos \<le> length r \<Longrightarrow> start \<le> end_pos \<Longrightarrow>
    walk_ok r end_pos 0 (walk_init start)"
  by (simp add: walk_ok_def walk_init_def)

lemma walk_init_sound:
  assumes "length r \<le> MAX_FRAME" "end_pos \<le> length r" "start \<le> end_pos"
    and "tlv_walk r end_pos 0 (walk_init start) = Inr w" "pos w = end_pos"
  obtains ts where "subslice r start end_pos = encode_tlvs ts" "tlvs_ok ts"
    "r0kh_at r w (r0kh_value ts)"
  using tlv_walk_sound [OF walk_init_ok [OF assms(1-3)] assms(4,5)] r0kh_located_init
  by (force simp: walk_init_def tlvs_ok_def fresh_tags_def)

lemma walk_init_complete:
  assumes "length r \<le> MAX_FRAME" "end_pos \<le> length r" "start \<le> end_pos"
    and "subslice r start end_pos = encode_tlvs ts" "tlvs_ok ts"
  obtains w where "tlv_walk r end_pos 0 (walk_init start) = Inr w" "pos w = end_pos"
    "r0kh_at r w (r0kh_value ts)"
  using tlv_walk_complete [OF walk_init_ok [OF assms(1-3)], of ts] assms(4,5) r0kh_located_init
  by (force simp: walk_init_def tlvs_ok_def fresh_tags_def)

text \<open>\<open>parse_rrb\<close> with its reads done, on a frame whose header is in bounds.\<close>

definition body_checks :: "bytes \<Rightarrow> usize \<Rightarrow> Filter \<Rightarrow> bytes \<Rightarrow> bool" where
  "body_checks r body f h \<longleftrightarrow>
     (take 6 r = target_mac f \<or> take 6 r = BROADCAST) \<and>
     sender_ok f (subslice r 6 12) (subslice h 6 12) \<and>
     take 5 h = RRB_SELECTOR \<and> KIND_PULL \<le> h ! 5 \<and> h ! 5 \<le> KIND_SEQ_RESPONSE \<and>
     (subslice h 12 18 \<noteq> BROADCAST \<longrightarrow> subslice h 12 18 \<in> local_bssid ` set (filter_locals f)) \<and>
     body + 20 + auth_len h + 16 \<le> length r"

text \<open>With the header in bounds no \<open>usize\<close> sum of the body parser wraps.\<close>

lemma parse_rrb_eq:
  assumes "length r \<le> MAX_FRAME" "12 \<le> length r" "body \<le> 100"
    and "body + 20 \<le> length r" "h = subslice r body (body + 20)"
  shows "parse_rrb r body f =
    (if take 6 r \<noteq> target_mac f \<and> take 6 r \<noteq> BROADCAST then Inl EtherAddress else
     if 0 < peer_count f \<and> scan_peers f (subslice r 6 12) = None then Inl EtherAddress else
     if take 5 h \<noteq> RRB_SELECTOR \<or> h ! 5 < KIND_PULL \<or> KIND_SEQ_RESPONSE < h ! 5 then Inl OuiType else
     if \<not> source_bss_ok f (scan_peers f (subslice r 6 12)) (subslice h 6 12) then Inl SourceBss else
     if subslice h 12 18 \<noteq> BROADCAST \<and> \<not> scan_locals f (subslice h 12 18) then Inl DestinationBss else
     if length r < body + 20 + auth_len h + 16 then Inl AuthLength else
     case tlv_walk r (body + 20 + auth_len h) 0 (walk_init (body + 20)) of
       Inl e \<Rightarrow> Inl e
     | Inr w \<Rightarrow> if pos w \<noteq> body + 20 + auth_len h then Inl Tlv
         else if subslice h 12 18 = BROADCAST
         then case broadcast_scope r f (h ! 5) (r0kh_position w) (r0kh_size w) of
             Inl e \<Rightarrow> Inl e | Inr _ \<Rightarrow> Inr \<lparr>kind = h ! 5, body_offset = body\<rparr>
         else Inr \<lparr>kind = h ! 5, body_offset = body\<rparr>)"
proof -
  have rd: "frame_read 6 r 0 = Some (take 6 r)" "frame_read 6 r 6 = Some (subslice r 6 12)"
    "frame_read RRB_HEADER_LEN r body = Some h"
    using assms by (simp_all add: frame_read_eq slice_0 RRB_HEADER_LEN_def)
  have al: "auth_len h < 65536" by (simp add: auth_len_def)
  have a1: "usize_add body RRB_HEADER_LEN = body + 20"
    using assms(3) by (subst usize_add_small) (simp_all add: RRB_HEADER_LEN_def)
  have a2: "usize_add (body + 20) (unat (u16_from_le_bytes (h ! 18) (h ! 19))) = body + 20 + auth_len h"
    using assms(3) al unfolding auth_len_def by (intro usize_add_small) linarith
  have a3: "usize_add (body + 20 + auth_len h) SIV_LEN = body + 20 + auth_len h + 16"
    using assms(3) al by (subst usize_add_small) (simp_all add: SIV_LEN_def)
  show ?thesis
    unfolding parse_rrb_def rd option.case Let_def a1 a2 a3 frame_len_def slice_0 by (rule refl)
qed

lemma parse_rrb_unfold:
  assumes "wf_Filter f" "distinct_peers f" "length r \<le> MAX_FRAME" "12 \<le> length r" "body \<le> 100"
    and "body + 20 \<le> length r" "h = subslice r body (body + 20)"
  shows "parse_rrb r body f = Inr m \<longleftrightarrow> body_checks r body f h \<and>
    m = \<lparr>kind = h ! 5, body_offset = body\<rparr> \<and>
    (\<exists>w. tlv_walk r (body + 20 + auth_len h) 0 (walk_init (body + 20)) = Inr w \<and>
       pos w = body + 20 + auth_len h \<and>
       (subslice h 12 18 = BROADCAST \<longrightarrow>
          broadcast_scope r f (h ! 5) (r0kh_position w) (r0kh_size w) = Inr ()))"
  unfolding parse_rrb_eq [OF assms(3-7)] body_checks_def
    sender_check [OF assms(1,2), of "subslice r 6 12", symmetric]
  by (auto simp: scan_locals_iff [OF assms(1)] not_less not_le split: sum.splits if_splits)

lemma parse_rrb_short: "length r \<le> MAX_FRAME \<Longrightarrow> length r < body + 20 \<Longrightarrow> parse_rrb r body f \<noteq> Inr m"
  by (auto simp: parse_rrb_def frame_read_eq RRB_HEADER_LEN_def Let_def split: option.splits)

text \<open>The shape of an accepted frame, with its header still a byte string.\<close>

definition body_parts :: "Filter \<Rightarrow> bytes \<Rightarrow> usize \<Rightarrow> bytes \<Rightarrow> tlv list \<Rightarrow> bytes \<Rightarrow> bool" where
  "body_parts f r body h ts sealed \<longleftrightarrow> drop body r = h @ encode_tlvs ts @ sealed \<and>
     length (encode_tlvs ts) = auth_len h \<and> tlvs_ok ts \<and> SIV_LEN \<le> length sealed \<and>
     header_fits f (take 6 r) (subslice r 6 12) h (r0kh_value ts)"

lemma parse_rrb_sound:
  assumes "wf_Filter f" "distinct_peers f" "length r \<le> MAX_FRAME" "12 \<le> length r" "body \<le> 100"
    and L: "parse_rrb r body f = Inr m"
  obtains h ts sealed where "body_parts f r body h ts sealed" "m = \<lparr>kind = h ! 5, body_offset = body\<rparr>"
proof -
  note wf = assms(1-5)
  have len: "body + 20 \<le> length r" using L parse_rrb_short [OF assms(3)] by (metis not_less)
  let ?h = "subslice r body (body + 20)"
  let ?start = "body + 20" and ?stop = "body + 20 + auth_len ?h"
  from L obtain w where chk: "body_checks r body f ?h" and m: "m = \<lparr>kind = ?h ! 5, body_offset = body\<rparr>"
    and w: "tlv_walk r ?stop 0 (walk_init ?start) = Inr w" "pos w = ?stop"
    and bc: "subslice ?h 12 18 = BROADCAST \<longrightarrow>
      broadcast_scope r f (?h ! 5) (r0kh_position w) (r0kh_size w) = Inr ()"
    unfolding parse_rrb_unfold [OF wf len refl] by blast
  have fit: "?stop + 16 \<le> length r" using chk by (simp add: body_checks_def)
  obtain ts where ts: "subslice r ?start ?stop = encode_tlvs ts" "tlvs_ok ts" "r0kh_at r w (r0kh_value ts)"
    using walk_init_sound [OF assms(3) _ _ w] fit by auto
  have "drop body r = ?h @ encode_tlvs ts @ drop ?stop r"
  proof -
    have "drop body r = subslice r body (length r)" using len by (simp add: slice_to_end)
    also have "\<dots> = ?h @ subslice r ?start ?stop @ subslice r ?stop (length r)"
      using fit by (simp add: slice_append_slice)
    finally show ?thesis using fit by (simp add: ts(1) slice_to_end)
  qed
  moreover have "length (encode_tlvs ts) = auth_len ?h" using fit by (simp flip: ts(1))
  moreover have "target_ok f (?h ! 5) (subslice ?h 12 18) (r0kh_value ts)"
  proof (cases "subslice ?h 12 18 = BROADCAST")
    case True
    with bc ts(3) show ?thesis
      using broadcast_scope_iff [OF assms(1,3), of "r0kh_position w" "r0kh_value ts"]
      by (simp add: r0kh_at_def)
  next
    case False
    with chk show ?thesis by (simp add: target_ok_def body_checks_def)
  qed
  then have "header_fits f (take 6 r) (subslice r 6 12) ?h (r0kh_value ts)"
    using chk len by (simp add: header_fits_def header_ok_def body_checks_def)
  ultimately have "body_parts f r body ?h ts (drop ?stop r)"
    using ts(2) fit by (simp add: body_parts_def SIV_LEN_def)
  then show thesis using m by (rule that)
qed

lemma parse_rrb_complete:
  assumes "wf_Filter f" "distinct_peers f" "length r \<le> MAX_FRAME" "12 \<le> length r" "body \<le> 100"
    and parts: "body_parts f r body h ts sealed"
  shows "parse_rrb r body f = Inr \<lparr>kind = h ! 5, body_offset = body\<rparr>"
proof -
  note wf = assms(1-5)
  have d: "drop body r = h @ encode_tlvs ts @ sealed"
    and al: "length (encode_tlvs ts) = auth_len h" and ts: "tlvs_ok ts" and sl: "SIV_LEN \<le> length sealed"
    and hf: "header_fits f (take 6 r) (subslice r 6 12) h (r0kh_value ts)"
    using parts by (simp_all add: body_parts_def)
  have h20: "length h = 20" using hf by (simp add: header_fits_def)
  then have fit: "body + 20 + auth_len h + 16 \<le> length r"
    using arg_cong [OF d, of length] al sl by (simp add: SIV_LEN_def)
  then have len: "body + 20 \<le> length r" by simp
  have h: "h = subslice r body (body + 20)" using d h20 by (simp add: subslice_def)
  have blk: "subslice r (body + 20) (body + 20 + auth_len h) = encode_tlvs ts"
    using d h20 al slice_drop [of body r 20 "20 + auth_len h"] by (simp add: subslice_def add.assoc)
  obtain w where w: "tlv_walk r (body + 20 + auth_len h) 0 (walk_init (body + 20)) = Inr w"
    "pos w = body + 20 + auth_len h" "r0kh_at r w (r0kh_value ts)"
    using walk_init_complete [OF assms(3) _ _ blk ts] fit by auto
  have "subslice h 12 18 = BROADCAST \<Longrightarrow>
      broadcast_scope r f (h ! 5) (r0kh_position w) (r0kh_size w) = Inr ()"
    using hf w(3) broadcast_scope_iff [OF assms(1,3), of "r0kh_position w" "r0kh_value ts"]
    by (simp add: r0kh_at_def header_fits_def header_ok_def)
  moreover have "body_checks r body f h"
    using hf fit by (auto simp: header_fits_def header_ok_def body_checks_def target_ok_def)
  ultimately show ?thesis unfolding parse_rrb_unfold [OF wf len h] using w by blast
qed

section \<open>Messages and frames\<close>

lemma encode_header_fields:
  assumes "wf_msg m"
  shows "length (encode_header m) = 20" "take 5 (encode_header m) = RRB_SELECTOR"
    "encode_header m ! 5 = m_kind m" "subslice (encode_header m) 6 12 = m_src_bss m"
    "subslice (encode_header m) 12 18 = m_dst_bss m"
    "auth_len (encode_header m) = length (encode_tlvs (m_tlvs m))"
proof -
  have l: "length (m_src_bss m) = 6" "length (m_dst_bss m) = 6" "length (encode_tlvs (m_tlvs m)) < 65536"
    using assms by (simp_all add: wf_msg_def)
  show "length (encode_header m) = 20" "take 5 (encode_header m) = RRB_SELECTOR"
    "encode_header m ! 5 = m_kind m" "subslice (encode_header m) 6 12 = m_src_bss m"
    "subslice (encode_header m) 12 18 = m_dst_bss m"
    using l by (simp_all add: encode_header_def RRB_SELECTOR_def subslice_def)
  have "encode_header m ! 18 = u16_to_le_bytes (word_of_nat (length (encode_tlvs (m_tlvs m)))) ! 0"
    "encode_header m ! 19 = u16_to_le_bytes (word_of_nat (length (encode_tlvs (m_tlvs m)))) ! Suc 0"
    using l by (simp_all add: encode_header_def RRB_SELECTOR_def nth_append)
  then show "auth_len (encode_header m) = length (encode_tlvs (m_tlvs m))"
    using l(3) by (simp add: auth_len_def unat_of_nat)
qed

lemma encode_header_of_fields:
  assumes "length h = 20" "take 5 h = RRB_SELECTOR" "length (encode_tlvs ts) = auth_len h"
    and "m_kind m = h ! 5" "m_src_bss m = subslice h 6 12" "m_dst_bss m = subslice h 12 18" "m_tlvs m = ts"
  shows "encode_header m = h"
proof -
  have "u16_to_le_bytes (word_of_nat (auth_len h)) = [h ! 18, h ! 19]"
    by (simp add: auth_len_def u16_to_from_le)
  then show ?thesis
    using header_split [OF assms(1)] assms by (simp add: encode_header_def)
qed

definition carried_at :: "usize \<Rightarrow> bytes \<Rightarrow> rrb_msg \<Rightarrow> bool" where
  "carried_at body r m \<longleftrightarrow> take 12 r = m_dst m @ m_src m \<and> drop body r = encode_body m"

lemma parse_rrb_iff:
  assumes "wf_Filter f" "distinct_peers f" "length r \<le> MAX_FRAME" "12 \<le> length r" "body \<le> 100"
  shows "parse_rrb r body f = Inr res \<longleftrightarrow>
    (\<exists>m. wf_msg m \<and> acceptable f m \<and> carried_at body r m \<and>
       res = \<lparr>kind = m_kind m, body_offset = body\<rparr>)" (is "?L \<longleftrightarrow> ?R")
proof
  assume ?L
  then obtain h ts sealed where p: "body_parts f r body h ts sealed"
    and res: "res = \<lparr>kind = h ! 5, body_offset = body\<rparr>"
    by (rule parse_rrb_sound [OF assms])
  let ?m = "\<lparr>m_dst = take 6 r, m_src = subslice r 6 12, m_kind = h ! 5, m_src_bss = subslice h 6 12,
      m_dst_bss = subslice h 12 18, m_tlvs = ts, m_sealed = sealed\<rparr>"
  have enc: "encode_header ?m = h"
    using p by (intro encode_header_of_fields) (simp_all add: body_parts_def header_fits_def)
  have "wf_msg ?m"
    using p assms(4) unfolding wf_msg_def
    by (simp add: body_parts_def header_fits_def auth_len_def)
  moreover have "acceptable f ?m" using p by (simp add: acceptable_def body_parts_def header_fits_def)
  moreover have "carried_at body r ?m"
    using p enc slice_append_slice [of 0 6 12 r]
    by (simp add: carried_at_def encode_body_def body_parts_def slice_0)
  ultimately show ?R using res by (intro exI [of _ ?m]) simp
next
  assume ?R
  then obtain m where m: "wf_msg m" "acceptable f m" "carried_at body r m"
    and res: "res = \<lparr>kind = m_kind m, body_offset = body\<rparr>" by blast
  note flds = encode_header_fields [OF m(1)]
  have t12: "take 12 r = m_dst m @ m_src m" using m(3) by (simp add: carried_at_def)
  have "take 6 r = take 6 (take 12 r)" "subslice r 6 12 = drop 6 (take 12 r)"
    by (simp_all add: subslice_def drop_take)
  then have "take 6 r = m_dst m" "subslice r 6 12 = m_src m"
    unfolding t12 using m(1) by (simp_all add: wf_msg_def)
  then have "body_parts f r body (encode_header m) (m_tlvs m) (m_sealed m)"
    using m flds by (simp add: body_parts_def header_fits_def carried_at_def encode_body_def
        acceptable_def wf_msg_def)
  from parse_rrb_complete [OF assms this] show ?L using res flds by simp
qed


lemma encode_untagged_iff:
  assumes "wf_msg m"
  shows "r = encode_untagged m \<longleftrightarrow>
    14 \<le> length r \<and> subslice r 12 14 = u16_to_be_bytes ETH_P_RRB \<and> carried_at 14 r m"
proof -
  have l: "length (m_dst m @ m_src m) = 12" using assms by (simp add: wf_msg_def)
  show ?thesis
    using append_eq_slices [OF l, of "u16_to_be_bytes ETH_P_RRB" 2 r "encode_body m"]
    by (auto simp: encode_untagged_def carried_at_def)
qed

lemma encode_inline_iff:
  assumes "wf_msg m"
  shows "r = encode_inline t m \<longleftrightarrow> 18 \<le> length r \<and>
    subslice r 12 18 = u16_to_be_bytes TPID_8021Q @ u16_to_be_bytes t @ u16_to_be_bytes ETH_P_RRB \<and>
    carried_at 18 r m"
proof -
  have l: "length (m_dst m @ m_src m) = 12" using assms by (simp add: wf_msg_def)
  show ?thesis
    using append_eq_slices [OF l, of "u16_to_be_bytes TPID_8021Q @ u16_to_be_bytes t @
        u16_to_be_bytes ETH_P_RRB" 6 r "encode_body m"]
    by (auto simp: encode_inline_def carried_at_def)
qed

text \<open>The VLAN scope of a frame, and where its body starts, for both tag representations.\<close>

definition tag_ok :: "Filter \<Rightarrow> Vlan \<Rightarrow> bytes \<Rightarrow> bool" where
  "tag_ok f vlan r \<longleftrightarrow>
     (if present vlan
      then proto vlan = TPID_8021Q \<and> tci vlan AND TCI_VID_MASK = management_vlan f \<and>
        subslice r 12 14 = u16_to_be_bytes ETH_P_RRB
      else 18 \<le> length r \<and> subslice r 12 14 = u16_to_be_bytes TPID_8021Q \<and>
        u16_from_be_bytes (r ! 14) (r ! 15) AND TCI_VID_MASK = management_vlan f \<and>
        subslice r 16 18 = u16_to_be_bytes ETH_P_RRB)"

definition body_start :: "Vlan \<Rightarrow> usize" where
  "body_start vlan = (if present vlan then 14 else 18)"

lemma classify_unfold:
  assumes "14 \<le> length r" "length r \<le> MAX_FRAME"
  shows "classify r vlan f = (if tag_ok f vlan r then parse_rrb r (body_start vlan) f else Inl Vlan)"
proof -
  have ty: "frame_read 2 r ETH_TYPE_OFFSET = Some [r ! 12, r ! 13]" "subslice r 12 14 = [r ! 12, r ! 13]"
    using assms subslice_2 [of 12 r] by (simp_all add: frame_read_eq ETH_TYPE_OFFSET_def)
  have tag: "frame_read 4 r ETH_HEADER_LEN =
      (if 18 \<le> length r then Some [r ! 14, r ! 15, r ! 16, r ! 17] else None)"
    using assms(2) subslice_4 [of 14 r] by (simp add: frame_read_eq ETH_HEADER_LEN_def)
  have "18 \<le> length r \<Longrightarrow> subslice r 16 18 = [r ! 16, r ! 17]"
    using subslice_2 [of 16 r] by simp
  moreover have "usize_add ETH_HEADER_LEN VLAN_TAG_LEN = 18"
    by (simp add: usize_add_small ETH_HEADER_LEN_def VLAN_TAG_LEN_def)
  moreover have "subslice [a, b, c, d] 2 4 = [c, d]" for a b c d :: u8
    by (simp add: subslice_def)
  ultimately show ?thesis
    using assms unfolding classify_def ty tag tag_ok_def body_start_def
    by (simp add: frame_len_def Let_def u16_from_be_eq_iff ETH_HEADER_LEN_def ty(2))
qed

lemma classify_length: "length r < 14 \<or> MAX_FRAME < length r \<Longrightarrow> classify r vlan f = Inl Length"
  by (auto simp: classify_def frame_len_def ETH_HEADER_LEN_def)

lemma subslice_12_18:
  assumes "18 \<le> length r" "length a = 2" "length b = 2" "length c = 2"
  shows "subslice r 12 18 = a @ b @ c \<longleftrightarrow>
    subslice r 12 14 = a \<and> subslice r 14 16 = b \<and> subslice r 16 18 = c"
proof -
  have "subslice r 12 18 = subslice r 12 14 @ subslice r 14 16 @ subslice r 16 18"
    by (simp add: slice_append_slice)
  then show ?thesis using assms by (simp add: append_eq_append_conv)
qed

lemma carries_iff:
  assumes "wf_msg m"
  shows "carries f vlan r m \<longleftrightarrow>
    14 \<le> length r \<and> tag_ok f vlan r \<and> carried_at (body_start vlan) r m"
proof (cases "present vlan")
  case True
  then show ?thesis
    using assms by (auto simp: carries_def encode_untagged_iff tag_ok_def body_start_def)
next
  case False
  have "subslice r 14 16 = u16_to_be_bytes t \<longleftrightarrow> u16_from_be_bytes (r ! 14) (r ! 15) = t"
    if "18 \<le> length r" for t
    using that subslice_2 [of 14 r] by (simp add: u16_from_be_eq_iff)
  with False show ?thesis
    by (auto simp: carries_def encode_inline_iff [OF assms] tag_ok_def body_start_def subslice_12_18)
qed

lemma classify_accepts_iff:
  assumes "wf_Filter f" "distinct_peers f"
  shows "classify r vlan f = Inr res \<longleftrightarrow> length r \<le> MAX_FRAME \<and>
    (\<exists>m. wf_msg m \<and> acceptable f m \<and> carries f vlan r m \<and>
       res = \<lparr>kind = m_kind m, body_offset = body_start vlan\<rparr>)"
proof (cases "14 \<le> length r \<and> length r \<le> MAX_FRAME")
  case False
  then show ?thesis using classify_length [of r vlan f] by (auto simp: carries_iff)
next
  case True
  then have b: "12 \<le> length r" "length r \<le> MAX_FRAME" "body_start vlan \<le> 100"
    by (simp_all add: body_start_def)
  show ?thesis
    using True parse_rrb_iff [OF assms b(2,1,3), of res]
    by (auto simp: classify_unfold carries_iff)
qed

section \<open>Every rejection, in order\<close>

definition tlv_block :: "bytes \<Rightarrow> tlv list \<Rightarrow> bool" where
  "tlv_block block ts \<longleftrightarrow> block = encode_tlvs ts \<and> tlvs_ok ts"

text \<open>
  The auth block checks of \<open>parse_rrb\<close>: no TLV list at all is a \<open>Tlv\<close> rejection, a broadcast that
  names none of our R0KH-IDs a \<open>BroadcastScope\<close> one.
\<close>

lemma tlv_walk_no_block:
  assumes "length r \<le> MAX_FRAME" "end_pos \<le> length r" "start \<le> end_pos"
  shows "(case tlv_walk r end_pos 0 (walk_init start) of Inl e \<Rightarrow> Inl e
      | Inr w \<Rightarrow> if pos w \<noteq> end_pos then Inl Tlv else F w) =
    (if \<exists>ts. tlv_block (subslice r start end_pos) ts
     then F (projr (tlv_walk r end_pos 0 (walk_init start))) else Inl Tlv)"
proof (cases "\<exists>ts. tlv_block (subslice r start end_pos) ts")
  case True
  then obtain ts where "subslice r start end_pos = encode_tlvs ts" "tlvs_ok ts"
    by (auto simp: tlv_block_def)
  then obtain w where "tlv_walk r end_pos 0 (walk_init start) = Inr w" "pos w = end_pos"
    by (rule walk_init_complete [OF assms])
  with True show ?thesis by simp
next
  case False
  then have "\<not> (\<exists>w. tlv_walk r end_pos 0 (walk_init start) = Inr w \<and> pos w = end_pos)"
    using walk_init_sound [OF assms] unfolding tlv_block_def by metis
  with False show ?thesis
    using tlv_walk_error by (auto split: sum.splits)
qed

lemma encode_tlv_inj:
  assumes "encode_tlv s @ xs = encode_tlv t @ ys" "length (snd s) < 65536" "length (snd t) < 65536"
  shows "s = t \<and> xs = ys"
proof -
  let ?r = "encode_tlv s @ xs"
  have "subslice ?r 0 (length ?r) = encode_tlv s @ xs" "subslice ?r 0 (length ?r) = encode_tlv t @ ys"
    by (simp add: subslice_def) (simp add: subslice_def assms(1))
  from encode_tlv_prefix(1,3) [OF this(1) _ assms(2)] encode_tlv_prefix(1,3) [OF this(2) _ assms(3)]
  show ?thesis by auto
qed

lemma encode_tlvs_inj:
  "encode_tlvs ts = encode_tlvs us \<Longrightarrow> list_all (\<lambda>(tag, v). length v < 65536) ts \<Longrightarrow>
    list_all (\<lambda>(tag, v). length v < 65536) us \<Longrightarrow> ts = us"
proof (induction ts arbitrary: us)
  case Nil
  then show ?case by (metis encode_tlvs_eq_Nil)
next
  case (Cons t ts)
  then obtain u us' where us: "us = u # us'" by (metis encode_tlvs_eq_Nil list.exhaust)
  with Cons show ?case
    using encode_tlv_inj [of t "encode_tlvs ts" u "encode_tlvs us'"] by (auto simp: case_prod_beta)
qed

lemma tlv_block_encoded:
  assumes "list_all (\<lambda>(tag, v). length v < 65536) ts"
  shows "tlv_block (encode_tlvs ts) us \<longleftrightarrow> tlvs_ok ts \<and> us = ts"
  using encode_tlvs_inj [OF _ assms, of us] by (auto simp: tlv_block_def tlvs_ok_def)

lemma tlv_block_unique: "tlv_block block ts \<Longrightarrow> tlv_block block us \<Longrightarrow> ts = us"
  using encode_tlvs_inj by (simp add: tlv_block_def tlvs_ok_def)

definition reject_reason :: "Filter \<Rightarrow> Vlan \<Rightarrow> bytes \<Rightarrow> Counter option" where
  "reject_reason f vlan r =
     (let b = body_start vlan;
          h = subslice r b (b + 20);
          stop = b + 20 + auth_len h;
          block = subslice r (b + 20) stop
      in if length r < 14 \<or> 2048 < length r then Some Length
         else if \<not> tag_ok f vlan r then Some Vlan
         else if take 6 r \<notin> {target_mac f, BROADCAST} \<or>
             (filter_peers f \<noteq> [] \<and> subslice r 6 12 \<notin> peer_mac ` set (filter_peers f))
           then Some EtherAddress
         else if length r < b + 20 then Some Length
         else if take 5 h \<noteq> RRB_SELECTOR \<or> \<not> (KIND_PULL \<le> h ! 5 \<and> h ! 5 \<le> KIND_SEQ_RESPONSE)
           then Some OuiType
         else if \<not> sender_ok f (subslice r 6 12) (subslice h 6 12) then Some SourceBss
         else if subslice h 12 18 \<noteq> BROADCAST \<and>
             subslice h 12 18 \<notin> local_bssid ` set (filter_locals f)
           then Some DestinationBss
         else if length r < stop + 16 then Some AuthLength
         else if \<nexists>ts. tlv_block block ts then Some Tlv
         else if \<nexists>ts. tlv_block block ts \<and> target_ok f (h ! 5) (subslice h 12 18) (r0kh_value ts)
           then Some BroadcastScope
         else None)"

lemma broadcast_scope_cases:
  assumes "wf_Filter f" "length r \<le> MAX_FRAME" "r0kh_at r w v"
  shows "broadcast_scope r f k (r0kh_position w) (r0kh_size w) =
    (if target_ok f k BROADCAST v then Inr () else Inl BroadcastScope)"
proof -
  have v: "r0kh_size w = length v" "r0kh_position w + length v \<le> length r"
    "v = subslice r (r0kh_position w) (r0kh_position w + length v)"
    using assms(3) by (simp_all add: r0kh_at_def)
  have "broadcast_scope r f k (r0kh_position w) (length v) \<in> {Inr (), Inl BroadcastScope}"
    using scan_r0kh_iff [OF assms(1,2) v(2)] by (auto simp: broadcast_scope_def)
  with broadcast_scope_iff [OF assms(1,2) v(2,3)] show ?thesis by (auto simp: v(1))
qed

lemma sender_gate:
  assumes "wf_Filter f"
  shows "0 < peer_count f \<and> scan_peers f src = None \<longleftrightarrow>
    filter_peers f \<noteq> [] \<and> src \<notin> peer_mac ` set (filter_peers f)"
  using wf_Filter_lengths(1) [OF assms] scan_peers_None [OF assms]
  by (metis length_0_conv unat_eq_zero word_gt_0)

lemma auth_block_gate:
  assumes "wf_Filter f" "length r \<le> MAX_FRAME" "stop \<le> length r" "start \<le> stop"
    and "bss \<noteq> BROADCAST \<longrightarrow> bss \<in> local_bssid ` set (filter_locals f)"
  shows "(case tlv_walk r stop 0 (walk_init start) of Inl e \<Rightarrow> Inl e
      | Inr w \<Rightarrow> if pos w \<noteq> stop then Inl Tlv
          else if bss = BROADCAST
          then case broadcast_scope r f k (r0kh_position w) (r0kh_size w) of
              Inl e \<Rightarrow> Inl e | Inr _ \<Rightarrow> Inr m
          else Inr m) =
    (if \<nexists>ts. tlv_block (subslice r start stop) ts then Inl Tlv
     else if \<nexists>ts. tlv_block (subslice r start stop) ts \<and> target_ok f k bss (r0kh_value ts)
     then Inl BroadcastScope else Inr m)"
proof (cases "\<exists>ts. tlv_block (subslice r start stop) ts")
  case True
  then obtain ts where ts: "tlv_block (subslice r start stop) ts" by blast
  then obtain w where w: "tlv_walk r stop 0 (walk_init start) = Inr w" "pos w = stop"
    "r0kh_at r w (r0kh_value ts)"
    using walk_init_complete [OF assms(2-4)] by (auto simp: tlv_block_def)
  have "(\<exists>us. tlv_block (subslice r start stop) us \<and> P us) \<longleftrightarrow> P ts" for P
    using ts tlv_block_unique by blast
  with True w assms(5) show ?thesis
    by (auto simp: broadcast_scope_cases [OF assms(1,2) w(3)] target_ok_def)
next
  case False
  then show ?thesis unfolding tlv_walk_no_block [OF assms(2-4)] by auto
qed

lemma parse_rrb_reject_short:
  assumes "wf_Filter f" "length r \<le> MAX_FRAME" "12 \<le> length r" "length r < body + 20"
  shows "parse_rrb r body f = Inl (if take 6 r \<notin> {target_mac f, BROADCAST} \<or>
    (filter_peers f \<noteq> [] \<and> subslice r 6 12 \<notin> peer_mac ` set (filter_peers f))
    then EtherAddress else Length)"
proof -
  have "frame_read 6 r 0 = Some (take 6 r)" "frame_read 6 r 6 = Some (subslice r 6 12)"
    "frame_read RRB_HEADER_LEN r body = None"
    using assms by (simp_all add: frame_read_eq slice_0 RRB_HEADER_LEN_def)
  then show ?thesis
    unfolding sender_gate [OF assms(1), symmetric] by (auto simp: parse_rrb_def Let_def)
qed

lemma classify_reject_reason:
  assumes "wf_Filter f" "distinct_peers f"
  shows "classify r vlan f =
    (case reject_reason f vlan r of
       Some e \<Rightarrow> Inl e
     | None \<Rightarrow> Inr \<lparr>kind = r ! (body_start vlan + 5), body_offset = body_start vlan\<rparr>)"
proof (cases "14 \<le> length r \<and> length r \<le> 2048 \<and> tag_ok f vlan r")
  case False
  then show ?thesis
    using classify_length [of r vlan f] classify_unfold [of r vlan f]
    by (auto simp: reject_reason_def Let_def rrb_consts)
next
  case True
  let ?b = "body_start vlan"
  let ?h = "subslice r ?b (?b + 20)"
  have mf: "length r \<le> MAX_FRAME" "12 \<le> length r" "?b \<le> 100"
    using True by (simp_all add: rrb_consts body_start_def)
  have cl: "classify r vlan f = parse_rrb r ?b f" using True mf by (simp add: classify_unfold)
  note gate = sender_gate [OF assms(1)] sender_check [OF assms, of "subslice r 6 12" "subslice ?h 6 12"]
  show ?thesis
  proof (cases "?b + 20 \<le> length r")
    case False
    then show ?thesis
      using True mf by (auto simp: cl parse_rrb_reject_short [OF assms(1)] reject_reason_def Let_def)
  next
    case len: True
    then have k: "?h ! 5 = r ! (?b + 5)" by simp
    show ?thesis
      using True len gate(2)
      unfolding cl parse_rrb_eq [OF mf len refl] reject_reason_def Let_def k gate(1)
        scan_locals_iff [OF assms(1)]
      by (auto simp: not_le auth_block_gate [OF assms(1) mf(1)])
  qed
qed

text \<open>A frame that passes every check up to the message type is judged by its type and its TLVs.\<close>

lemma reject_reason_parts:
  assumes "length r \<le> 2048" "tag_ok f vlan r" "take 6 r = target_mac f \<or> take 6 r = BROADCAST"
    and h: "subslice r (body_start vlan) (body_start vlan + 20) = h" "take 5 h = RRB_SELECTOR" "h ! 5 = k"
    "subslice h 12 18 = bss" "auth_len h = n" "subslice r (body_start vlan + 20) (body_start vlan + 20 + n) = block"
    and "sender_ok f (subslice r 6 12) (subslice h 6 12)"
    and "bss = BROADCAST \<or> bss \<in> local_bssid ` set (filter_locals f)" "body_start vlan + 36 + n \<le> length r"
  shows "reject_reason f vlan r =
    (if \<not> (KIND_PULL \<le> k \<and> k \<le> KIND_SEQ_RESPONSE) then Some OuiType
     else if \<nexists>ts. tlv_block block ts then Some Tlv
     else if \<nexists>ts. tlv_block block ts \<and> target_ok f k bss (r0kh_value ts) then Some BroadcastScope
     else None)"
proof -
  have "filter_peers f = [] \<or> subslice r 6 12 \<in> peer_mac ` set (filter_peers f)"
    using assms(10) unfolding sender_ok_def by (metis image_eqI)
  moreover have "14 \<le> length r" using assms(12) by (simp add: body_start_def split: if_splits)
  ultimately show ?thesis
    using assms(1-3,10-12) unfolding reject_reason_def Let_def h by auto
qed

text \<open>
  Two frames get the same verdict, up to the offset of the body, when everything the checks look at
  agrees: geometry, tag, addresses, header and auth block.
\<close>

definition same_view :: "Filter \<Rightarrow> Vlan \<Rightarrow> bytes \<Rightarrow> Vlan \<Rightarrow> bytes \<Rightarrow> bool" where
  "same_view f v r v' r' \<longleftrightarrow>
     (let b = body_start v; b' = body_start v'; h = subslice r b (b + 20); n = auth_len h
      in (length r < 14 \<longleftrightarrow> length r' < 14) \<and> (2048 < length r \<longleftrightarrow> 2048 < length r') \<and>
         tag_ok f v r = tag_ok f v' r' \<and> take 6 r = take 6 r' \<and> subslice r 6 12 = subslice r' 6 12 \<and>
         (length r < b + 20 \<longleftrightarrow> length r' < b' + 20) \<and> h = subslice r' b' (b' + 20) \<and>
         (length r < b + 20 + n + 16 \<longleftrightarrow> length r' < b' + 20 + n + 16) \<and>
         subslice r (b + 20) (b + 20 + n) = subslice r' (b' + 20) (b' + 20 + n))"

lemma classify_same_view:
  assumes "wf_Filter f" "distinct_peers f" "same_view f v r v' r'"
  shows "classify r v f =
    (case classify r' v' f of Inl e \<Rightarrow> Inl e | Inr m \<Rightarrow> Inr (m\<lparr>body_offset := body_start v\<rparr>))"
proof -
  let ?h' = "subslice r' (body_start v') (body_start v' + 20)"
  have h: "subslice r (body_start v) (body_start v + 20) = ?h'" using assms(3) by (simp add: same_view_def Let_def)
  have eqs: "length r < 14 \<longleftrightarrow> length r' < 14" "2048 < length r \<longleftrightarrow> 2048 < length r'" "tag_ok f v r = tag_ok f v' r'"
    "take 6 r = take 6 r'" "subslice r 6 12 = subslice r' 6 12"
    "length r < body_start v + 20 \<longleftrightarrow> length r' < body_start v' + 20"
    "length r < body_start v + 20 + auth_len ?h' + 16 \<longleftrightarrow> length r' < body_start v' + 20 + auth_len ?h' + 16"
    "subslice r (body_start v + 20) (body_start v + 20 + auth_len ?h') =
       subslice r' (body_start v' + 20) (body_start v' + 20 + auth_len ?h')"
    using assms(3) unfolding same_view_def Let_def h by blast+
  have rr: "reject_reason f v r = reject_reason f v' r'"
    unfolding reject_reason_def Let_def h eqs by (rule refl)
  have "r ! (body_start v + 5) = r' ! (body_start v' + 5)" if none: "reject_reason f v r = None"
  proof -
    have "body_start v + 20 \<le> length r"
      using none by (auto simp: reject_reason_def Let_def split: if_splits)
    moreover from this have "body_start v' + 20 \<le> length r'"
      using assms(3) by (simp add: same_view_def Let_def linorder_not_less [symmetric])
    moreover have "subslice r (body_start v) (body_start v + 20) ! 5 = subslice r' (body_start v') (body_start v' + 20) ! 5"
      using assms(3) by (simp add: same_view_def Let_def)
    ultimately show ?thesis by (simp add: subslice_def)
  qed
  then show ?thesis
    by (simp add: classify_reject_reason [OF assms(1,2)] rr split: option.splits)
qed

lemma subslice_prefix: "take n r = take n r' \<Longrightarrow> j \<le> n \<Longrightarrow> subslice r i j = subslice r' i j"
proof -
  assume a: "take n r = take n r'" "j \<le> n"
  have "subslice s i j = drop i (take j (take n s))" for s :: "'a list"
    using a(2) by (simp add: subslice_def drop_take min_absorb1)
  then show ?thesis by (simp only: a(1))
qed

lemma nth_prefix: "take n r = take n r' \<Longrightarrow> i < n \<Longrightarrow> r ! i = r' ! i"
  by (metis nth_take)

section \<open>Decoding is unambiguous\<close>

lemma encode_body_inj:
  assumes "wf_msg m" "wf_msg n" "encode_body m = encode_body n"
  shows "m_kind m = m_kind n" "m_src_bss m = m_src_bss n" "m_dst_bss m = m_dst_bss n"
    "m_tlvs m = m_tlvs n" "m_sealed m = m_sealed n"
proof -
  note fm = encode_header_fields [OF assms(1)] and fn = encode_header_fields [OF assms(2)]
  have h: "encode_header m = encode_header n"
    and rest: "encode_tlvs (m_tlvs m) @ m_sealed m = encode_tlvs (m_tlvs n) @ m_sealed n"
    using assms(3) fm(1) fn(1) by (simp_all add: encode_body_def)
  show "m_kind m = m_kind n" "m_src_bss m = m_src_bss n" "m_dst_bss m = m_dst_bss n"
    using fm(3-5) fn(3-5) h by metis+
  have "length (encode_tlvs (m_tlvs m)) = length (encode_tlvs (m_tlvs n))"
    using fm(6) fn(6) h by metis
  with rest have "encode_tlvs (m_tlvs m) = encode_tlvs (m_tlvs n)" "m_sealed m = m_sealed n" by simp_all
  then show "m_tlvs m = m_tlvs n" "m_sealed m = m_sealed n"
    using assms(1,2) tlv_block_unique [of "encode_tlvs (m_tlvs m)" "m_tlvs m" "m_tlvs n"]
    by (simp_all add: tlv_block_def wf_msg_def)
qed

lemma carried_at_unique:
  assumes "wf_msg m" "wf_msg n" "carried_at b r m" "carried_at b r n"
  shows "m = n"
proof -
  have "m_dst m @ m_src m = m_dst n @ m_src n" "encode_body m = encode_body n"
    using assms(3,4) by (simp_all add: carried_at_def)
  then show ?thesis
    using encode_body_inj [OF assms(1,2)] assms(1,2)
    by (cases m; cases n) (auto simp: wf_msg_def)
qed

text \<open>The frame that carries a message in a given representation.\<close>

definition frame_of :: "Vlan \<Rightarrow> u16 \<Rightarrow> rrb_msg \<Rightarrow> bytes" where
  "frame_of vlan t m = (if present vlan then encode_untagged m else encode_inline t m)"

definition scope_ok :: "Filter \<Rightarrow> Vlan \<Rightarrow> u16 \<Rightarrow> bool" where
  "scope_ok f vlan t \<longleftrightarrow>
     (if present vlan
      then proto vlan = TPID_8021Q \<and> tci vlan AND TCI_VID_MASK = management_vlan f
      else t AND TCI_VID_MASK = management_vlan f)"

lemma u16_to_be_bytes_inj: "u16_to_be_bytes a = u16_to_be_bytes b \<longleftrightarrow> a = b"
  by (metis u16_to_be_nth)

lemma carries_frame_of: "carries f vlan (frame_of vlan t m) m \<longleftrightarrow> scope_ok f vlan t"
  by (auto simp: carries_def frame_of_def scope_ok_def encode_inline_def u16_to_be_bytes_inj)

lemma carriesE:
  assumes "carries f vlan r m"
  obtains t where "r = frame_of vlan t m" "scope_ok f vlan t"
  using assms that by (auto simp: carries_def frame_of_def scope_ok_def split: if_splits)

text \<open>On the frame of a known message the verdict is the identity check of that message.\<close>

lemma frame_of_carried: "wf_msg m \<Longrightarrow> carried_at (body_start vlan) (frame_of vlan t m) m"
  using encode_untagged_iff [of m "encode_untagged m"] encode_inline_iff [of m "encode_inline t m" t]
  by (auto simp: frame_of_def body_start_def)

lemma classify_frame_of:
  assumes "wf_Filter f" "distinct_peers f" "wf_msg m"
  shows "classify (frame_of vlan t m) vlan f = Inr res \<longleftrightarrow>
    length (frame_of vlan t m) \<le> MAX_FRAME \<and> scope_ok f vlan t \<and> acceptable f m \<and>
    res = \<lparr>kind = m_kind m, body_offset = body_start vlan\<rparr>"
proof -
  let ?r = "frame_of vlan t m"
  have "wf_msg n \<Longrightarrow> carries f vlan ?r n \<Longrightarrow> n = m" for n
    using frame_of_carried [OF assms(3)] assms(3) by (auto simp: carries_iff intro: carried_at_unique)
  then show ?thesis
    unfolding classify_accepts_iff [OF assms(1,2)] using assms(3) carries_frame_of by metis
qed

lemma classify_acceptedE:
  assumes "wf_Filter f" "distinct_peers f" "classify r vlan f = Inr res"
  obtains m t where "wf_msg m" "acceptable f m" "r = frame_of vlan t m" "scope_ok f vlan t"
    "length r \<le> MAX_FRAME" "res = \<lparr>kind = m_kind m, body_offset = body_start vlan\<rparr>"
  using assms(3) that unfolding classify_accepts_iff [OF assms(1,2)] by (metis carriesE)

lemma length_frame_of:
  "length (frame_of vlan t m) = length (m_dst m) + length (m_src m) + (if present vlan then 2 else 6) +
    length (encode_header m) + length (encode_tlvs (m_tlvs m)) + length (m_sealed m)"
  by (simp add: frame_of_def encode_untagged_def encode_inline_def encode_body_def)

lemma length_encode_header: "wf_msg m \<Longrightarrow> length (encode_header m) = 20"
  by (rule encode_header_fields(1))

lemma truncated_not_carried:
  assumes "wf_msg m" "length (m_sealed m) = SIV_LEN" "n < length r"
    and "carried_at b r m" "wf_msg m'" "carried_at b (take n r) m'"
  shows False
proof -
  have d: "drop b r = encode_body m" and d': "drop b (take n r) = encode_body m'"
    using assms(4,6) by (simp_all add: carried_at_def)
  then have pre: "encode_body m' = take (n - b) (encode_body m)" by (simp add: drop_take)
  have ge: "20 + length (encode_tlvs (m_tlvs m')) + 16 \<le> length (encode_body m')"
    using length_encode_header [OF assms(5)] assms(5) by (simp add: encode_body_def wf_msg_def SIV_LEN_def)
  then have "20 \<le> n - b" by (simp add: pre)
  have "encode_header m' = take 20 (encode_body m')" "encode_header m = take 20 (encode_body m)"
    using length_encode_header assms(1,5) by (simp_all add: encode_body_def)
  with pre \<open>20 \<le> n - b\<close> have "encode_header m' = encode_header m" by (simp add: min_def)
  then have "length (encode_tlvs (m_tlvs m')) = length (encode_tlvs (m_tlvs m))"
    using encode_header_fields(6) assms(1,5) by metis
  then have "length (encode_body m) \<le> length (encode_body m')"
    using ge length_encode_header [OF assms(1)] assms(2) by (simp add: encode_body_def SIV_LEN_def)
  then have "length r - b \<le> n - b" using assms(3) by (simp flip: d d')
  with \<open>20 \<le> n - b\<close> assms(3) show False by simp
qed

section \<open>VLAN identifiers\<close>

lemma vlan_scope_unmatchable:
  assumes "4095 < management_vlan f"
  shows "classify r vlan f = Inl Length \<or> classify r vlan f = Inl Vlan"
proof -
  have "x AND TCI_VID_MASK \<le> 4095" for x :: u16
    unfolding TCI_VID_MASK_def by (simp add: word_and_le1)
  then have "x AND TCI_VID_MASK \<noteq> management_vlan f" for x :: u16
    using assms by (metis leD)
  then have "\<not> tag_ok f vlan r" by (simp add: tag_ok_def)
  then show ?thesis
    using classify_length [of r vlan f] classify_unfold [of r vlan f] by (metis not_less)
qed

end
