(* ===== verification/Validation.thy ===== *)
theory Validation
  imports Wire
begin

text \<open>
  What the validator guarantees: the properties of \<open>classify\<close>, each with a witness on the
  identity and the frames that \<open>src/src/proto/tests.rs\<close> builds.
\<close>

unbundle bit_operations_syntax

section \<open>The fixtures of the unit tests\<close>

definition test_filter :: Filter where
  "test_filter = Filter_default\<lparr>
     target_mac := [2, 0, 0, 0, 0, 1], local_count := 1, peer_count := 1,
     locals := (locals Filter_default)[0 := Local_default\<lparr>
       local_bssid := [2, 0, 0, 0, 0, 2], r0kh_len := 5,
       r0kh := [0x6c, 0x6f, 0x63, 0x61, 0x6c] @ replicate 43 0\<rparr>],
     peers := (peers Filter_default)[0 := Peer_default\<lparr>
       peer_mac := [2, 0, 0, 0, 1, 1], bssid_count := 1,
       peer_bssids := (peer_bssids Peer_default)[0 := [2, 0, 0, 0, 1, 2]]\<rparr>]\<rparr>"

definition test_frame :: "u8 \<Rightarrow> bool \<Rightarrow> bytes \<Rightarrow> bytes" where
  "test_frame k broadcast auth =
     target_mac test_filter @ peer_mac (peers test_filter ! 0) @ [0x81, 0, 0, 1] @
     u16_to_be_bytes ETH_P_RRB @ RRB_SELECTOR @ [k] @
     peer_bssids (peers test_filter ! 0) ! 0 @
     (if broadcast then replicate 6 255 else local_bssid (locals test_filter ! 0)) @
     u16_to_le_bytes (word_of_nat (length auth)) @ auth @ replicate SIV_LEN 0"

definition test_tlv :: "u16 \<Rightarrow> bytes \<Rightarrow> bytes" where
  "test_tlv tag v = u16_to_le_bytes tag @ u16_to_le_bytes (word_of_nat (length v)) @ v"

definition local_bytes :: bytes where
  "local_bytes = [0x6c, 0x6f, 0x63, 0x61, 0x6c]"

definition nonce_bytes :: bytes where
  "nonce_bytes = [0x6e, 0x6f, 0x6e, 0x63, 0x65]"

text \<open>The message the unicast test frame carries.\<close>

definition test_msg :: "u8 \<Rightarrow> rrb_msg" where
  "test_msg k = \<lparr>m_dst = [2, 0, 0, 0, 0, 1], m_src = [2, 0, 0, 0, 1, 1], m_kind = k,
     m_src_bss = [2, 0, 0, 0, 1, 2], m_dst_bss = [2, 0, 0, 0, 0, 2],
     m_tlvs = [(1, nonce_bytes)], m_sealed = replicate 16 0\<rparr>"

lemma test_filter_wf: "wf_Filter test_filter" "distinct_peers test_filter"
  by code_simp+

lemma unicast_accepted:
  "classify (test_frame 5 False (test_tlv 1 nonce_bytes)) Vlan_default test_filter =
    Inr \<lparr>kind = 5, body_offset = 18\<rparr>"
  by code_simp

lemma broadcast_accepted:
  "classify (test_frame 1 True (test_tlv TLV_R0KH local_bytes)) Vlan_default test_filter =
    Inr \<lparr>kind = 1, body_offset = 18\<rparr>"
  by code_simp

section \<open>Acceptance\<close>

text \<open>
  C2. The validator implements the wire format and the configured identity, no more and no less:
  \<open>classify\<close> accepts a frame exactly when the frame is at most \<open>MAX_FRAME\<close> bytes long and is
  the encoding, under the management VLAN tag in either representation, of a well-formed RRB
  message that the identity admits; the reported kind and body offset are the message's own.
\<close>

theorem classify_accepts_exactly:
  assumes "wf_Filter f" "distinct_peers f"
  shows "classify r vlan f = Inr res \<longleftrightarrow> length r \<le> MAX_FRAME \<and>
    (\<exists>m. wf_msg m \<and> acceptable f m \<and> carries f vlan r m \<and>
       res = \<lparr>kind = m_kind m, body_offset = body_start vlan\<rparr>)"
  by (rule classify_accepts_iff [OF assms])

theorem classify_accepts_exactly_witness:
  "\<exists>m. wf_msg m \<and> acceptable test_filter m \<and>
     carries test_filter Vlan_default (test_frame 5 False (test_tlv 1 nonce_bytes)) m \<and> m_kind m = 5"
  using classify_accepts_exactly [OF test_filter_wf, THEN iffD1, OF unicast_accepted] by auto

text \<open>
  C3. Every verdict of the validator, rejections included, is the first failing check in the
  documented order: geometry, VLAN scope, Ethernet addresses, header length, selector and type,
  source BSS, destination BSS, auth length, TLV stream, broadcast scope.
\<close>

theorem classify_first_failure:
  assumes "wf_Filter f" "distinct_peers f"
  shows "classify r vlan f =
    (case reject_reason f vlan r of
       Some e \<Rightarrow> Inl e
     | None \<Rightarrow> Inr \<lparr>kind = r ! (body_start vlan + 5), body_offset = body_start vlan\<rparr>)"
  by (rule classify_reject_reason [OF assms])

theorem classify_first_failure_witness:
  "reject_reason test_filter Vlan_default (test_frame 2 True (test_tlv TLV_R0KH local_bytes)) =
    Some BroadcastScope"
proof -
  have "classify (test_frame 2 True (test_tlv TLV_R0KH local_bytes)) Vlan_default test_filter =
      Inl BroadcastScope" by code_simp
  then show ?thesis
    using classify_first_failure [OF test_filter_wf, of "test_frame 2 True (test_tlv TLV_R0KH local_bytes)"
        Vlan_default] by (simp split: option.splits)
qed

text \<open>
  C24. The TLV walk decodes: on every auth block that is the encoding of at most \<open>MAX_TLVS\<close> entries with
  different tags it consumes the block exactly and locates the value of the R0KH-ID, nothing when
  there is none; on every other block it fails with \<open>Tlv\<close> or stops short of the end.
\<close>

theorem tlv_walk_decodes:
  assumes "length r \<le> MAX_FRAME" "end_pos \<le> length r" "start \<le> end_pos"
  shows "(\<forall>ts. subslice r start end_pos = encode_tlvs ts \<and> tlvs_ok ts \<longrightarrow>
      (\<exists>w. tlv_walk r end_pos 0 (walk_init start) = Inr w \<and> pos w = end_pos \<and>
         subslice r (r0kh_position w) (r0kh_position w + r0kh_size w) = r0kh_value ts \<and>
         r0kh_size w = length (r0kh_value ts))) \<and>
    ((\<nexists>ts. subslice r start end_pos = encode_tlvs ts \<and> tlvs_ok ts) \<longrightarrow>
      (case tlv_walk r end_pos 0 (walk_init start) of Inl e \<Rightarrow> e = Tlv | Inr w \<Rightarrow> pos w \<noteq> end_pos))"
proof (intro conjI allI impI)
  fix ts assume ts: "subslice r start end_pos = encode_tlvs ts \<and> tlvs_ok ts"
  obtain w where "tlv_walk r end_pos 0 (walk_init start) = Inr w" "pos w = end_pos" "r0kh_at r w (r0kh_value ts)"
    using walk_init_complete [OF assms] ts by blast
  then show "\<exists>w. tlv_walk r end_pos 0 (walk_init start) = Inr w \<and> pos w = end_pos \<and>
         subslice r (r0kh_position w) (r0kh_position w + r0kh_size w) = r0kh_value ts \<and>
         r0kh_size w = length (r0kh_value ts)"
    by (auto simp: r0kh_at_def)
next
  assume "\<nexists>ts. subslice r start end_pos = encode_tlvs ts \<and> tlvs_ok ts"
  then show "case tlv_walk r end_pos 0 (walk_init start) of Inl e \<Rightarrow> e = Tlv | Inr w \<Rightarrow> pos w \<noteq> end_pos"
    using walk_init_sound [OF assms] tlv_walk_error by (fastforce split: sum.splits)
qed

theorem tlv_walk_decodes_witness:
  "\<exists>w. tlv_walk (test_frame 1 True (test_tlv TLV_R0KH local_bytes)) 47 0 (walk_init 38) = Inr w \<and> pos w = 47 \<and>
     subslice (test_frame 1 True (test_tlv TLV_R0KH local_bytes)) (r0kh_position w) (r0kh_position w + r0kh_size w) =
       local_bytes"
proof -
  let ?r = "test_frame 1 True (test_tlv TLV_R0KH local_bytes)" and ?ts = "[(TLV_R0KH, local_bytes)]"
  have "length ?r \<le> MAX_FRAME" "47 \<le> length ?r" "(38 :: usize) \<le> 47" by code_simp+
  note walk = tlv_walk_decodes [OF this]
  have "subslice ?r 38 47 = encode_tlvs ?ts" "tlvs_ok ?ts" "r0kh_value ?ts = local_bytes" by code_simp+
  with walk show ?thesis by metis
qed

section \<open>Scope\<close>

text \<open>The frame with the tag control information of its inline tag replaced.\<close>

definition set_tci :: "u16 \<Rightarrow> bytes \<Rightarrow> bytes" where
  "set_tci t r = take 14 r @ u16_to_be_bytes t @ drop 16 r"

lemma set_tci_slices:
  assumes "16 \<le> length r"
  shows "length (set_tci t r) = length r" "take 14 (set_tci t r) = take 14 r"
    "16 \<le> i \<Longrightarrow> subslice (set_tci t r) i j = subslice r i j"
    "set_tci t r ! 14 = u16_to_be_bytes t ! 0" "set_tci t r ! 15 = u16_to_be_bytes t ! Suc 0"
  using assms by (simp_all add: set_tci_def subslice_def nth_append)

text \<open>
  C18. Only the VLAN identifier of the tag matters: whatever the priority and drop-eligible bits are, in
  metadata or inline, the verdict on any frame is the same, acceptance and every reason of rejection
  alike.
\<close>

theorem priority_bits_ignored:
  assumes "wf_Filter f" "distinct_peers f" "t AND TCI_VID_MASK = t' AND TCI_VID_MASK"
  shows "classify r (v\<lparr>tci := t\<rparr>) f = classify r (v\<lparr>tci := t'\<rparr>) f \<and>
    (16 \<le> length r \<and> \<not> present v \<longrightarrow> classify (set_tci t r) v f = classify (set_tci t' r) v f)"
proof (intro conjI impI)
  show "classify r (v\<lparr>tci := t\<rparr>) f = classify r (v\<lparr>tci := t'\<rparr>) f"
    using assms(3) by (simp add: classify_def Let_def split: option.split)
  assume r: "16 \<le> length r \<and> \<not> present v"
  let ?a = "set_tci t r" and ?b = "set_tci t' r"
  note s = set_tci_slices [where r = r and t = t] set_tci_slices [where r = r and t = t']
  have p: "subslice ?a i j = subslice ?b i j" if "j \<le> 14 \<or> 16 \<le> i" for i j
    using that s r subslice_prefix [of 14 ?a ?b j i] by auto
  have "u16_from_be_bytes (u16_to_be_bytes x ! 0) (u16_to_be_bytes x ! Suc 0) = x" for x by simp
  then have "tag_ok f v ?a = tag_ok f v ?b"
    using p [of 14 12] p [of 18 16] s r assms(3) by (simp add: tag_ok_def)
  moreover have "take 6 ?a = take 6 ?b" using p [of 6 0] by (simp add: subslice_def)
  ultimately have "same_view f v ?a v ?b"
    using p [of 12 6] p [of 38 18] p [where i = 38] s r by (simp add: same_view_def Let_def body_start_def)
  from classify_same_view [OF assms(1,2) this] show "classify ?a v f = classify ?b v f"
    by (auto simp: classify_reject_reason [OF assms(1,2)] split: option.splits)
qed

theorem priority_bits_ignored_witness:
  "classify (set_tci 0xe001 (encode_inline 1 (test_msg 5))) Vlan_default test_filter = Inr \<lparr>kind = 5, body_offset = 18\<rparr>"
proof -
  let ?r = "encode_inline 1 (test_msg 5)"
  have same: "(1 :: u16) AND TCI_VID_MASK = 0xe001 AND TCI_VID_MASK" by code_simp
  have "16 \<le> length ?r" "\<not> present Vlan_default" "set_tci 1 ?r = ?r" by code_simp+
  moreover have "classify ?r Vlan_default test_filter = Inr \<lparr>kind = 5, body_offset = 18\<rparr>" by code_simp
  ultimately show ?thesis using priority_bits_ignored [OF test_filter_wf same, of ?r Vlan_default] by simp
qed

section \<open>What the verdict does not depend on\<close>

text \<open>Where the auth block of a frame ends, by its header.\<close>

definition auth_end :: "Vlan \<Rightarrow> bytes \<Rightarrow> nat" where
  "auth_end vlan r = body_start vlan + RRB_HEADER_LEN +
     auth_len (subslice r (body_start vlan) (body_start vlan + RRB_HEADER_LEN))"

text \<open>
  C26. The encrypted payload is opaque: of two frames that agree up to the end of the auth block, and
  both leave room for a SIV tag behind it, the validator says the same, acceptance and every reason of
  rejection alike, whatever their payloads and their lengths within a frame.
\<close>

theorem sealed_payload_opaque:
  assumes "wf_Filter f" "distinct_peers f" "length r \<le> MAX_FRAME" "length r' \<le> MAX_FRAME"
    and "auth_end vlan r + SIV_LEN \<le> length r" "auth_end vlan r + SIV_LEN \<le> length r'"
    and "take (auth_end vlan r) r' = take (auth_end vlan r) r"
  shows "classify r' vlan f = classify r vlan f"
proof -
  let ?b = "body_start vlan" and ?n = "auth_end vlan r"
  have b: "14 \<le> ?b" "?b \<le> 18" "present vlan \<longleftrightarrow> ?b = 14" by (simp_all add: body_start_def)
  have n: "?n = ?b + 20 + auth_len (subslice r ?b (?b + 20))" by (simp add: auth_end_def RRB_HEADER_LEN_def)
  have len: "?n + 16 \<le> length r" "?n + 16 \<le> length r'" "length r \<le> 2048" "length r' \<le> 2048"
    using assms(3-6) by (simp_all add: SIV_LEN_def MAX_FRAME_def)
  note sub = subslice_prefix [OF assms(7)]
  have t: "tag_ok f vlan r' = tag_ok f vlan r"
    using sub [of 14 12] sub [of 18 16] nth_prefix [OF assms(7), of 14] nth_prefix [OF assms(7), of 15] n b len
    by (simp add: tag_ok_def)
  have "take 6 r' = take 6 r" using sub [of 6 0] n b by (simp add: subslice_def)
  then have "same_view f vlan r' vlan r"
    using sub [of 12 6] sub [of "?b + 20" ?b] sub [of ?n "?b + 20"] n b len t
    by (simp add: same_view_def Let_def)
  from classify_same_view [OF assms(1,2) this] show ?thesis
    by (auto simp: classify_reject_reason [OF assms(1,2)] split: option.splits)
qed

theorem sealed_payload_opaque_witness:
  "classify (encode_inline 1 (test_msg 5\<lparr>m_sealed := replicate 26 0xaa\<rparr>)) Vlan_default test_filter =
     Inr \<lparr>kind = 5, body_offset = 18\<rparr> \<and>
   classify (take 42 (test_frame 4 False [1, 0, 255, 255]) @ replicate 26 0xaa) Vlan_default test_filter = Inl Tlv"
proof
  let ?r = "encode_inline 1 (test_msg 5)" and ?r' = "encode_inline 1 (test_msg 5\<lparr>m_sealed := replicate 26 0xaa\<rparr>)"
  have "length ?r \<le> MAX_FRAME" "length ?r' \<le> MAX_FRAME" "auth_end Vlan_default ?r + SIV_LEN \<le> length ?r"
    "auth_end Vlan_default ?r + SIV_LEN \<le> length ?r'"
    "take (auth_end Vlan_default ?r) ?r' = take (auth_end Vlan_default ?r) ?r" by code_simp+
  note same = sealed_payload_opaque [OF test_filter_wf this]
  have "classify ?r Vlan_default test_filter = Inr \<lparr>kind = 5, body_offset = 18\<rparr>" by code_simp
  with same show "classify ?r' Vlan_default test_filter = Inr \<lparr>kind = 5, body_offset = 18\<rparr>" by simp
next
  let ?r = "test_frame 4 False [1, 0, 255, 255]" and ?r' = "take 42 (test_frame 4 False [1, 0, 255, 255]) @ replicate 26 0xaa"
  have "length ?r \<le> MAX_FRAME" "length ?r' \<le> MAX_FRAME" "auth_end Vlan_default ?r + SIV_LEN \<le> length ?r"
    "auth_end Vlan_default ?r + SIV_LEN \<le> length ?r'"
    "take (auth_end Vlan_default ?r) ?r' = take (auth_end Vlan_default ?r) ?r" by code_simp+
  note same = sealed_payload_opaque [OF test_filter_wf this]
  have "classify ?r Vlan_default test_filter = Inl Tlv" by code_simp
  with same show "classify ?r' Vlan_default test_filter = Inl Tlv" by simp
qed

lemma truncated_rejected:
  assumes "wf_Filter f" "distinct_peers f" "wf_msg m" "length (m_sealed m) = SIV_LEN"
    and "n < length (frame_of vlan t m)"
  shows "isl (classify (take n (frame_of vlan t m)) vlan f)"
proof (rule ccontr)
  assume "\<not> isl (classify (take n (frame_of vlan t m)) vlan f)"
  then obtain res where "classify (take n (frame_of vlan t m)) vlan f = Inr res"
    by (cases "classify (take n (frame_of vlan t m)) vlan f") auto
  then obtain m' where "wf_msg m'" "carried_at (body_start vlan) (take n (frame_of vlan t m)) m'"
    by (auto simp: classify_accepts_iff [OF assms(1,2)] carries_iff)
  with truncated_not_carried [OF assms(3-5) frame_of_carried [OF assms(3)]] show False by blast
qed

text \<open>
  C25. A frame that ends with its SIV tag cannot be shortened: every proper prefix is rejected.
\<close>

theorem truncation_rejected:
  assumes "wf_Filter f" "distinct_peers f" "wf_msg m" "length (m_sealed m) = SIV_LEN"
    and "n < length (frame_of vlan t m)"
  shows "classify (take n (frame_of vlan t m)) vlan f \<noteq> Inr res"
  using truncated_rejected [OF assms] by auto

theorem truncation_rejected_witness:
  "classify (take 62 (encode_inline 1 (test_msg 5))) Vlan_default test_filter \<noteq>
    Inr \<lparr>kind = 5, body_offset = 18\<rparr>"
proof -
  have "wf_msg (test_msg 5)" "length (m_sealed (test_msg 5)) = SIV_LEN"
    "62 < length (frame_of Vlan_default 1 (test_msg 5))" by code_simp+
  from truncation_rejected [OF test_filter_wf this] show ?thesis
    by (simp add: frame_of_def Vlan_default_def)
qed

text \<open>
  C28. The broadcast restriction is keyed on the destination BSS of the RRB header alone: any
  accepted frame, of any message type, stays accepted when its Ethernet destination is replaced
  by the broadcast address.
\<close>

theorem ethernet_broadcast_unrestricted:
  assumes "wf_Filter f" "distinct_peers f" "classify r vlan f = Inr res"
  shows "classify (BROADCAST @ drop 6 r) vlan f = Inr res"
proof -
  obtain m t where m: "wf_msg m" "acceptable f m" "r = frame_of vlan t m" "scope_ok f vlan t"
    "length r \<le> MAX_FRAME" "res = \<lparr>kind = m_kind m, body_offset = body_start vlan\<rparr>"
    using classify_acceptedE [OF assms] .
  let ?m = "m\<lparr>m_dst := BROADCAST\<rparr>"
  have "BROADCAST @ drop 6 r = frame_of vlan t ?m"
    using m(1) by (simp add: m(3) wf_msg_def frame_of_def encode_inline_def encode_untagged_def
        encode_body_def encode_header_def)
  moreover have "wf_msg ?m" using m(1) by (simp add: wf_msg_def BROADCAST_def)
  moreover have "acceptable f ?m" using m(2) by (simp add: acceptable_def header_ok_def)
  moreover have "length (frame_of vlan t ?m) = length r"
    using m(1) by (simp add: m(3) length_frame_of wf_msg_def BROADCAST_def encode_header_def)
  ultimately show ?thesis using m by (simp add: classify_frame_of [OF assms(1,2)])
qed

theorem ethernet_broadcast_unrestricted_witness:
  "classify (BROADCAST @ drop 6 (test_frame KIND_PUSH False (test_tlv 1 nonce_bytes))) Vlan_default test_filter =
    Inr \<lparr>kind = KIND_PUSH, body_offset = 18\<rparr>"
proof -
  have "classify (test_frame KIND_PUSH False (test_tlv 1 nonce_bytes)) Vlan_default test_filter =
      Inr \<lparr>kind = KIND_PUSH, body_offset = 18\<rparr>" by code_simp
  from ethernet_broadcast_unrestricted [OF test_filter_wf this] show ?thesis .
qed

end
