(* ===== verification/Text.thy ===== *)
theory Text
  imports Proto
begin

text \<open>
  The string operations the configuration and the hostapd client use, and the MAC address parser
  \<open>mac\<close> of \<open>src/src/config.rs\<close> they share.

  A Rust \<open>str\<close> is its UTF-8 byte string: a HOL \<open>string\<close>, whose characters are bytes, so
  \<open>len\<close> is \<open>length\<close>. \<open>split\<close>, \<open>split_once\<close>, \<open>lines\<close> look for ASCII characters, which occur in UTF-8 only as
  themselves; \<open>trim\<close> removes the UTF-8 encodings of all Unicode white space. Errors carry their
  cause; the context strings \<open>anyhow\<close> wraps around them are left out.
\<close>

datatype Error =
    Io string
  | NotUtf8
  | InvalidMac
  | MissingBssid
  | NoSockets
  | NoSources
  | ApCount
  | TooManyPeers
  | InvalidName string
  | DuplicateName string
  | InvalidVlan
  | InvalidPps
  | InvalidR0kh
  | BroadcastBssid
  | DuplicateBssid
  | BroadcastPeer
  | DuplicatePeer
  | NoPeerBssids
  | TooManyBssids
  | BroadcastPeerBssid
  | DuplicatePeerBssid
  | ParseError
  | CommandFailed "string list"
  | Panic

section \<open>Splitting\<close>

fun split_on :: "char \<Rightarrow> string \<Rightarrow> string list" where
  "split_on c [] = [[]]"
| "split_on c (x # xs) =
     (if x = c then [] # split_on c xs
      else case split_on c xs of [] \<Rightarrow> [[x]] | p # ps \<Rightarrow> (x # p) # ps)"

fun split_once :: "char \<Rightarrow> string \<Rightarrow> (string \<times> string) option" where
  "split_once c [] = None"
| "split_once c (x # xs) =
     (if x = c then Some ([], xs)
      else case split_once c xs of None \<Rightarrow> None | Some (a, b) \<Rightarrow> Some (x # a, b))"

fun split_inclusive :: "char \<Rightarrow> string \<Rightarrow> string list" where
  "split_inclusive c [] = []"
| "split_inclusive c (x # xs) =
     (if x = c then [x] # split_inclusive c xs
      else case split_inclusive c xs of [] \<Rightarrow> [[x]] | p # ps \<Rightarrow> (x # p) # ps)"

definition strip_last :: "char \<Rightarrow> string \<Rightarrow> string option" where
  "strip_last c s = (if s \<noteq> [] \<and> last s = c then Some (butlast s) else None)"

text \<open>\<open>str::lines\<close>: a line loses its newline, and then a carriage return before it.\<close>

definition newline :: char where "newline = CHR 0x0A"
definition carriage_return :: char where "carriage_return = CHR 0x0D"

definition line_text :: "string \<Rightarrow> string" where
  "line_text l =
     (case strip_last newline l of
        None \<Rightarrow> l
      | Some l1 \<Rightarrow> (case strip_last carriage_return l1 of None \<Rightarrow> l1 | Some l2 \<Rightarrow> l2))"

definition str_lines :: "string \<Rightarrow> string list" where
  "str_lines s = map line_text (split_inclusive newline s)"

section \<open>White space\<close>

text \<open>The UTF-8 encodings of the code points with the property \<open>White_Space\<close>.\<close>

definition white_space :: "string list" where
  "white_space =
     [[CHR 0x09], [CHR 0x0A], [CHR 0x0B], [CHR 0x0C], [CHR 0x0D], [CHR 0x20],
      [CHR 0xC2, CHR 0x85], [CHR 0xC2, CHR 0xA0], [CHR 0xE1, CHR 0x9A, CHR 0x80]] @
     map (\<lambda>b. [CHR 0xE2, CHR 0x80, char_of b]) ([0x80..<0x8B] @ [0xA8, 0xA9, 0xAF :: nat]) @
     [[CHR 0xE2, CHR 0x81, CHR 0x9F], [CHR 0xE3, CHR 0x80, CHR 0x80]]"

fun strip_prefix :: "string \<Rightarrow> string \<Rightarrow> string option" where
  "strip_prefix [] s = Some s"
| "strip_prefix (p # ps) [] = None"
| "strip_prefix (p # ps) (x # xs) = (if p = x then strip_prefix ps xs else None)"

lemma strip_prefix_length: "strip_prefix p s = Some t \<Longrightarrow> length s = length p + length t"
  by (induction p s rule: strip_prefix.induct) (auto split: if_splits)

lemma strip_prefix_Some_iff: "strip_prefix p s = Some t \<longleftrightarrow> s = p @ t"
  by (induction p s rule: strip_prefix.induct) auto

definition strip_any :: "string list \<Rightarrow> string \<Rightarrow> string option" where
  "strip_any ps s = (case List.map_filter (\<lambda>p. strip_prefix p s) ps of [] \<Rightarrow> None | t # _ \<Rightarrow> Some t)"

text \<open>Remove leading members of \<open>ps\<close>, all of them non-empty, as long as there is one.\<close>

fun trim_start_with :: "nat \<Rightarrow> string list \<Rightarrow> string \<Rightarrow> string" where
  "trim_start_with 0 ps s = s"
| "trim_start_with (Suc n) ps s =
     (case strip_any ps s of None \<Rightarrow> s | Some t \<Rightarrow> trim_start_with n ps t)"

definition trim :: "string \<Rightarrow> string" where
  "trim s =
     (let t = trim_start_with (length s) white_space s
      in rev (trim_start_with (length t) (map rev white_space) (rev t)))"

section \<open>UTF-8\<close>

definition cont_byte :: "u8 \<Rightarrow> bool" where
  "cont_byte b \<longleftrightarrow> 0x80 \<le> b \<and> b \<le> 0xBF"

text \<open>\<open>std::str::from_utf8\<close>: the well-formed byte sequences of the Unicode standard.\<close>

fun utf8_valid :: "bytes \<Rightarrow> bool" where
  "utf8_valid [] = True"
| "utf8_valid (a # xs) =
     (if a < 0x80 then utf8_valid xs
      else case xs of
          [] \<Rightarrow> False
        | b # ys \<Rightarrow>
            if 0xC2 \<le> a \<and> a \<le> 0xDF then cont_byte b \<and> utf8_valid ys
            else case ys of
                [] \<Rightarrow> False
              | c # zs \<Rightarrow>
                  if a = 0xE0 then 0xA0 \<le> b \<and> b \<le> 0xBF \<and> cont_byte c \<and> utf8_valid zs
                  else if a = 0xED then 0x80 \<le> b \<and> b \<le> 0x9F \<and> cont_byte c \<and> utf8_valid zs
                  else if 0xE1 \<le> a \<and> a \<le> 0xEF then cont_byte b \<and> cont_byte c \<and> utf8_valid zs
                  else case zs of
                      [] \<Rightarrow> False
                    | d # ws \<Rightarrow>
                        if a = 0xF0 then 0x90 \<le> b \<and> b \<le> 0xBF \<and> cont_byte c \<and> cont_byte d \<and> utf8_valid ws
                        else if a = 0xF4 then 0x80 \<le> b \<and> b \<le> 0x8F \<and> cont_byte c \<and> cont_byte d \<and> utf8_valid ws
                        else if 0xF1 \<le> a \<and> a \<le> 0xF3 then cont_byte b \<and> cont_byte c \<and> cont_byte d \<and> utf8_valid ws
                        else False)"

definition byte_of_char :: "char \<Rightarrow> u8" where
  "byte_of_char c = word_of_nat (of_char c)"

definition char_of_byte :: "u8 \<Rightarrow> char" where
  "char_of_byte b = char_of (unat b)"

definition as_bytes :: "string \<Rightarrow> bytes" where
  "as_bytes s = map byte_of_char s"

definition from_utf8 :: "bytes \<Rightarrow> string option" where
  "from_utf8 bs = (if utf8_valid bs then Some (map char_of_byte bs) else None)"

section \<open>MAC addresses\<close>

definition char_digit :: "char \<Rightarrow> nat option" where
  "char_digit c =
     (let n = (of_char c :: nat)
      in if 48 \<le> n \<and> n \<le> 57 then Some (n - 48)
         else if 97 \<le> n \<and> n \<le> 102 then Some (n - 87)
         else if 65 \<le> n \<and> n \<le> 70 then Some (n - 55)
         else None)"

text \<open>
  \<open>u8::from_str_radix(s, 16)\<close>: an optional plus sign, then at least one digit, with the value in
  range. A minus sign is a digit error for an unsigned type.
\<close>

fun radix16 :: "nat \<Rightarrow> string \<Rightarrow> u8 option" where
  "radix16 acc [] = Some (word_of_nat acc)"
| "radix16 acc (c # cs) =
     (case char_digit c of
        None \<Rightarrow> None
      | Some d \<Rightarrow> if 255 < 16 * acc + d then None else radix16 (16 * acc + d) cs)"

definition from_str_radix16 :: "string \<Rightarrow> u8 option" where
  "from_str_radix16 s =
     (case s of
        [] \<Rightarrow> None
      | c # cs \<Rightarrow>
          if c = CHR ''+'' then if cs = [] then None else radix16 0 cs
          else radix16 0 s)"

fun mac_octets :: "string list \<Rightarrow> Error + bytes" where
  "mac_octets [] = Inr []"
| "mac_octets (p # ps) =
     (if length p \<noteq> 2 then Inl InvalidMac
      else case from_str_radix16 p of
          None \<Rightarrow> Inl InvalidMac
        | Some b \<Rightarrow> (case mac_octets ps of Inl e \<Rightarrow> Inl e | Inr bs \<Rightarrow> Inr (b # bs)))"

definition mac :: "string \<Rightarrow> Error + mac_addr" where
  "mac s =
     (let parts = split_on (CHR '':'') s
      in if length parts \<noteq> 6 then Inl InvalidMac else mac_octets parts)"

text \<open>The decimal form \<open>to_string\<close> and \<open>format!\<close> give an unsigned integer.\<close>

fun to_decimal :: "nat \<Rightarrow> string" where
  "to_decimal n = (if n < 10 then [] else to_decimal (n div 10)) @ [char_of (48 + n mod 10)]"

declare to_decimal.simps [simp del]

fun decimal_value :: "string \<Rightarrow> nat" where
  "decimal_value s = foldl (\<lambda>v c. 10 * v + (of_char c - 48)) 0 s"

lemma decimal_value_to_decimal: "decimal_value (to_decimal n) = n"
proof (induction n rule: to_decimal.induct)
  case (1 n)
  have d: "(of_char (char_of (48 + n mod 10)) :: nat) = 48 + n mod 10"
    by (simp add: of_char_mod_256)
  show ?case
  proof (cases "n < 10")
    case True
    with d show ?thesis by (simp add: to_decimal.simps [of n])
  next
    case False
    with 1 d show ?thesis by (subst to_decimal.simps) simp
  qed
qed

lemma to_decimal_inject [simp]: "to_decimal a = to_decimal b \<longleftrightarrow> a = b"
  by (metis decimal_value_to_decimal)

lemma to_decimal_digits: "c \<in> set (to_decimal n) \<Longrightarrow> 48 \<le> (of_char c :: nat)"
proof (induction n rule: to_decimal.induct)
  case (1 n)
  have "n mod 10 < 10" by simp
  with 1 show ?case by (subst (asm) to_decimal.simps) (auto split: if_splits)
qed

lemma to_decimal_no_space: "CHR '' '' \<notin> set (to_decimal n)"
  using to_decimal_digits [of "CHR '' ''" n] by auto

definition hex_digit :: "nat \<Rightarrow> char" where
  "hex_digit n = ''0123456789abcdef'' ! n"

text \<open>\<open>format!("{:02x}", b)\<close>: two lowercase hex digits.\<close>

definition hex2 :: "u8 \<Rightarrow> string" where
  "hex2 b = [hex_digit (unat b div 16), hex_digit (unat b mod 16)]"

section \<open>Splitting and joining\<close>

fun join :: "char \<Rightarrow> string list \<Rightarrow> string" where
  "join c [] = []"
| "join c [p] = p"
| "join c (p # ps) = p @ c # join c ps"

lemma split_on_nonempty [simp]: "split_on c s \<noteq> []"
  by (cases s) (auto split: list.splits)

lemma join_split_on: "join c (split_on c s) = s"
proof (induction s)
  case Nil
  then show ?case by simp
next
  case (Cons x xs)
  obtain p ps where ps: "split_on c xs = p # ps" by (metis list.exhaust split_on_nonempty)
  then show ?case using Cons by (cases ps) auto
qed

lemma split_on_free: "p \<in> set (split_on c s) \<Longrightarrow> c \<notin> set p"
proof (induction s arbitrary: p)
  case Nil
  then show ?case by simp
next
  case (Cons x xs)
  obtain q qs where "split_on c xs = q # qs" by (metis list.exhaust split_on_nonempty)
  with Cons show ?case by (auto split: if_splits)
qed

lemma split_on_plain: "c \<notin> set p \<Longrightarrow> split_on c p = [p]"
  by (induction p) auto

lemma split_on_append: "c \<notin> set p \<Longrightarrow> split_on c (p @ c # s) = p # split_on c s"
  by (induction p) auto

lemma split_on_join: "ps \<noteq> [] \<Longrightarrow> list_all (\<lambda>p. c \<notin> set p) ps \<Longrightarrow> split_on c (join c ps) = ps"
  by (induction c ps rule: join.induct) (auto simp: split_on_plain split_on_append)

lemma split_once_None: "split_once c s = None \<longleftrightarrow> c \<notin> set s"
  by (induction s) (auto split: option.splits)

lemma split_once_append: "c \<notin> set a \<Longrightarrow> split_once c (a @ c # b) = Some (a, b)"
  by (induction a) auto

lemma split_inclusive_append:
  "c \<notin> set l \<Longrightarrow> split_inclusive c (l @ c # s) = (l @ [c]) # split_inclusive c s"
  by (induction l) auto

section \<open>Octets\<close>

text \<open>The two-character strings the octet parser takes, and their values.\<close>

definition octet :: "string \<Rightarrow> u8 \<Rightarrow> bool" where
  "octet p b \<longleftrightarrow> (\<exists>x y lo. p = [x, y] \<and> char_digit y = Some lo \<and>
     ((\<exists>hi. char_digit x = Some hi \<and> b = word_of_nat (16 * hi + lo)) \<or>
      (x = CHR ''+'' \<and> b = word_of_nat lo)))"

lemma char_digit_bound: "char_digit c = Some d \<Longrightarrow> d < 16"
  by (auto simp: char_digit_def Let_def split: if_splits)

lemma char_digit_plus [simp]: "char_digit (CHR ''+'') = None"
  by (simp add: char_digit_def)

lemma from_str_radix16_two:
  assumes "length p = 2"
  shows "from_str_radix16 p = Some b \<longleftrightarrow> octet p b"
proof -
  obtain x y where p: "p = [x, y]" using assms by (auto simp: length_Suc_conv numeral_2_eq_2)
  have "\<not> 255 < 16 * hi + lo" if "char_digit x = Some hi" "char_digit y = Some lo" for hi lo
    using that [THEN char_digit_bound] by simp
  moreover have "\<not> 255 < d" if "char_digit z = Some d" for z d
    using char_digit_bound [OF that] by simp
  ultimately show ?thesis
    by (auto simp: p from_str_radix16_def octet_def split: option.splits)
qed

lemma octet_length: "octet p b \<Longrightarrow> length p = 2"
  by (auto simp: octet_def)

lemma mac_octets_iff: "mac_octets ps = Inr bs \<longleftrightarrow> list_all2 octet ps bs"
proof (induction ps arbitrary: bs)
  case Nil
  then show ?case by auto
next
  case (Cons p ps)
  have "mac_octets (p # ps) = Inr bs \<longleftrightarrow> (\<exists>b bs'. bs = b # bs' \<and> length p = 2 \<and>
      from_str_radix16 p = Some b \<and> mac_octets ps = Inr bs')"
    by (auto split: option.splits sum.splits)
  also have "\<dots> \<longleftrightarrow> (\<exists>b bs'. bs = b # bs' \<and> octet p b \<and> list_all2 octet ps bs')"
    using from_str_radix16_two octet_length by (auto simp: Cons.IH)
  finally show ?case by (auto simp: list_all2_Cons1)
qed

lemma mac_iff:
  "mac s = Inr bs \<longleftrightarrow> (\<exists>ps. length ps = 6 \<and> s = join (CHR '':'') ps \<and> list_all2 octet ps bs)"
proof
  assume "mac s = Inr bs"
  then show "\<exists>ps. length ps = 6 \<and> s = join (CHR '':'') ps \<and> list_all2 octet ps bs"
    by (intro exI [of _ "split_on (CHR '':'') s"])
      (auto simp: mac_def Let_def mac_octets_iff join_split_on split: if_splits)
next
  assume "\<exists>ps. length ps = 6 \<and> s = join (CHR '':'') ps \<and> list_all2 octet ps bs"
  then obtain ps where ps: "length ps = 6" "s = join (CHR '':'') ps" "list_all2 octet ps bs" by blast
  have "char_digit (CHR '':'') = None" by (simp add: char_digit_def)
  then have free: "octet p b \<Longrightarrow> CHR '':'' \<notin> set p" for p b by (auto simp: octet_def)
  from ps(3) have "list_all (\<lambda>p. CHR '':'' \<notin> set p) ps"
    by (induction rule: list_all2_induct) (simp_all add: free)
  then have "split_on (CHR '':'') s = ps" unfolding ps(2) using ps(1) by (intro split_on_join) auto
  with ps(1,3) show "mac s = Inr bs" by (simp add: mac_def mac_octets_iff)
qed

lemma mac_length: "mac s = Inr bs \<Longrightarrow> length bs = 6"
  by (auto simp: mac_iff dest: list_all2_lengthD)

lemma mac_error: "mac s = Inl e \<Longrightarrow> e = InvalidMac"
proof -
  have "mac_octets ps = Inl e \<Longrightarrow> e = InvalidMac" for ps
    by (induction ps) (auto split: if_splits option.splits sum.splits)
  then show "mac s = Inl e \<Longrightarrow> e = InvalidMac" by (auto simp: mac_def Let_def split: if_splits)
qed

end
