(* ===== verification/Relay.thy ===== *)
theory Relay
  imports Validation Text
begin

text \<open>
  The pure relay logic of \<open>src/src/relay.rs\<close>: removing the management tag, the counter and the log
  name of a message type, MAC formatting, and the fixed-window rate limiter.

  \<open>untag\<close> indexes the frame with ranges that panic when out of bounds, so its model returns
  \<open>None\<close> for a panic. The limiter is stated behind the interface \<open>rate_limiter\<close> the injection task
  relies on, and the budget of every window is proved there once.
\<close>

section \<open>Untagging\<close>

text \<open>
  \<open>Vec::with_capacity(frame.len() - VLAN_TAG_LEN)\<close> wraps to a huge capacity, and panics, on frames
  shorter than four bytes; \<open>&frame[..12]\<close> and \<open>&frame[16..]\<close> panic on frames shorter than the
  bound. All three panics are the case \<open>length < 16\<close>.
\<close>

definition untag :: "bytes \<Rightarrow> Vlan \<Rightarrow> bytes option" where
  "untag frame vlan =
     (if present vlan then Some frame
      else if length frame < VLAN_TAG_LEN \<or> length frame < ETH_TYPE_OFFSET \<or>
              length frame < ETH_TYPE_OFFSET + VLAN_TAG_LEN
      then None
      else Some (subslice frame 0 ETH_TYPE_OFFSET @
             subslice frame (ETH_TYPE_OFFSET + VLAN_TAG_LEN) (length frame)))"

section \<open>Message types\<close>

definition kind_counter :: "u8 \<Rightarrow> Counter" where
  "kind_counter k =
     (if k = KIND_PULL then Pull
      else if k = KIND_RESPONSE then Response
      else if k = KIND_PUSH then Push
      else if k = KIND_SEQ_REQUEST then SeqRequest
      else SeqResponse)"

definition kind_name :: "u8 \<Rightarrow> string" where
  "kind_name k =
     (if k = KIND_PULL then ''pull''
      else if k = KIND_RESPONSE then ''response''
      else if k = KIND_PUSH then ''push''
      else if k = KIND_SEQ_REQUEST then ''seq_request''
      else if k = KIND_SEQ_RESPONSE then ''seq_response''
      else ''unknown'')"

section \<open>MAC formatting\<close>

definition mac_string :: "mac_addr \<Rightarrow> string" where
  "mac_string m = hex2 (m ! 0) @ '':'' @ hex2 (m ! 1) @ '':'' @ hex2 (m ! 2) @ '':'' @
     hex2 (m ! 3) @ '':'' @ hex2 (m ! 4) @ '':'' @ hex2 (m ! 5)"

section \<open>The rate limiter\<close>

record Limiter =
  window :: u64
  used :: u64
  per_second :: u32

definition Limiter_new :: "u32 \<Rightarrow> Limiter" where
  "Limiter_new pps = \<lparr>window = - 1, used = 0, per_second = pps\<rparr>"

definition admit :: "Limiter \<Rightarrow> u64 \<Rightarrow> (Counter + unit) \<times> Limiter" where
  "admit l now_secs =
     (let l = (if window l \<noteq> now_secs then l\<lparr>window := now_secs, used := 0\<rparr> else l)
      in if ucast (per_second l) \<le> used l then (Inl RateLimited, l)
         else (Inr (), l\<lparr>used := used l + 1\<rparr>))"

text \<open>The answers of a limiter over a sequence of clock readings.\<close>

fun admits :: "('l \<Rightarrow> 't \<Rightarrow> ('e + unit) \<times> 'l) \<Rightarrow> 'l \<Rightarrow> 't list \<Rightarrow> ('e + unit) list" where
  "admits adm l [] = []"
| "admits adm l (t # ts) = (case adm l t of (res, l') \<Rightarrow> res # admits adm l' ts)"

text \<open>How many of the requests made at time \<open>t\<close> were granted, and how many were made.\<close>

definition granted :: "('e + unit) list \<Rightarrow> 't list \<Rightarrow> 't \<Rightarrow> nat" where
  "granted answers ts t = length (filter (\<lambda>(a, t'). t' = t \<and> a = Inr ()) (zip answers ts))"

section \<open>The limiter interface\<close>

text \<open>
  What a client of a fixed-window limiter relies on: \<open>spent l t\<close> is how much of the budget of
  window \<open>t\<close> the state \<open>l\<close> records as gone. A request is granted exactly while some is left, a
  granted request spends one, and every other window is forgotten.
\<close>

locale rate_limiter =
  fixes fresh :: "'l"
    and adm :: "'l \<Rightarrow> 't::linorder \<Rightarrow> ('e + unit) \<times> 'l"
    and spent :: "'l \<Rightarrow> 't \<Rightarrow> nat"
    and ok :: "'l \<Rightarrow> bool"
    and budget :: nat
  assumes fresh_ok: "ok fresh"
    and fresh_spent: "spent fresh t = 0"
    and adm_ok: "ok l \<Longrightarrow> ok (snd (adm l t))"
    and adm_grant: "ok l \<Longrightarrow> fst (adm l t) = Inr () \<longleftrightarrow> spent l t < budget"
    and adm_spent: "ok l \<Longrightarrow> spent (snd (adm l t)) t =
      (if spent l t < budget then Suc (spent l t) else spent l t)"
    and adm_other: "ok l \<Longrightarrow> t' \<noteq> t \<Longrightarrow> spent (snd (adm l t)) t' = 0"
begin

lemma granted_Cons:
  "granted (a # as) (t' # ts) t = (if t' = t \<and> a = Inr () then 1 else 0) + granted as ts t"
  by (simp add: granted_def)

text \<open>
  On a clock that never runs backwards every window grants its first \<open>budget\<close> requests, less what
  was spent before the run, and refuses the rest.
\<close>

lemma granted_run:
  assumes "ok l" "sorted ts" "\<And>t. t \<in> set ts \<Longrightarrow> spent l t = 0 \<or> t = hd ts" "t \<in> set ts"
  shows "granted (admits adm l ts) ts t = min (count_list ts t) (budget - spent l t)"
  using assms
proof (induction ts arbitrary: l)
  case Nil
  then show ?case by simp
next
  case (Cons t1 ts)
  obtain res l' where a: "adm l t1 = (res, l')" by fastforce
  have l': "ok l'" "res = Inr () \<longleftrightarrow> spent l t1 < budget"
    "spent l' t1 = (if spent l t1 < budget then Suc (spent l t1) else spent l t1)"
    using adm_ok adm_grant adm_spent Cons.prems(1) a by (metis fst_conv snd_conv)+
  have other: "spent l' t' = 0" if "t' \<noteq> t1" for t'
    using adm_other [OF Cons.prems(1) that] a by simp
  have pre: "spent l' t' = 0 \<or> t' = hd ts" if "t' \<in> set ts" for t'
    using that other Cons.prems(2) by (cases ts) (auto intro: order_antisym)
  show ?case
  proof (cases "t \<in> set ts")
    case True
    have "sorted ts" using Cons.prems(2) by simp
    from Cons.IH [OF l'(1) this pre True] show ?thesis
      using a l'(2,3) other Cons.prems(3) [of t] True by (cases "t = t1") (auto simp: granted_Cons)
  next
    case False
    then have "t = t1" "count_list ts t = 0" "granted (admits adm l' ts) ts t = 0"
      using Cons.prems(4) by (auto simp: granted_def dest: set_zip_rightD intro!: filter_False)
    then show ?thesis using a l'(2) by (simp add: granted_Cons)
  qed
qed

lemma granted_fresh:
  "sorted ts \<Longrightarrow> granted (admits adm fresh ts) ts t = min (count_list ts t) budget"
proof (cases "t \<in> set ts")
  case True
  then show "sorted ts \<Longrightarrow> ?thesis"
    using granted_run [OF fresh_ok, of ts t] by (simp add: fresh_spent)
next
  case False
  then show ?thesis by (auto simp: granted_def dest: set_zip_rightD intro!: filter_False)
qed

end

text \<open>The program's limiter provides it, with no wrap of \<open>used\<close>: it never passes a \<open>u32\<close>.\<close>

definition limiter_spent :: "Limiter \<Rightarrow> u64 \<Rightarrow> nat" where
  "limiter_spent l t = (if window l = t then unat (used l) else 0)"

definition limiter_ok :: "u32 \<Rightarrow> Limiter \<Rightarrow> bool" where
  "limiter_ok pps l \<longleftrightarrow> per_second l = pps \<and> unat (used l) \<le> unat pps"

lemma unat_ucast_u32: "unat (ucast (x :: u32) :: u64) = unat x"
proof -
  have "unat x < 2 ^ 64" using unsigned_less [of x, where ?'a = nat] by simp
  then show ?thesis by (simp add: unsigned_ucast_eq take_bit_nat_eq_self)
qed

lemma admit_cases:
  "admit l t = (if limiter_spent l t < unat (per_second l)
     then (Inr (), l\<lparr>window := t, used := word_of_nat (Suc (limiter_spent l t))\<rparr>)
     else (Inl RateLimited, l\<lparr>window := t, used := word_of_nat (limiter_spent l t)\<rparr>))"
  by (auto simp: admit_def Let_def limiter_spent_def word_le_nat_alt unat_ucast_u32)

interpretation window_limiter:
  rate_limiter "Limiter_new pps" admit limiter_spent "limiter_ok pps" "unat pps" for pps
proof
  show "limiter_ok pps (Limiter_new pps)" by (simp add: limiter_ok_def Limiter_new_def)
  show "limiter_spent (Limiter_new pps) t = 0" for t by (simp add: limiter_spent_def Limiter_new_def)
  fix l and t :: u64
  assume ok: "limiter_ok pps l"
  have le: "limiter_spent l t \<le> unat pps" using ok by (simp add: limiter_spent_def limiter_ok_def)
  have "unat pps < 2 ^ 32" using unsigned_less [of pps, where ?'a = nat] by simp
  with le have un: "unat (word_of_nat (limiter_spent l t) :: u64) = limiter_spent l t"
    "limiter_spent l t < unat pps \<Longrightarrow> unat (word_of_nat (Suc (limiter_spent l t)) :: u64) = Suc (limiter_spent l t)"
    by (simp_all add: unat_of_nat del: of_nat_Suc)
  show "limiter_ok pps (snd (admit l t))"
    using ok le un by (auto simp: admit_cases limiter_ok_def simp del: of_nat_Suc)
  show "fst (admit l t) = Inr () \<longleftrightarrow> limiter_spent l t < unat pps"
    using ok by (simp add: admit_cases limiter_ok_def)
  show "limiter_spent (snd (admit l t)) t =
      (if limiter_spent l t < unat pps then Suc (limiter_spent l t) else limiter_spent l t)"
    using ok un by (simp add: admit_cases limiter_ok_def limiter_spent_def [of "_\<lparr>window := _, used := _\<rparr>"]
        del: of_nat_Suc)
  show "limiter_spent (snd (admit l t)) t' = 0" if "t' \<noteq> t" for t'
    using that by (simp add: admit_cases limiter_spent_def)
qed

section \<open>Untagging an accepted frame\<close>

lemma untag_carried:
  assumes "wf_msg m" "carries f vlan r m"
  shows "untag r vlan = Some (encode_untagged m)"
proof (cases "present vlan")
  case True
  with assms show ?thesis by (simp add: untag_def carries_def)
next
  case False
  with assms(2) obtain t where r: "r = encode_inline t m" by (auto simp: carries_def)
  have l: "18 \<le> length r" "take 12 r = m_dst m @ m_src m" "drop 18 r = encode_body m"
    and s: "subslice r 12 18 = u16_to_be_bytes TPID_8021Q @ u16_to_be_bytes t @ u16_to_be_bytes ETH_P_RRB"
    using r encode_inline_iff [OF assms(1), of r t] by (simp_all add: carried_at_def)
  from l(1) s have "subslice r 16 18 = u16_to_be_bytes ETH_P_RRB" by (simp add: subslice_12_18)
  moreover note l
  moreover from calculation have "subslice r 16 (length r) = u16_to_be_bytes ETH_P_RRB @ encode_body m"
    using slice_append_slice [of 16 18 "length r" r] by (simp add: slice_to_end)
  ultimately show ?thesis
    using False by (simp add: untag_def encode_untagged_def rrb_consts slice_0)
qed

lemma length_encode_untagged: "wf_msg m \<Longrightarrow> 14 \<le> length (encode_untagged m)"
  using encode_untagged_iff [of m "encode_untagged m"] by simp

section \<open>Kinds\<close>

definition valid_kind :: "u8 \<Rightarrow> bool" where
  "valid_kind k \<longleftrightarrow> KIND_PULL \<le> k \<and> k \<le> KIND_SEQ_RESPONSE"

lemma valid_kind_cases:
  assumes "valid_kind k"
  obtains "k = 1" | "k = 2" | "k = 3" | "k = 4" | "k = 5"
proof -
  have "unat k \<in> {1, 2, 3, 4, 5}"
    using assms by (auto simp: valid_kind_def rrb_consts word_le_nat_alt)
  then have "k = 1 \<or> k = 2 \<or> k = 3 \<or> k = 4 \<or> k = 5"
    by (auto simp: word_unat_eq_iff)
  then show thesis using that by blast
qed

lemma kind_counter_name:
  "valid_kind k \<Longrightarrow> kind_name k = COUNTER_NAMES ! counter_index (kind_counter k)"
  by (erule valid_kind_cases) (simp_all add: kind_name_def kind_counter_def COUNTER_NAMES_def rrb_consts)

lemma kind_counter_inj:
  "valid_kind a \<Longrightarrow> valid_kind b \<Longrightarrow> kind_counter a = kind_counter b \<longleftrightarrow> a = b"
  by (erule valid_kind_cases; erule valid_kind_cases) (simp_all add: kind_counter_def rrb_consts)

lemma kind_counter_in: "kind_counter k \<in> set kind_counters"
  by (simp add: kind_counter_def kind_counters_def)

section \<open>Addresses\<close>

lemma char_digit_hex_digit: "n < 16 \<Longrightarrow> char_digit (hex_digit n) = Some n"
proof -
  assume "n < 16"
  then have "n \<in> set [0..<16]" by simp
  moreover have "list_all (\<lambda>n. char_digit (hex_digit n) = Some n) [0..<16]" by code_simp
  ultimately show ?thesis by (simp only: list_all_iff)
qed

lemma octet_hex2: "octet (hex2 b) b"
proof -
  have "unat b div 16 < 16" using unat_u8_lt [of b] by linarith
  then have "char_digit (hex_digit (unat b div 16)) = Some (unat b div 16)"
    "char_digit (hex_digit (unat b mod 16)) = Some (unat b mod 16)"
    by (simp_all add: char_digit_hex_digit)
  moreover have "b = word_of_nat (16 * (unat b div 16) + unat b mod 16)" by (simp only: mult_div_mod_eq) simp
  ultimately show ?thesis unfolding octet_def hex2_def by blast
qed

section \<open>Properties\<close>

text \<open>
  C11. Untagging an accepted frame cannot panic, and yields exactly the untagged frame of the
  message the validator accepted: same addresses, the RRB EtherType at offset 12, same body.
\<close>

theorem untag_accepted:
  assumes "wf_Filter f" "distinct_peers f" "classify r vlan f = Inr res"
  shows "\<exists>m. wf_msg m \<and> acceptable f m \<and> m_kind m = kind res \<and>
    untag r vlan = Some (encode_untagged m) \<and>
    subslice (encode_untagged m) 12 14 = u16_to_be_bytes ETH_P_RRB"
proof -
  from assms(3) obtain m where m: "wf_msg m" "acceptable f m" "carries f vlan r m" "m_kind m = kind res"
    by (auto simp: classify_accepts_iff [OF assms(1,2)])
  then show ?thesis
    using untag_carried encode_untagged_iff [of m "encode_untagged m"] by blast
qed

theorem untag_accepted_witness:
  "\<exists>m. acceptable test_filter m \<and>
    untag (test_frame 5 False (test_tlv 1 nonce_bytes)) Vlan_default = Some (encode_untagged m)"
  using untag_accepted [OF test_filter_wf unicast_accepted] by blast

text \<open>A frame with its tag in metadata, and the same frame with the tag inline.\<close>

definition tag_inline :: "u16 \<Rightarrow> bytes \<Rightarrow> bytes" where
  "tag_inline t r = take 12 r @ u16_to_be_bytes TPID_8021Q @ u16_to_be_bytes t @ drop 12 r"

lemma tag_inline_slices:
  assumes "14 \<le> length r"
  shows "length (tag_inline t r) = length r + 4" "take 6 (tag_inline t r) = take 6 r"
    "subslice (tag_inline t r) 6 12 = subslice r 6 12"
    "12 \<le> i \<Longrightarrow> subslice (tag_inline t r) (i + 4) (j + 4) = subslice r i j"
    "subslice (tag_inline t r) 12 14 = u16_to_be_bytes TPID_8021Q"
    "tag_inline t r ! 14 = u16_to_be_bytes t ! 0" "tag_inline t r ! 15 = u16_to_be_bytes t ! Suc 0"
proof -
  have l: "length (take 12 r) = 12" "length (u16_to_be_bytes x) = 2" for x using assms by simp_all
  show "length (tag_inline t r) = length r + 4" "take 6 (tag_inline t r) = take 6 r"
    "subslice (tag_inline t r) 6 12 = subslice r 6 12" "subslice (tag_inline t r) 12 14 = u16_to_be_bytes TPID_8021Q"
    "tag_inline t r ! 14 = u16_to_be_bytes t ! 0" "tag_inline t r ! 15 = u16_to_be_bytes t ! Suc 0"
    using l assms by (simp_all add: tag_inline_def subslice_def nth_append min_def drop_take)
  assume "12 \<le> i"
  then show "subslice (tag_inline t r) (i + 4) (j + 4) = subslice r i j"
    using l by (simp add: tag_inline_def subslice_def)
qed

lemma tag_inline_view:
  assumes "14 \<le> length r" "length r + 4 \<le> 2048" "\<not> present v"
  shows "same_view f v (tag_inline t r) \<lparr>present = True, proto = TPID_8021Q, tci = t\<rparr> r"
proof -
  let ?v = "\<lparr>present = True, proto = TPID_8021Q, tci = t\<rparr>" and ?r = "tag_inline t r"
  note s = tag_inline_slices [OF assms(1), where t = t]
  have "subslice ?r 16 18 = subslice r 12 14" "subslice ?r 18 38 = subslice r 14 34"
    "subslice ?r 38 (38 + n) = subslice r 34 (34 + n)" for n
    using s(4) [of 12 14] s(4) [of 14 34] s(4) [of 34 "34 + n"] by (simp_all add: add.commute)
  moreover have "u16_from_be_bytes (u16_to_be_bytes t ! 0) (u16_to_be_bytes t ! Suc 0) = t" by simp
  ultimately show ?thesis
    using assms s by (simp add: same_view_def Let_def tag_ok_def body_start_def)
qed

text \<open>
  C30. The two tag representations are equivalent: a frame with an inline tag gets the verdict of the
  frame \<open>untag\<close> makes of it with that tag in the metadata, rejections included, except that the four
  bytes of the tag count for the length limit.
\<close>

theorem tag_representations_equivalent:
  assumes "wf_Filter f" "distinct_peers f" "14 \<le> length r" "\<not> present v"
  shows "untag (tag_inline t r) v = Some r \<and>
    classify (tag_inline t r) v f =
      (if MAX_FRAME < length r + VLAN_TAG_LEN then Inl Length
       else case classify r \<lparr>present = True, proto = TPID_8021Q, tci = t\<rparr> f of
         Inl e \<Rightarrow> Inl e
       | Inr m \<Rightarrow> Inr (m\<lparr>body_offset := body_offset m + VLAN_TAG_LEN\<rparr>))"
proof
  show "untag (tag_inline t r) v = Some r"
    using assms(3,4) tag_inline_slices(1) [OF assms(3), where t = t]
    by (simp add: untag_def VLAN_TAG_LEN_def ETH_TYPE_OFFSET_def tag_inline_def subslice_def)
  show "classify (tag_inline t r) v f =
      (if MAX_FRAME < length r + VLAN_TAG_LEN then Inl Length
       else case classify r \<lparr>present = True, proto = TPID_8021Q, tci = t\<rparr> f of
         Inl e \<Rightarrow> Inl e
       | Inr m \<Rightarrow> Inr (m\<lparr>body_offset := body_offset m + VLAN_TAG_LEN\<rparr>))"
  proof (cases "MAX_FRAME < length r + VLAN_TAG_LEN")
    case True
    then show ?thesis
      using tag_inline_slices(1) [OF assms(3), where t = t] by (simp add: classify_length VLAN_TAG_LEN_def)
  next
    case False
    then have "length r + 4 \<le> 2048" by (simp add: VLAN_TAG_LEN_def MAX_FRAME_def)
    from classify_same_view [OF assms(1,2) tag_inline_view [OF assms(3) this assms(4)]] False show ?thesis
      using assms(4) by (auto simp: classify_reject_reason [OF assms(1,2)] body_start_def VLAN_TAG_LEN_def split: option.splits)
  qed
qed

theorem tag_representations_equivalent_witness:
  "classify (tag_inline 1 (encode_untagged (test_msg 5))) Vlan_default test_filter = Inr \<lparr>kind = 5, body_offset = 18\<rparr>"
proof -
  let ?r = "encode_untagged (test_msg 5)"
  have "14 \<le> length ?r" "\<not> present Vlan_default" "\<not> MAX_FRAME < length ?r + VLAN_TAG_LEN" by code_simp+
  note eq = tag_representations_equivalent [OF test_filter_wf this(1,2)] and fit = this(3)
  have "classify ?r \<lparr>present = True, proto = TPID_8021Q, tci = 1\<rparr> test_filter = Inr \<lparr>kind = 5, body_offset = 14\<rparr>"
    by code_simp
  with eq [of 1] fit show ?thesis by (simp add: VLAN_TAG_LEN_def)
qed

text \<open>
  C12. On a clock that does not run backwards the limiter grants every window exactly as many of
  its requests as its budget of \<open>per_second\<close> allows.
\<close>

theorem limiter_grants_budget:
  assumes "sorted ts"
  shows "granted (admits admit (Limiter_new pps) ts) ts t = min (count_list ts t) (unat pps)"
  using assms by (rule window_limiter.granted_fresh)

theorem limiter_grants_budget_witness:
  "granted (admits admit (Limiter_new 2) [1, 1, 1, 2, 2, 2, 3]) [1, 1, 1, 2, 2, 2, 3 :: u64] 2 = 2"
proof -
  have "sorted [1, 1, 1, 2, 2, 2, 3 :: u64]" by simp
  from limiter_grants_budget [OF this, of 2 2] show ?thesis by (simp del: admits.simps)
qed

lemma classify_valid_kind:
  assumes "wf_Filter f" "distinct_peers f" "classify r vlan f = Inr res"
  shows "valid_kind (kind res)"
  using assms(3) by (auto simp: classify_accepts_iff [OF assms(1,2)] acceptable_def header_ok_def valid_kind_def)

text \<open>
  For every message type the validator accepts, the log name is the name of the counter it
  bumps, and different types bump different counters.
\<close>

lemma kind_counters_agree:
  assumes "wf_Filter f" "distinct_peers f" "classify r vlan f = Inr res" "classify r' vlan' f = Inr res'"
  shows "kind_name (kind res) = COUNTER_NAMES ! counter_index (kind_counter (kind res)) \<and>
    (kind_counter (kind res) = kind_counter (kind res') \<longleftrightarrow> kind res = kind res')"
proof -
  have "valid_kind (kind res)" "valid_kind (kind res')"
    using classify_valid_kind [OF assms(1,2)] assms(3,4) by blast+
  then show ?thesis by (simp add: kind_counter_name kind_counter_inj)
qed

text \<open>
  Printing and parsing of addresses: the text the log shows for an address is accepted by the
  configuration's parser and denotes the same address.
\<close>

lemma mac_string_parses_back:
  assumes "length m = 6"
  shows "mac (mac_string m) = Inr m"
proof -
  have "m = [m ! 0, m ! 1, m ! 2, m ! 3, m ! 4, m ! 5]"
    using assms by (auto simp: list_eq_iff_nth_eq less_Suc_eq numeral_eq_Suc)
  then have "list_all2 octet (map hex2 [m ! 0, m ! 1, m ! 2, m ! 3, m ! 4, m ! 5]) m"
    using octet_hex2 by (metis (no_types, lifting) list_all2_map1 list_all2_refl)
  then show ?thesis unfolding mac_iff
    by (intro exI [of _ "map hex2 [m ! 0, m ! 1, m ! 2, m ! 3, m ! 4, m ! 5]"]) (simp add: mac_string_def)
qed

end
