(* ===== verification/Packet.thy ===== *)
theory Packet
  imports Validation Text
begin

text \<open>
  Passive capture, \<open>src/src/packet.rs\<close>: the classic BPF program attached to the socket, the order of
  the system calls that open it, the decoding of the VLAN metadata that comes with each frame, and
  the receive loop.

  The kernel is not part of the sources. Its BPF machine is the parameter of the locale
  \<open>cbpf_machine\<close>, whose laws are the documented meaning of the three opcodes the program uses; its
  answers to system calls are arguments (\<open>os\<close>, the return value of each call, and the sequence of
  readiness events of the receive loop).
\<close>

unbundle bit_operations_syntax

section \<open>The socket filter\<close>

definition BPF_LD_H_ABS :: u16 where [rrb_consts]: "BPF_LD_H_ABS = 0x28"
definition BPF_JEQ_K :: u16 where [rrb_consts]: "BPF_JEQ_K = 0x15"
definition BPF_RET_K :: u16 where [rrb_consts]: "BPF_RET_K = 0x06"

record SockFilter =
  bpf_code :: u16
  bpf_jt :: u8
  bpf_jf :: u8
  bpf_k :: u32

definition SOCKET_FILTER :: "SockFilter list" where
  "SOCKET_FILTER = [
     \<lparr>bpf_code = BPF_LD_H_ABS, bpf_jt = 0, bpf_jf = 0, bpf_k = 12\<rparr>,
     \<lparr>bpf_code = BPF_JEQ_K, bpf_jt = 0, bpf_jf = 2, bpf_k = 0x8100\<rparr>,
     \<lparr>bpf_code = BPF_LD_H_ABS, bpf_jt = 0, bpf_jf = 0, bpf_k = 16\<rparr>,
     \<lparr>bpf_code = BPF_JEQ_K, bpf_jt = 1, bpf_jf = 2, bpf_k = 0x88b7\<rparr>,
     \<lparr>bpf_code = BPF_JEQ_K, bpf_jt = 0, bpf_jf = 1, bpf_k = 0x88b7\<rparr>,
     \<lparr>bpf_code = BPF_RET_K, bpf_jt = 0, bpf_jf = 0, bpf_k = 0x0000ffff\<rparr>,
     \<lparr>bpf_code = BPF_RET_K, bpf_jt = 0, bpf_jf = 0, bpf_k = 0\<rparr>]"

section \<open>The frame metadata\<close>

definition TP_STATUS_VLAN_VALID :: u32 where "TP_STATUS_VLAN_VALID = push_bit 4 1"
definition TP_STATUS_VLAN_TPID_VALID :: u32 where "TP_STATUS_VLAN_TPID_VALID = push_bit 6 1"
definition PACKET_OUTGOING :: u8 where "PACKET_OUTGOING = 4"

text \<open>Linux values of the \<open>libc\<close> constants the code compares with.\<close>

definition SOL_PACKET :: int where "SOL_PACKET = 263"
definition PACKET_AUXDATA :: int where "PACKET_AUXDATA = 8"
definition EAGAIN :: int where "EAGAIN = 11"
definition ETH_P_ALL :: u16 where "ETH_P_ALL = 3"

record TpacketAuxdata =
  aux_status :: u32
  aux_len :: u32
  aux_snaplen :: u32
  aux_mac :: u16
  aux_net :: u16
  aux_vlan_tci :: u16
  aux_vlan_tpid :: u16

text \<open>A control message: level, type, and its payload read as auxdata.\<close>

record cmsg =
  cmsg_level :: int
  cmsg_type :: int
  cmsg_aux :: TpacketAuxdata

text \<open>
  What a successful \<open>recvmsg\<close> system call hands over: the bytes it wrote at the start of the buffer,
  whose number it returns, the packet direction, and the control messages.
\<close>

record msg_in =
  in_data :: bytes
  in_pkttype :: u8
  in_control :: "cmsg list"

definition read_cmsg :: "cmsg \<Rightarrow> Vlan \<Rightarrow> Vlan" where
  "read_cmsg c vlan =
     (if cmsg_level c = SOL_PACKET \<and> cmsg_type c = PACKET_AUXDATA then
        let aux = cmsg_aux c
        in if aux_status aux AND TP_STATUS_VLAN_VALID \<noteq> 0
           then vlan\<lparr>present := True, tci := aux_vlan_tci aux,
                  proto := (if aux_status aux AND TP_STATUS_VLAN_TPID_VALID \<noteq> 0
                            then aux_vlan_tpid aux else TPID_8021Q)\<rparr>
           else vlan
      else vlan)"

text \<open>
  \<open>recvmsg\<close> on the outcome of the system call (\<open>Inl\<close> an \<open>errno\<close>): the result and the buffer, whose
  bytes past the received ones keep their old values.
\<close>

definition recvmsg :: "int + msg_in \<Rightarrow> bytes \<Rightarrow> (int + (usize \<times> Vlan) option) \<times> bytes" where
  "recvmsg outcome buf =
     (case outcome of
        Inl errno \<Rightarrow> (Inl errno, buf)
      | Inr msg \<Rightarrow>
          let n = length (in_data msg); buf' = in_data msg @ drop n buf
          in if in_pkttype msg = PACKET_OUTGOING then (Inr None, buf')
             else (Inr (Some (n, fold read_cmsg (in_control msg) Vlan_default)), buf'))"

section \<open>The receive loop\<close>

text \<open>
  One element per turn of the loop: the readiness wait fails, or the socket is tried.
  A loop that runs out of events is still waiting (\<open>None\<close>). \<open>try_io\<close> turns \<open>EAGAIN\<close> into another
  wait.
\<close>

datatype readiness = Unreadable | Ready "int + msg_in"

fun recv :: "readiness list \<Rightarrow> bytes \<Rightarrow> (Error + usize \<times> Vlan) option \<times> bytes \<times> readiness list" where
  "recv [] buf = (None, buf, [])"
| "recv (Unreadable # evs) buf = (Some (Inl (Io ''readable'')), buf, evs)"
| "recv (Ready outcome # evs) buf =
     (case recvmsg outcome buf of
        (Inr (Some v), buf') \<Rightarrow> (Some (Inr v), buf', evs)
      | (Inr None, buf') \<Rightarrow> recv evs buf'
      | (Inl e, buf') \<Rightarrow>
          if e = EAGAIN then recv evs buf' else (Some (Inl (Io ''recvmsg'')), buf', evs))"

section \<open>Opening a socket\<close>

datatype syscall =
    If_nametoindex string
  | Socket
  | Attach_filter int "SockFilter list"
  | Enable_auxdata int
  | Enable_ignore_outgoing int
  | Bind int u32 bytes
  | Register int
  | Close int

record PacketSocket =
  sock_fd :: int
  sock_name :: string

definition ifindex :: "(syscall \<Rightarrow> int) \<Rightarrow> string \<Rightarrow> (Error + u32) \<times> syscall list" where
  "ifindex os name =
     (if CHR 0x00 \<in> set name then (Inl (Io ''nul byte in name''), [])
      else
        let n = word_of_int (os (If_nametoindex name))
        in (if n = 0 then Inl (Io ''interface not found'') else Inr n, [If_nametoindex name]))"

text \<open>
  The calls in order; each stops at its own error. Once the descriptor is owned, every early return
  drops it, which closes it; the successful path moves it into the result. The protocol of the
  address is \<open>ETH_P_ALL\<close> in network byte order.
\<close>

definition open_socket :: "(syscall \<Rightarrow> int) \<Rightarrow> string \<Rightarrow> (Error + PacketSocket) \<times> syscall list" where
  "open_socket os name =
     (case ifindex os name of
        (Inl e, tr) \<Rightarrow> (Inl e, tr)
      | (Inr idx, tr) \<Rightarrow>
      let fd = os Socket; tr = tr @ [Socket] in
      if fd < 0 then (Inl (Io ''socket(AF_PACKET)''), tr) else
      let tr = tr @ [Attach_filter fd SOCKET_FILTER] in
      if os (Attach_filter fd SOCKET_FILTER) < 0 then (Inl (Io ''attach socket filter''), tr @ [Close fd]) else
      let tr = tr @ [Enable_auxdata fd] in
      if os (Enable_auxdata fd) < 0 then (Inl (Io ''enable PACKET_AUXDATA''), tr @ [Close fd]) else
      let tr = tr @ [Enable_ignore_outgoing fd] in
      if os (Enable_ignore_outgoing fd) < 0
      then (Inl (Io ''enable PACKET_IGNORE_OUTGOING''), tr @ [Close fd]) else
      let tr = tr @ [Bind fd idx (u16_to_be_bytes ETH_P_ALL)] in
      if os (Bind fd idx (u16_to_be_bytes ETH_P_ALL)) < 0
      then (Inl (Io ''bind packet socket''), tr @ [Close fd]) else
      let tr = tr @ [Register fd] in
      if os (Register fd) < 0 then (Inl (Io ''register packet socket''), tr @ [Close fd]) else
      (Inr \<lparr>sock_fd = fd, sock_name = name\<rparr>, tr))"

section \<open>The BPF machine\<close>

text \<open>
  \<open>exec prog pkt pc a\<close> is the verdict of the machine on the packet, started at instruction \<open>pc\<close> with
  accumulator \<open>a\<close>: how many bytes to keep, 0 to drop. A half-word load at an absolute offset reads
  big-endian and drops the packet when it reaches past its end (offsets with the top bit set
  address ancillary data and are left open); a conditional jump is relative to the next
  instruction; a return gives its constant.
\<close>

locale cbpf_machine =
  fixes exec :: "SockFilter list \<Rightarrow> bytes \<Rightarrow> nat \<Rightarrow> u32 \<Rightarrow> u32"
  assumes load: "pc < length prog \<Longrightarrow> bpf_code (prog ! pc) = BPF_LD_H_ABS \<Longrightarrow>
      bpf_k (prog ! pc) < 0x80000000 \<Longrightarrow> unat (bpf_k (prog ! pc)) = off \<Longrightarrow>
      exec prog pkt pc a =
        (if off + 2 \<le> length pkt
         then exec prog pkt (Suc pc) (ucast (u16_from_be_bytes (pkt ! off) (pkt ! Suc off)))
         else 0)"
    and jump: "pc < length prog \<Longrightarrow> bpf_code (prog ! pc) = BPF_JEQ_K \<Longrightarrow>
      exec prog pkt pc a =
        exec prog pkt (Suc pc + unat (if a = bpf_k (prog ! pc) then bpf_jt (prog ! pc) else bpf_jf (prog ! pc))) a"
    and ret: "pc < length prog \<Longrightarrow> bpf_code (prog ! pc) = BPF_RET_K \<Longrightarrow>
      exec prog pkt pc a = bpf_k (prog ! pc)"

definition rrb_candidate :: "bytes \<Rightarrow> bool" where
  "rrb_candidate pkt \<longleftrightarrow>
     (14 \<le> length pkt \<and> subslice pkt 12 14 = u16_to_be_bytes ETH_P_RRB) \<or>
     (18 \<le> length pkt \<and> subslice pkt 12 14 = u16_to_be_bytes TPID_8021Q \<and>
      subslice pkt 16 18 = u16_to_be_bytes ETH_P_RRB)"

lemma subslice_u16:
  "off + 2 \<le> length pkt \<Longrightarrow> subslice pkt off (off + 2) = u16_to_be_bytes w \<longleftrightarrow>
    u16_from_be_bytes (pkt ! off) (pkt ! Suc off) = w"
  using subslice_2 [of off pkt] by (simp add: u16_from_be_eq_iff)

lemma ucast_u16_eq: "(ucast (x :: u16) :: u32) = ucast (y :: u16) \<longleftrightarrow> x = y"
proof
  assume "(ucast x :: u32) = ucast y"
  then have "unat (ucast x :: u32) = unat (ucast y :: u32)" by simp
  moreover have "unat (ucast z :: u32) = unat z" for z :: u16
  proof -
    have "unat z < 4294967296" using unat_u16_lt [of z] by linarith
    then show ?thesis by (simp add: unsigned_ucast_eq take_bit_nat_eq_self)
  qed
  ultimately show "x = y" by (simp add: word_unat_eq_iff)
qed simp

lemma rrb_candidate_words:
  "rrb_candidate pkt \<longleftrightarrow> 14 \<le> length pkt \<and>
     (let ty = u16_from_be_bytes (pkt ! 12) (pkt ! 13) in
      if ty = TPID_8021Q then 18 \<le> length pkt \<and> u16_from_be_bytes (pkt ! 16) (pkt ! 17) = ETH_P_RRB
      else ty = ETH_P_RRB)"
proof -
  have ne: "TPID_8021Q \<noteq> ETH_P_RRB" by (simp add: rrb_consts)
  have w: "14 \<le> length pkt \<Longrightarrow> subslice pkt 12 14 = u16_to_be_bytes w \<longleftrightarrow>
      u16_from_be_bytes (pkt ! 12) (pkt ! 13) = w"
    "18 \<le> length pkt \<Longrightarrow> subslice pkt 16 18 = u16_to_be_bytes w \<longleftrightarrow>
      u16_from_be_bytes (pkt ! 16) (pkt ! 17) = w" for w
    using subslice_u16 [of 12 pkt w] subslice_u16 [of 16 pkt w] by simp_all
  show ?thesis using ne by (auto simp: rrb_candidate_def Let_def w)
qed

context cbpf_machine
begin

lemma filter_steps:
  "exec SOCKET_FILTER pkt 0 a =
     (if 14 \<le> length pkt
      then exec SOCKET_FILTER pkt 1 (ucast (u16_from_be_bytes (pkt ! 12) (pkt ! 13))) else 0)"
  "exec SOCKET_FILTER pkt 1 a = exec SOCKET_FILTER pkt (if a = 0x8100 then 2 else 4) a"
  "exec SOCKET_FILTER pkt 2 a =
     (if 18 \<le> length pkt
      then exec SOCKET_FILTER pkt 3 (ucast (u16_from_be_bytes (pkt ! 16) (pkt ! 17))) else 0)"
  "exec SOCKET_FILTER pkt 3 a = (if a = 0x88b7 then 0xffff else 0)"
  "exec SOCKET_FILTER pkt 4 a = (if a = 0x88b7 then 0xffff else 0)"
proof -
  have [simp]: "bpf_code (SOCKET_FILTER ! 0) = 0x28" "bpf_code (SOCKET_FILTER ! 2) = 0x28"
    "bpf_code (SOCKET_FILTER ! 1) = 0x15" "bpf_code (SOCKET_FILTER ! 3) = 0x15" "bpf_code (SOCKET_FILTER ! 4) = 0x15"
    "bpf_code (SOCKET_FILTER ! 5) = 0x06" "bpf_code (SOCKET_FILTER ! 6) = 0x06"
    by (simp_all add: SOCKET_FILTER_def rrb_consts)
  have len [simp]: "length SOCKET_FILTER = 7" by (simp add: SOCKET_FILTER_def)
  have k [simp]: "bpf_k (SOCKET_FILTER ! 0) = 12" "bpf_k (SOCKET_FILTER ! 2) = 16" "bpf_k (SOCKET_FILTER ! 1) = 0x8100"
    "bpf_k (SOCKET_FILTER ! 3) = 0x88b7" "bpf_k (SOCKET_FILTER ! 4) = 0x88b7"
    "bpf_k (SOCKET_FILTER ! 5) = 0xffff" "bpf_k (SOCKET_FILTER ! 6) = 0"
    "bpf_jt (SOCKET_FILTER ! 1) = 0" "bpf_jf (SOCKET_FILTER ! 1) = 2"
    "bpf_jt (SOCKET_FILTER ! 3) = 1" "bpf_jf (SOCKET_FILTER ! 3) = 2"
    "bpf_jt (SOCKET_FILTER ! 4) = 0" "bpf_jf (SOCKET_FILTER ! 4) = 1"
    by (simp_all add: SOCKET_FILTER_def)
  have r: "exec SOCKET_FILTER pkt 5 b = 0xffff" "exec SOCKET_FILTER pkt 6 b = 0" for b
    by (simp_all add: ret rrb_consts)
  show "exec SOCKET_FILTER pkt 0 a = (if 14 \<le> length pkt
      then exec SOCKET_FILTER pkt 1 (ucast (u16_from_be_bytes (pkt ! 12) (pkt ! 13))) else 0)"
    using load [of 0 SOCKET_FILTER 12 pkt a] by (simp add: rrb_consts)
  show "exec SOCKET_FILTER pkt 2 a = (if 18 \<le> length pkt
      then exec SOCKET_FILTER pkt 3 (ucast (u16_from_be_bytes (pkt ! 16) (pkt ! 17))) else 0)"
    using load [of 2 SOCKET_FILTER 16 pkt a] by (simp add: rrb_consts)
  show "exec SOCKET_FILTER pkt 1 a = exec SOCKET_FILTER pkt (if a = 0x8100 then 2 else 4) a"
    using jump [of 1 SOCKET_FILTER pkt a]
    by (cases "a = 0x8100") (simp_all add: rrb_consts flip: numeral_2_eq_2 del: One_nat_def)
  show "exec SOCKET_FILTER pkt 3 a = (if a = 0x88b7 then 0xffff else 0)"
    using jump [of 3 SOCKET_FILTER pkt a] r by (simp add: rrb_consts)
  show "exec SOCKET_FILTER pkt 4 a = (if a = 0x88b7 then 0xffff else 0)"
    using jump [of 4 SOCKET_FILTER pkt a] r by (simp add: rrb_consts)
qed

lemma socket_filter: "exec SOCKET_FILTER pkt 0 a = (if rrb_candidate pkt then 0xffff else 0)"
proof -
  have "(ucast (x :: u16) :: u32) = 0x8100 \<longleftrightarrow> x = TPID_8021Q"
    "(ucast x :: u32) = 0x88b7 \<longleftrightarrow> x = ETH_P_RRB" for x
    using ucast_u16_eq [of x TPID_8021Q] ucast_u16_eq [of x ETH_P_RRB] by (simp_all add: rrb_consts)
  then show ?thesis
    by (simp add: filter_steps rrb_candidate_words Let_def del: One_nat_def)
qed

end

text \<open>
  A reference machine. Jumps only go forward, so it always stops; what the laws leave open
  (other opcodes, ancillary loads, running off the program) drops the packet.
\<close>

function bpf_run :: "SockFilter list \<Rightarrow> bytes \<Rightarrow> nat \<Rightarrow> u32 \<Rightarrow> u32" where
  "bpf_run prog pkt pc a =
     (if length prog \<le> pc then 0
      else let ins = prog ! pc in
        if bpf_code ins = BPF_LD_H_ABS then
          if bpf_k ins < 0x80000000 \<and> unat (bpf_k ins) + 2 \<le> length pkt
          then bpf_run prog pkt (Suc pc)
            (ucast (u16_from_be_bytes (pkt ! unat (bpf_k ins)) (pkt ! Suc (unat (bpf_k ins)))))
          else 0
        else if bpf_code ins = BPF_JEQ_K
        then bpf_run prog pkt (Suc pc + unat (if a = bpf_k ins then bpf_jt ins else bpf_jf ins)) a
        else if bpf_code ins = BPF_RET_K then bpf_k ins
        else 0)"
  by pat_completeness auto
termination
  by (relation "measure (\<lambda>(prog, pkt, pc, a). length prog - pc)") auto

declare bpf_run.simps [simp del]

interpretation reference_machine: cbpf_machine bpf_run
proof unfold_locales
  fix pc off and prog :: "SockFilter list" and pkt a
  assume pc: "pc < length prog"
  show "bpf_run prog pkt pc a =
      (if off + 2 \<le> length pkt
       then bpf_run prog pkt (Suc pc) (ucast (u16_from_be_bytes (pkt ! off) (pkt ! Suc off))) else 0)"
    if "bpf_code (prog ! pc) = BPF_LD_H_ABS" "bpf_k (prog ! pc) < 0x80000000" "unat (bpf_k (prog ! pc)) = off"
    using pc that by (subst bpf_run.simps) (auto simp: Let_def)
  show "bpf_run prog pkt pc a = bpf_run prog pkt
      (Suc pc + unat (if a = bpf_k (prog ! pc) then bpf_jt (prog ! pc) else bpf_jf (prog ! pc))) a"
    if "bpf_code (prog ! pc) = BPF_JEQ_K"
    using pc that by (subst bpf_run.simps) (simp add: Let_def rrb_consts)
  show "bpf_run prog pkt pc a = bpf_k (prog ! pc)" if "bpf_code (prog ! pc) = BPF_RET_K"
    using pc that by (subst bpf_run.simps) (simp add: Let_def rrb_consts)
qed

section \<open>What the validator accepts is a candidate\<close>

lemma classify_candidate:
  assumes "classify pkt vlan f = Inr m"
  shows "rrb_candidate pkt \<and> length pkt \<le> MAX_FRAME"
proof -
  have l: "14 \<le> length pkt" "length pkt \<le> MAX_FRAME"
    using assms classify_length [of pkt vlan f] by fastforce+
  then have "tag_ok f vlan pkt" using assms classify_unfold [OF l, of vlan f] by (simp split: if_splits)
  with l show ?thesis by (auto simp: rrb_candidate_def tag_ok_def split: if_splits)
qed

section \<open>Receiving\<close>

definition tagged_aux :: "cmsg \<Rightarrow> bool" where
  "tagged_aux c \<longleftrightarrow> cmsg_level c = SOL_PACKET \<and> cmsg_type c = PACKET_AUXDATA \<and>
     aux_status (cmsg_aux c) AND TP_STATUS_VLAN_VALID \<noteq> 0"

definition aux_vlan :: "TpacketAuxdata \<Rightarrow> Vlan" where
  "aux_vlan aux = \<lparr>present = True,
     proto = (if aux_status aux AND TP_STATUS_VLAN_TPID_VALID \<noteq> 0 then aux_vlan_tpid aux else TPID_8021Q),
     tci = aux_vlan_tci aux\<rparr>"

text \<open>The VLAN view of a message: its last valid tag, or none.\<close>

definition msg_vlan :: "msg_in \<Rightarrow> Vlan" where
  "msg_vlan msg =
     (case rev (filter tagged_aux (in_control msg)) of
        [] \<Rightarrow> Vlan_default
      | c # _ \<Rightarrow> aux_vlan (cmsg_aux c))"

lemma read_cmsg_eq: "read_cmsg c vlan = (if tagged_aux c then aux_vlan (cmsg_aux c) else vlan)"
  by (simp add: read_cmsg_def tagged_aux_def aux_vlan_def Let_def)

lemma fold_read_cmsg: "fold read_cmsg (in_control msg) Vlan_default = msg_vlan msg"
proof -
  have "fold read_cmsg cs v = (case rev (filter tagged_aux cs) of [] \<Rightarrow> v | c # _ \<Rightarrow> aux_vlan (cmsg_aux c))"
    for cs v by (induction cs arbitrary: v) (auto simp: read_cmsg_eq split: list.splits)
  then show ?thesis by (simp add: msg_vlan_def)
qed

definition skipped :: "readiness \<Rightarrow> bool" where
  "skipped ev \<longleftrightarrow> ev = Ready (Inl EAGAIN) \<or> (\<exists>msg. ev = Ready (Inr msg) \<and> in_pkttype msg = PACKET_OUTGOING)"

text \<open>The system call writes no further than the buffer it was given.\<close>

definition fits :: "nat \<Rightarrow> readiness \<Rightarrow> bool" where
  "fits n ev \<longleftrightarrow> (\<forall>msg. ev = Ready (Inr msg) \<longrightarrow> length (in_data msg) \<le> n)"

lemma fits_simps [simp]:
  "fits n Unreadable" "fits n (Ready (Inl e))" "fits n (Ready (Inr msg)) \<longleftrightarrow> length (in_data msg) \<le> n"
  by (simp_all add: fits_def)

lemma skipped_simps [simp]:
  "\<not> skipped Unreadable" "skipped (Ready (Inl e)) \<longleftrightarrow> e = EAGAIN"
  "skipped (Ready (Inr msg)) \<longleftrightarrow> in_pkttype msg = PACKET_OUTGOING"
  by (simp_all add: skipped_def)

lemma recv_skips:
  "(\<And>ev. ev \<in> set pre \<Longrightarrow> skipped ev \<and> fits (length buf) ev) \<Longrightarrow>
    \<exists>buf'. recv (pre @ evs) buf = recv evs buf' \<and> length buf' = length buf"
proof (induction pre arbitrary: buf)
  case Nil
  then show ?case by auto
next
  case (Cons ev pre)
  from Cons.prems have ev: "skipped ev" "fits (length buf) ev" by simp_all
  then consider "ev = Ready (Inl EAGAIN)"
    | msg where "ev = Ready (Inr msg)" "in_pkttype msg = PACKET_OUTGOING" "length (in_data msg) \<le> length buf"
    by (auto simp: skipped_def)
  then show ?case
  proof cases
    case 1
    then show ?thesis using Cons.IH [of buf] Cons.prems by (simp add: recvmsg_def)
  next
    case 2
    then show ?thesis
      using Cons.IH [of "in_data msg @ drop (length (in_data msg)) buf"] Cons.prems
      by (simp add: recvmsg_def Let_def)
  qed
qed

lemma recv_incoming:
  "in_pkttype msg \<noteq> PACKET_OUTGOING \<Longrightarrow>
    recv (Ready (Inr msg) # evs) buf =
      (Some (Inr (length (in_data msg), msg_vlan msg)), in_data msg @ drop (length (in_data msg)) buf, evs)"
  by (simp add: recvmsg_def Let_def fold_read_cmsg)

lemma recv_error:
  "ev = Unreadable \<or> (\<exists>e. ev = Ready (Inl e) \<and> e \<noteq> EAGAIN) \<Longrightarrow>
    \<exists>e. recv (ev # evs) buf = (Some (Inl e), buf, evs)"
  by (auto simp: recvmsg_def)

section \<open>A short machine run and an open socket\<close>

definition demo_os :: "syscall \<Rightarrow> int" where
  "demo_os c = (case c of If_nametoindex _ \<Rightarrow> 3 | Socket \<Rightarrow> 7 | _ \<Rightarrow> 0)"

definition demo_in :: "u8 \<Rightarrow> bytes \<Rightarrow> msg_in" where
  "demo_in ty data = \<lparr>in_data = data, in_pkttype = ty, in_control =
     [\<lparr>cmsg_level = SOL_PACKET, cmsg_type = PACKET_AUXDATA, cmsg_aux = \<lparr>aux_status = 0x11, aux_len = 0,
       aux_snaplen = 0, aux_mac = 0, aux_net = 0, aux_vlan_tci = 0x2001, aux_vlan_tpid = 0\<rparr>\<rparr>]\<rparr>"

section \<open>Properties\<close>

text \<open>
  C13. On a machine with the documented meaning of its opcodes the attached program keeps up to
  65535 bytes of exactly the frames with the RRB EtherType at offset 12, or behind one 802.1Q tag,
  and drops every other frame, short ones included. In particular it loses nothing: every frame the
  validator would accept passes in full length.
\<close>

theorem socket_filter_exact:
  assumes "cbpf_machine exec"
  shows "exec SOCKET_FILTER pkt 0 a = (if rrb_candidate pkt then 0xffff else 0) \<and>
    (\<forall>vlan f m. classify pkt vlan f = Inr m \<longrightarrow> length pkt \<le> unat (exec SOCKET_FILTER pkt 0 a))"
  using classify_candidate by (fastforce simp: cbpf_machine.socket_filter [OF assms] MAX_FRAME_def)

theorem socket_filter_exact_witness:
  "bpf_run SOCKET_FILTER (test_frame 5 False (test_tlv 1 nonce_bytes)) 0 0 = 0xffff \<and>
   bpf_run SOCKET_FILTER (replicate 60 0) 0 0 = 0"
proof -
  have "rrb_candidate (test_frame 5 False (test_tlv 1 nonce_bytes))" "\<not> rrb_candidate (replicate 60 0)"
    by code_simp+
  then show ?thesis
    using socket_filter_exact [OF reference_machine.cbpf_machine_axioms, of _ 0] by presburger
qed

text \<open>
  C14. The receive loop returns the first frame that is not this host's own: after any number of
  outgoing frames and empty wake-ups, whatever they left in the buffer, the result is the length of
  the frame and the last valid VLAN tag of its metadata, and the buffer starts with exactly its
  bytes; the events behind it are left for the next call.
\<close>

theorem recv_returns_first_incoming:
  assumes "list_all skipped pre" "in_pkttype msg \<noteq> PACKET_OUTGOING"
    and "list_all (fits (length buf)) (pre @ [Ready (Inr msg)])"
  shows "\<exists>buf'. recv (pre @ Ready (Inr msg) # evs) buf =
      (Some (Inr (length (in_data msg), msg_vlan msg)), buf', evs) \<and>
    length buf' = length buf \<and> take (length (in_data msg)) buf' = in_data msg"
proof -
  obtain buf1 where "recv (pre @ Ready (Inr msg) # evs) buf = recv (Ready (Inr msg) # evs) buf1"
    "length buf1 = length buf"
    using recv_skips [of pre buf "Ready (Inr msg) # evs"] assms(1,3)
    by (force simp: list_all_iff simp del: recv.simps)
  then show ?thesis using assms(2,3) by (simp add: recv_incoming del: recv.simps)
qed

theorem recv_returns_first_incoming_witness:
  "\<exists>buf'. recv [Ready (Inl EAGAIN), Ready (Inr (demo_in 4 [1, 2, 3])), Ready (Inr (demo_in 0 [9, 8]))]
      (replicate 2048 0) =
      (Some (Inr (2, \<lparr>present = True, proto = TPID_8021Q, tci = 0x2001\<rparr>)), buf', []) \<and>
    length buf' = 2048 \<and> take 2 buf' = [9, 8]"
proof -
  have "list_all skipped [Ready (Inl EAGAIN), Ready (Inr (demo_in 4 [1, 2, 3]))]"
    "in_pkttype (demo_in 0 [9, 8]) \<noteq> PACKET_OUTGOING"
    "list_all (fits (length (replicate 2048 (0 :: u8))))
      ([Ready (Inl EAGAIN), Ready (Inr (demo_in 4 [1, 2, 3]))] @ [Ready (Inr (demo_in 0 [9, 8]))])"
    by (simp_all add: demo_in_def PACKET_OUTGOING_def)
  note r = recv_returns_first_incoming [OF this, of "[]"]
  have "msg_vlan (demo_in 0 [9, 8]) = \<lparr>present = True, proto = TPID_8021Q, tci = 0x2001\<rparr>"
    by code_simp
  moreover have "in_data (demo_in 0 [9, 8]) = [9, 8]" by (simp add: demo_in_def)
  ultimately show ?thesis using r by (simp del: recv.simps flip: numeral_2_eq_2)
qed

text \<open>
  C15. Opening a source never captures unfiltered traffic and never leaks a descriptor: whenever the
  socket was bound, the filter, the metadata option and the outgoing option had been installed on it
  successfully before; the descriptor is closed exactly when opening fails after it was obtained.
\<close>

theorem open_configures_then_binds:
  assumes "open_socket os name = (res, tr)"
  shows "(\<forall>pre fd idx p post. tr = pre @ Bind fd idx p # post \<longrightarrow>
      set [Attach_filter fd SOCKET_FILTER, Enable_auxdata fd, Enable_ignore_outgoing fd] \<subseteq> set pre \<and>
      0 \<le> os (Attach_filter fd SOCKET_FILTER) \<and> 0 \<le> os (Enable_auxdata fd) \<and>
      0 \<le> os (Enable_ignore_outgoing fd) \<and> p = u16_to_be_bytes ETH_P_ALL \<and>
      idx = word_of_int (os (If_nametoindex name)) \<and> idx \<noteq> 0) \<and>
    filter (\<lambda>c. \<exists>fd. c = Close fd) tr =
      (if isl res \<and> Socket \<in> set tr \<and> 0 \<le> os Socket then [Close (os Socket)] else [])"
  using assms
  by (auto simp: open_socket_def ifindex_def Let_def append_eq_Cons_conv Cons_eq_append_conv split: if_splits)

theorem open_configures_then_binds_witness:
  "filter (\<lambda>c. \<exists>fd. c = Close fd) (snd (open_socket demo_os ''eth1'')) = []"
proof -
  have "open_socket demo_os ''eth1'' = (Inr \<lparr>sock_fd = 7, sock_name = ''eth1''\<rparr>, snd (open_socket demo_os ''eth1''))"
    by code_simp
  from open_configures_then_binds [OF this] show ?thesis by simp
qed

lemma frame_of_sealed: "frame_of vlan t (m\<lparr>m_sealed := s\<rparr>) = frame_of vlan t (m\<lparr>m_sealed := []\<rparr>) @ s"
  by (simp add: frame_of_def encode_inline_def encode_untagged_def encode_body_def encode_header_def)

text \<open>
  C38. The upper length bound of the validator does not protect the daemon. \<open>recvmsg\<close> fills a
  buffer of \<open>MAX_FRAME\<close> bytes and the truncation it reports is not looked at, so the frame that is
  validated is the first \<open>MAX_FRAME\<close> bytes of the one on the wire. An oversized frame of an
  acceptable message is rejected when it is validated as a whole, but its truncation is accepted,
  provided that header, auth block and SIV tag lie within \<open>MAX_FRAME\<close>.
\<close>

theorem oversized_frame_accepted_truncated:
  assumes "wf_Filter f" "distinct_peers f" "wf_msg m" "acceptable f m" "scope_ok f vlan t"
    and "MAX_FRAME < length (frame_of vlan t m)"
    and "length (frame_of vlan t (m\<lparr>m_sealed := take SIV_LEN (m_sealed m)\<rparr>)) \<le> MAX_FRAME"
    and "in_data msg = take (length buf) (frame_of vlan t m)" "length buf = MAX_FRAME"
    and "in_pkttype msg \<noteq> PACKET_OUTGOING" "msg_vlan msg = vlan"
  shows "classify (frame_of vlan t m) vlan f = Inl Length \<and>
    (\<exists>n buf'. recv [Ready (Inr msg)] buf = (Some (Inr (n, vlan)), buf', []) \<and>
       classify (take n buf') vlan f = Inr \<lparr>kind = m_kind m, body_offset = body_start vlan\<rparr>)"
proof -
  let ?r = "frame_of vlan t m"
  define front where "front = frame_of vlan t (m\<lparr>m_sealed := []\<rparr>)"
  let ?m = "m\<lparr>m_sealed := take (MAX_FRAME - length front) (m_sealed m)\<rparr>"
  have front: "frame_of vlan t (m\<lparr>m_sealed := s\<rparr>) = front @ s" for s
    unfolding front_def by (rule frame_of_sealed)
  have r: "?r = front @ m_sealed m" using front [of "m_sealed m"] by simp
  have "SIV_LEN \<le> length (m_sealed m)" using assms(3) by (simp add: wf_msg_def)
  then have k: "length front + SIV_LEN \<le> MAX_FRAME" using assms(7) by (simp add: front min.absorb2)
  have trunc: "take MAX_FRAME ?r = frame_of vlan t ?m" using k by (simp add: front r)
  have "SIV_LEN \<le> MAX_FRAME - length front" using k by linarith
  then have "wf_msg ?m" using assms(3) by (simp add: wf_msg_def)
  moreover have "acceptable f ?m" using assms(4) by (simp add: acceptable_def)
  moreover have "length (frame_of vlan t ?m) \<le> MAX_FRAME" by (simp flip: trunc)
  ultimately have "classify (take MAX_FRAME ?r) vlan f = Inr \<lparr>kind = m_kind m, body_offset = body_start vlan\<rparr>"
    using classify_frame_of [OF assms(1,2)] assms(5) by (simp add: trunc)
  moreover have "in_data msg = take MAX_FRAME ?r" "length (in_data msg) = MAX_FRAME"
    using assms(6,8,9) by simp_all
  ultimately show ?thesis
    using assms(6,9-11) by (simp add: classify_length recv_incoming del: recv.simps)
qed

definition oversized_msg :: rrb_msg where
  "oversized_msg = test_msg 5\<lparr>m_sealed := replicate 3000 0\<rparr>"

theorem oversized_frame_accepted_truncated_witness:
  "\<exists>n buf'. recv [Ready (Inr \<lparr>in_data = take MAX_FRAME (frame_of Vlan_default 1 oversized_msg),
        in_pkttype = 0, in_control = []\<rparr>)] (replicate MAX_FRAME 0) = (Some (Inr (n, Vlan_default)), buf', []) \<and>
     classify (take n buf') Vlan_default test_filter = Inr \<lparr>kind = 5, body_offset = 18\<rparr>"
proof -
  let ?in = "\<lparr>in_data = take (length (replicate MAX_FRAME (0 :: u8))) (frame_of Vlan_default 1 oversized_msg),
        in_pkttype = 0, in_control = []\<rparr>"
  have "wf_msg (test_msg 5)" "acceptable test_filter (test_msg 5)" by code_simp+
  then have "wf_msg oversized_msg" "acceptable test_filter oversized_msg"
    by (simp_all add: oversized_msg_def wf_msg_def acceptable_def SIV_LEN_def)
  moreover have "scope_ok test_filter Vlan_default 1" by code_simp
  moreover have "length (frame_of Vlan_default 1 (test_msg 5\<lparr>m_sealed := []\<rparr>)) = 47" by code_simp
  then have l: "length (frame_of Vlan_default 1 (oversized_msg\<lparr>m_sealed := []\<rparr>)) = 47"
    by (simp add: oversized_msg_def)
  have "length (frame_of Vlan_default 1 (oversized_msg\<lparr>m_sealed := s\<rparr>)) = 47 + length s" for s
    by (subst frame_of_sealed) (simp add: l)
  from this [of "m_sealed oversized_msg"] this [of "take SIV_LEN (m_sealed oversized_msg)"]
  have "MAX_FRAME < length (frame_of Vlan_default 1 oversized_msg)"
    "length (frame_of Vlan_default 1 (oversized_msg\<lparr>m_sealed := take SIV_LEN (m_sealed oversized_msg)\<rparr>)) \<le> MAX_FRAME"
    by (simp_all add: oversized_msg_def rrb_consts)
  moreover have "in_pkttype ?in \<noteq> PACKET_OUTGOING" "msg_vlan ?in = Vlan_default"
    by (simp_all add: PACKET_OUTGOING_def msg_vlan_def)
  ultimately have "\<exists>n buf'. recv [Ready (Inr ?in)] (replicate MAX_FRAME 0) = (Some (Inr (n, Vlan_default)), buf', []) \<and>
     classify (take n buf') Vlan_default test_filter =
       Inr \<lparr>kind = m_kind oversized_msg, body_offset = body_start Vlan_default\<rparr>"
    using oversized_frame_accepted_truncated [OF test_filter_wf, of oversized_msg Vlan_default 1 ?in
        "replicate MAX_FRAME 0"] by (simp del: recv.simps)
  moreover have "m_kind oversized_msg = 5" "body_start Vlan_default = 18"
    by (simp_all add: oversized_msg_def test_msg_def body_start_def Vlan_default_def)
  ultimately show ?thesis by simp
qed

end
