(* ===== verification/Hostapd.thy ===== *)
theory Hostapd
  imports Text "HOL-Library.List_Lexorder"
begin

text \<open>
  The hostapd control-interface client of \<open>src/src/hostapd.rs\<close>. The unix socket and the directory
  listing are the operating system's: \<open>hostapd_env\<close> holds what each call answers (\<open>None\<close> or
  \<open>False\<close> for an error), and every definition takes it as an argument. What the program computes
  from the answers is modelled in full: the order of the calls, the reply parser, the prefix
  filter, the abort on the first failing socket, sorting and removal of duplicates.
\<close>

definition SOCKET_DIR :: string where "SOCKET_DIR = ''/run/hostapd''"
definition SOCKET_PREFIX :: string where "SOCKET_PREFIX = ''wifi''"
definition REPLY_BUF :: usize where "REPLY_BUF = 8192"

record hostapd_env =
  env_unbound :: bool
  env_set_read_timeout :: bool
  env_connect :: "string \<Rightarrow> bool"
  env_send :: "string \<Rightarrow> string \<Rightarrow> bool"
  env_recv :: "string \<Rightarrow> bytes option"
  env_read_dir :: "string \<Rightarrow> bytes option list option"

type_synonym Config = "string \<rightharpoonup> string"

section \<open>One exchange\<close>

text \<open>\<open>key=value\<close> lines; collecting into the map keeps the last value of a key.\<close>

definition parse_config :: "string \<Rightarrow> Config" where
  "parse_config text = map_of (rev (List.map_filter (split_once (CHR ''='')) (str_lines text)))"

definition get_config :: "hostapd_env \<Rightarrow> string \<Rightarrow> Error + Config" where
  "get_config env ifname =
     (let path = SOCKET_DIR @ ''/'' @ ifname
      in if \<not> env_unbound env then Inl (Io ''create client socket'')
         else if \<not> env_set_read_timeout env then Inl (Io ''set_read_timeout'')
         else if \<not> env_connect env path then Inl (Io ''connect hostapd socket'')
         else if \<not> env_send env path ''GET_CONFIG'' then Inl (Io ''send GET_CONFIG'')
         else case env_recv env path of
             None \<Rightarrow> Inl (Io ''GET_CONFIG reply'')
           | Some dgram \<Rightarrow>
               (case from_utf8 (take REPLY_BUF dgram) of
                  None \<Rightarrow> Inl NotUtf8
                | Some text \<Rightarrow> Inr (parse_config text)))"

definition bssid :: "hostapd_env \<Rightarrow> string \<Rightarrow> Error + mac_addr" where
  "bssid env ifname =
     (case get_config env ifname of
        Inl e \<Rightarrow> Inl e
      | Inr cfg \<Rightarrow> (case cfg ''bssid'' of None \<Rightarrow> Inl MissingBssid | Some text \<Rightarrow> mac text))"

section \<open>Discovery\<close>

text \<open>The loop over the directory entries, accumulating \<open>out\<close>.\<close>

fun collect_bssids :: "hostapd_env \<Rightarrow> bytes option list \<Rightarrow> mac_addr list \<Rightarrow> Error + mac_addr list" where
  "collect_bssids env [] out = Inr out"
| "collect_bssids env (entry # entries) out =
     (case entry of
        None \<Rightarrow> Inl (Io ''directory entry'')
      | Some raw \<Rightarrow>
          (case from_utf8 raw of
             None \<Rightarrow> Inl NotUtf8
           | Some name \<Rightarrow>
               if strip_prefix SOCKET_PREFIX name = None then collect_bssids env entries out
               else case bssid env name of
                   Inl e \<Rightarrow> Inl e
                 | Inr b \<Rightarrow> collect_bssids env entries (out @ [b])))"

definition bssids :: "hostapd_env \<Rightarrow> Error + mac_addr list" where
  "bssids env =
     (case env_read_dir env SOCKET_DIR of
        None \<Rightarrow> Inl (Io ''read /run/hostapd'')
      | Some entries \<Rightarrow>
          (case collect_bssids env entries [] of
             Inl e \<Rightarrow> Inl e
           | Inr out \<Rightarrow> if out = [] then Inl NoSockets else Inr (remdups_adj (sort out))))"

section \<open>Lemmas\<close>

lemma bssid_length: "bssid env n = Inr b \<Longrightarrow> length b = 6"
  by (auto simp: bssid_def dest: mac_length split: sum.splits option.splits)

text \<open>The interfaces the discovery asks: the decodable entries with the prefix.\<close>

definition wifi_names :: "bytes option list \<Rightarrow> string list" where
  "wifi_names entries =
     filter (\<lambda>n. strip_prefix SOCKET_PREFIX n \<noteq> None)
       (List.map_filter (\<lambda>e. Option.bind e from_utf8) entries)"

lemma wifi_names_Cons:
  "wifi_names (e # es) =
    (case Option.bind e from_utf8 of
       None \<Rightarrow> wifi_names es
     | Some n \<Rightarrow> if strip_prefix SOCKET_PREFIX n \<noteq> None then n # wifi_names es else wifi_names es)"
  by (simp add: wifi_names_def List.map_filter_def split: option.splits)

lemma collect_bssids_Inr:
  "collect_bssids env es out = Inr res \<Longrightarrow>
    \<exists>bs. res = out @ bs \<and> list_all2 (\<lambda>n b. bssid env n = Inr b) (wifi_names es) bs"
proof (induction es arbitrary: out)
  case Nil
  then show ?case by (simp add: wifi_names_def List.map_filter_def)
next
  case (Cons e es)
  from Cons.prems obtain raw name where e: "e = Some raw" "from_utf8 raw = Some name"
    by (auto split: option.splits)
  show ?case
  proof (cases "strip_prefix SOCKET_PREFIX name = None")
    case True
    with Cons e show ?thesis by (simp add: wifi_names_Cons)
  next
    case False
    with Cons.prems e obtain b where b: "bssid env name = Inr b"
      "collect_bssids env es (out @ [b]) = Inr res" by (auto split: sum.splits)
    from Cons.IH [OF b(2)] obtain bs where
      bs: "res = out @ b # bs" "list_all2 (\<lambda>n b. bssid env n = Inr b) (wifi_names es) bs" by auto
    with False e b show ?thesis by (intro exI [of _ "b # bs"]) (simp add: wifi_names_Cons)
  qed
qed

lemma list_all2_fun_set: "list_all2 (\<lambda>n b. f n = Inr b) ns bs \<Longrightarrow> set bs = {b. \<exists>n\<in>set ns. f n = Inr b}"
  by (induction rule: list_all2_induct) auto

lemma sorted_distinct_remdups_adj:
  "sorted xs \<Longrightarrow> sorted (remdups_adj xs) \<and> distinct (remdups_adj xs)" for xs :: "'a::linorder list"
  by (induction xs rule: remdups_adj.induct) auto

lemma bssids_Inr:
  assumes "bssids env = Inr out"
  obtains entries where "env_read_dir env SOCKET_DIR = Some entries"
    "set out = {b. \<exists>n\<in>set (wifi_names entries). bssid env n = Inr b}"
    "\<And>n. n \<in> set (wifi_names entries) \<Longrightarrow> \<exists>b. bssid env n = Inr b"
    "out \<noteq> []" "sorted out" "distinct out" "list_all (\<lambda>b. length b = 6) out"
proof -
  from assms obtain entries bs where e: "env_read_dir env SOCKET_DIR = Some entries"
    and c: "collect_bssids env entries [] = Inr bs" "bs \<noteq> []" "out = remdups_adj (sort bs)"
    by (auto simp: bssids_def split: option.splits sum.splits if_splits)
  from collect_bssids_Inr [OF c(1)]
  have all: "list_all2 (\<lambda>n b. bssid env n = Inr b) (wifi_names entries) bs" by auto
  have out: "set out = set bs" "out \<noteq> []" "sorted out" "distinct out"
    using c(2,3) sorted_distinct_remdups_adj [of "sort bs"] by (auto simp flip: set_empty)
  have "\<And>n. n \<in> set (wifi_names entries) \<Longrightarrow> \<exists>b. bssid env n = Inr b"
    using all by (auto simp: list_all2_conv_all_nth in_set_conv_nth)
  moreover have "list_all (\<lambda>b. length b = 6) out"
    using out(1) list_all2_fun_set [OF all] by (auto simp: list_all_iff dest: bssid_length)
  ultimately show thesis using that e out list_all2_fun_set [OF all] by simp
qed

text \<open>One printed reply line, and what the parser makes of it.\<close>

definition config_line :: "string \<times> string \<Rightarrow> string" where
  "config_line kv = fst kv @ ''='' @ snd kv @ [newline]"

definition clean_pair :: "string \<times> string \<Rightarrow> bool" where
  "clean_pair kv \<longleftrightarrow> CHR ''='' \<notin> set (fst kv) \<and> newline \<notin> set (fst kv) \<and> newline \<notin> set (snd kv) \<and>
     (snd kv = [] \<or> last (snd kv) \<noteq> carriage_return)"

lemma line_text_config:
  assumes "clean_pair kv"
  shows "line_text (config_line kv) = fst kv @ ''='' @ snd kv"
proof -
  have "carriage_return \<noteq> CHR ''=''" by (simp add: carriage_return_def)
  then have "last (fst kv @ ''='' @ snd kv) \<noteq> carriage_return"
    using assms by (auto simp: clean_pair_def)
  then show ?thesis
    by (simp add: line_text_def config_line_def strip_last_def butlast_append)
qed

lemma split_inclusive_config:
  assumes "clean_pair kv"
  shows "split_inclusive newline (config_line kv @ s) = config_line kv # split_inclusive newline s"
proof -
  have "newline \<notin> set (fst kv @ ''='' @ snd kv)"
    using assms by (auto simp: clean_pair_def newline_def)
  from split_inclusive_append [OF this, of s] show ?thesis by (simp add: config_line_def)
qed

lemma parse_config_lines:
  "list_all clean_pair kvs \<Longrightarrow> List.map_filter (split_once (CHR ''='')) (str_lines (concat (map config_line kvs))) = kvs"
proof (induction kvs)
  case Nil
  then show ?case by (simp add: str_lines_def List.map_filter_def)
next
  case (Cons kv kvs)
  then have "split_once (CHR ''='') (fst kv @ ''='' @ snd kv) = Some kv"
    using split_once_append [of "CHR ''=''" "fst kv" "snd kv"] by (simp add: clean_pair_def)
  with Cons show ?case
    by (simp add: str_lines_def split_inclusive_config line_text_config List.map_filter_simps)
qed

section \<open>Properties\<close>

text \<open>
  C36. A successful discovery returns exactly the BSSIDs that the hostapd sockets with the wifi
  prefix report, every one of them answered, at least one, in ascending order and without
  duplicates, each of six bytes.
\<close>

theorem bssids_discovered:
  assumes "bssids env = Inr out" "env_read_dir env SOCKET_DIR = Some entries"
  shows "set out = {b. \<exists>n\<in>set (wifi_names entries). bssid env n = Inr b} \<and>
    (\<forall>n\<in>set (wifi_names entries). \<exists>b. bssid env n = Inr b) \<and>
    out \<noteq> [] \<and> sorted out \<and> distinct out \<and> list_all (\<lambda>b. length b = 6) out"
proof (rule bssids_Inr [OF assms(1)])
  fix es
  assume "env_read_dir env SOCKET_DIR = Some es"
  with assms(2) have "es = entries" by simp
  moreover assume "set out = {b. \<exists>n\<in>set (wifi_names es). bssid env n = Inr b}"
    "\<And>n. n \<in> set (wifi_names es) \<Longrightarrow> \<exists>b. bssid env n = Inr b"
    "out \<noteq> []" "sorted out" "distinct out" "list_all (\<lambda>b. length b = 6) out"
  ultimately show ?thesis by blast
qed

definition demo_reply :: string where
  "demo_reply = concat (map config_line [(''bssid'', ''22:0b:8b:ea:60:c9''), (''ssid'', ''Home'')])"

definition demo_env :: hostapd_env where
  "demo_env = \<lparr>env_unbound = True, env_set_read_timeout = True, env_connect = (\<lambda>_. True),
     env_send = (\<lambda>_ _. True), env_recv = (\<lambda>_. Some (as_bytes demo_reply)),
     env_read_dir = (\<lambda>_. Some [Some (as_bytes ''wifi1ap4''), Some (as_bytes ''global'')])\<rparr>"

lemma demo_bssids: "bssids demo_env = Inr [[0x22, 0x0b, 0x8b, 0xea, 0x60, 0xc9]]"
proof -
  have clean: "list_all clean_pair [(''bssid'', ''22:0b:8b:ea:60:c9''), (''ssid'', ''Home'')]"
    by (simp add: clean_pair_def newline_def carriage_return_def)
  have dec: "from_utf8 (take REPLY_BUF (as_bytes demo_reply)) = Some demo_reply"
    by code_simp
  have cfg: "parse_config demo_reply ''bssid'' = Some ''22:0b:8b:ea:60:c9''"
    unfolding demo_reply_def parse_config_def parse_config_lines [OF clean] by simp
  have "mac ''22:0b:8b:ea:60:c9'' = Inr [0x22, 0x0b, 0x8b, 0xea, 0x60, 0xc9]" by code_simp
  with dec cfg have demo: "bssid demo_env n = Inr [0x22, 0x0b, 0x8b, 0xea, 0x60, 0xc9]" for n
    by (simp add: bssid_def get_config_def demo_env_def)
  have "from_utf8 (as_bytes ''wifi1ap4'') = Some ''wifi1ap4''" "from_utf8 (as_bytes ''global'') = Some ''global''"
    by code_simp+
  then have "collect_bssids demo_env [Some (as_bytes ''wifi1ap4''), Some (as_bytes ''global'')] [] =
      Inr [[0x22, 0x0b, 0x8b, 0xea, 0x60, 0xc9]]"
    by (simp add: demo SOCKET_PREFIX_def)
  then show ?thesis by (simp add: bssids_def demo_env_def)
qed

theorem bssids_discovered_witness:
  "[0x22, 0x0b, 0x8b, 0xea, 0x60, 0xc9] \<in>
    {b. \<exists>n\<in>set (wifi_names [Some (as_bytes ''wifi1ap4''), Some (as_bytes ''global'')]).
          bssid demo_env n = Inr b}"
proof -
  have d: "env_read_dir demo_env SOCKET_DIR = Some [Some (as_bytes ''wifi1ap4''), Some (as_bytes ''global'')]"
    by (simp add: demo_env_def)
  note bssids_discovered [OF demo_bssids d, THEN conjunct1]
  then show ?thesis by (metis list.set_intros(1))
qed

text \<open>
  C37. Printing and parsing a reply: the parser reads back every key and value of a reply printed
  one pair per line, the last value of a repeated key, for keys and values a line can hold.
\<close>

theorem parse_config_roundtrip:
  assumes "list_all clean_pair kvs"
  shows "parse_config (concat (map config_line kvs)) = map_of (rev kvs)"
  by (simp add: parse_config_def parse_config_lines [OF assms])

theorem parse_config_roundtrip_witness:
  "parse_config demo_reply ''bssid'' = Some ''22:0b:8b:ea:60:c9'' \<and> parse_config demo_reply ''junkline'' = None"
proof -
  have "list_all clean_pair [(''bssid'', ''22:0b:8b:ea:60:c9''), (''ssid'', ''Home'')]"
    by (simp add: clean_pair_def newline_def carriage_return_def)
  from parse_config_roundtrip [OF this] show ?thesis by (simp add: demo_reply_def)
qed

end
