(* ===== verification/Config.thy ===== *)
theory Config
  imports Hostapd Wire
begin

text \<open>
  The daemon configuration of \<open>src/src/config.rs\<close>: the settings with their defaults, structural
  validation, and the assembly of the identity (\<open>Filter\<close>) from MAC addresses in sysfs and BSSIDs
  reported by hostapd.

  The operating system is a parameter: \<open>config_env\<close> answers the sysfs reads and, per attempt of
  the retry loop, the hostapd calls. The deserialiser is a parameter of \<open>load\<close>; \<open>Yaml\<close> provides it. Slices of the
  fixed arrays and writes past their end, which panic, are the error \<open>Panic\<close>.
\<close>

definition DEFAULT_PREF :: u16 where "DEFAULT_PREF = 49152"

definition default_target :: string where "default_target = ''br0''"
definition default_vlan :: u16 where "default_vlan = 1"
definition default_pps :: u32 where "default_pps = 20"
definition default_tap :: string where "default_tap = ''rrb0''"
definition default_pref :: u16 where "default_pref = DEFAULT_PREF"

datatype Mode = Observe | Forward

definition default_mode :: Mode where "default_mode = Forward"

record ApEntry =
  ap_interface :: string
  ap_r0kh_id :: "string option"

record PeerEntry =
  entry_mac :: string
  entry_bssids :: "string list"

record Limits =
  packets_per_second :: u32

definition Limits_default :: Limits where
  "Limits_default = \<lparr>packets_per_second = default_pps\<rparr>"

record Settings =
  s_sources :: "string list"
  s_aps :: "ApEntry list"
  s_peers :: "PeerEntry list"
  s_target :: string
  s_management_vlan :: u16
  s_mode :: Mode
  s_limits :: Limits
  s_tap :: string
  s_pref :: u16

text \<open>A document that only names its sources and APs: every other field takes its default.\<close>

definition minimal_settings :: "string list \<Rightarrow> ApEntry list \<Rightarrow> Settings" where
  "minimal_settings sources aps = \<lparr>s_sources = sources, s_aps = aps, s_peers = [],
     s_target = default_target, s_management_vlan = default_vlan, s_mode = default_mode,
     s_limits = Limits_default, s_tap = default_tap, s_pref = default_pref\<rparr>"

section \<open>Structural validation\<close>

definition name_char :: "char \<Rightarrow> bool" where
  "name_char c \<longleftrightarrow>
     (let n = (of_char c :: nat)
      in (48 \<le> n \<and> n \<le> 57) \<or> (65 \<le> n \<and> n \<le> 90) \<or> (97 \<le> n \<and> n \<le> 122) \<or>
         c \<in> {CHR ''.'', CHR ''-'', CHR ''_''})"

definition valid_name :: "string \<Rightarrow> bool" where
  "valid_name name \<longleftrightarrow> name \<noteq> [] \<and> length name < 16 \<and> list_all name_char name"

text \<open>The loop over the interface names, with the set of names already seen.\<close>

fun check_names :: "string list \<Rightarrow> string set \<Rightarrow> Error + unit" where
  "check_names [] names = Inr ()"
| "check_names (name # rest) names =
     (if \<not> valid_name name then Inl (InvalidName name)
      else if name \<in> names then Inl (DuplicateName name)
      else check_names rest (insert name names))"

definition interface_names :: "Settings \<Rightarrow> string list" where
  "interface_names s = s_sources s @ map ap_interface (s_aps s) @ [s_target s, s_tap s]"

definition validate :: "Settings \<Rightarrow> Error + unit" where
  "validate s =
     (if s_sources s = [] then Inl NoSources
      else if \<not> (1 \<le> length (s_aps s) \<and> length (s_aps s) \<le> MAX_LOCALS) then Inl ApCount
      else if \<not> length (s_peers s) \<le> MAX_PEERS then Inl TooManyPeers
      else case check_names (interface_names s) {} of
          Inl e \<Rightarrow> Inl e
        | Inr _ \<Rightarrow>
            if \<not> 0 < s_management_vlan s then Inl InvalidVlan
            else if \<not> 0 < packets_per_second (s_limits s) then Inl InvalidPps
            else Inr ())"

definition load :: "(string \<Rightarrow> string option) \<Rightarrow> (string \<Rightarrow> Settings option) \<Rightarrow> string \<Rightarrow> Error + Settings" where
  "load read_to_string from_str path =
     (case read_to_string path of
        None \<Rightarrow> Inl (Io ''read config'')
      | Some text \<Rightarrow>
          (case from_str text of
             None \<Rightarrow> Inl ParseError
           | Some settings \<Rightarrow> (case validate settings of Inl e \<Rightarrow> Inl e | Inr _ \<Rightarrow> Inr settings)))"

section \<open>Addresses from the system\<close>

record config_env =
  env_sysfs :: "string \<Rightarrow> string option"
  env_hostapd :: "nat \<Rightarrow> hostapd_env"

definition sysfs_mac :: "config_env \<Rightarrow> string \<Rightarrow> Error + mac_addr" where
  "sysfs_mac env name =
     (case env_sysfs env (''/sys/class/net/'' @ name @ ''/address'') of
        None \<Rightarrow> Inl (Io ''read MAC'')
      | Some text \<Rightarrow> mac (trim text))"

text \<open>
  The retry loop: \<open>left\<close> iterations to go, \<open>k\<close> the number of the attempt. The final \<open>expect\<close>
  panics when no attempt was made.
\<close>

fun retry_loop :: "(nat \<Rightarrow> Error + 'a) \<Rightarrow> nat \<Rightarrow> nat \<Rightarrow> Error option \<Rightarrow> Error + 'a" where
  "retry_loop attempt k 0 last_err = (case last_err of None \<Rightarrow> Inl Panic | Some e \<Rightarrow> Inl e)"
| "retry_loop attempt k (Suc left) last_err =
     (case attempt k of
        Inr v \<Rightarrow> Inr v
      | Inl e \<Rightarrow> retry_loop attempt (Suc k) left (Some e))"

definition bssids_with_retry :: "config_env \<Rightarrow> Error + mac_addr list" where
  "bssids_with_retry env = retry_loop (\<lambda>k. bssids (env_hostapd env k)) 0 30 None"

section \<open>Assembling the identity\<close>

definition default_r0kh_id :: "mac_addr \<Rightarrow> string" where
  "default_r0kh_id b = concat (map hex2 b)"

definition is_ascii :: "string \<Rightarrow> bool" where
  "is_ascii s \<longleftrightarrow> list_all (\<lambda>c. (of_char c :: nat) < 128) s"

definition make_local :: "mac_addr \<Rightarrow> string \<Rightarrow> Local" where
  "make_local b r0kh_id = Local_default\<lparr>local_bssid := b, r0kh_len := word_of_nat (length r0kh_id),
     r0kh := as_bytes r0kh_id @ drop (length r0kh_id) (r0kh Local_default)\<rparr>"

text \<open>One iteration of the AP loop, at index \<open>i\<close>.\<close>

definition add_local :: "config_env \<Rightarrow> nat \<Rightarrow> ApEntry \<Rightarrow> Filter \<Rightarrow> Error + Filter" where
  "add_local env i ap f =
     (case sysfs_mac env (ap_interface ap) of
        Inl e \<Rightarrow> Inl e
      | Inr b \<Rightarrow>
          let r0kh_id = (case ap_r0kh_id ap of Some x \<Rightarrow> x | None \<Rightarrow> default_r0kh_id b)
          in if r0kh_id = [] \<or> MAX_R0KH < length r0kh_id \<or> \<not> is_ascii r0kh_id then Inl InvalidR0kh
             else if b = replicate 6 255 then Inl BroadcastBssid
             else if length (locals f) < i then Inl Panic
             else if list_ex (\<lambda>l. local_bssid l = b) (take i (locals f)) then Inl DuplicateBssid
             else if length (locals f) \<le> i then Inl Panic
             else Inr (f\<lparr>locals := (locals f)[i := make_local b r0kh_id]\<rparr>))"

fun add_locals :: "config_env \<Rightarrow> nat \<Rightarrow> ApEntry list \<Rightarrow> Filter \<Rightarrow> Error + Filter" where
  "add_locals env i [] f = Inr f"
| "add_locals env i (ap # aps) f =
     (case add_local env i ap f of Inl e \<Rightarrow> Inl e | Inr f' \<Rightarrow> add_locals env (Suc i) aps f')"

text \<open>\<open>p.bssids.iter().map(mac).collect::<Result<_>>()\<close>: all of them, or the first error.\<close>

fun parse_macs :: "string list \<Rightarrow> Error + mac_addr list" where
  "parse_macs [] = Inr []"
| "parse_macs (b # bs) =
     (case mac b of
        Inl e \<Rightarrow> Inl e
      | Inr m \<Rightarrow> (case parse_macs bs of Inl e \<Rightarrow> Inl e | Inr ms \<Rightarrow> Inr (m # ms)))"

text \<open>The BSSIDs of a peer entry, with the lazily filled cache of the discovered ones.\<close>

definition entry_bssid_list ::
    "config_env \<Rightarrow> PeerEntry \<Rightarrow> mac_addr list option \<Rightarrow> Error + mac_addr list \<times> mac_addr list option" where
  "entry_bssid_list env p all_bssids =
     (if entry_bssids p = [] then
        case all_bssids of
          Some v \<Rightarrow> Inr (v, all_bssids)
        | None \<Rightarrow> (case bssids_with_retry env of Inl e \<Rightarrow> Inl e | Inr v \<Rightarrow> Inr (v, Some v))
      else case parse_macs (entry_bssids p) of Inl e \<Rightarrow> Inl e | Inr v \<Rightarrow> Inr (v, all_bssids))"

text \<open>The loop that fills \<open>peer.bssids\<close>, at index \<open>j\<close> of the list \<open>bs\<close>.\<close>

fun fill_bssids :: "mac_addr list \<Rightarrow> nat \<Rightarrow> mac_addr list \<Rightarrow> Peer \<Rightarrow> Error + Peer" where
  "fill_bssids bs j [] peer = Inr peer"
| "fill_bssids bs j (b # rest) peer =
     (if b = replicate 6 255 then Inl BroadcastPeerBssid
      else if b \<in> set (take j bs) then Inl DuplicatePeerBssid
      else if length (peer_bssids peer) \<le> j then Inl Panic
      else fill_bssids bs (Suc j) rest (peer\<lparr>peer_bssids := (peer_bssids peer)[j := b]\<rparr>))"

definition add_peer ::
    "config_env \<Rightarrow> nat \<Rightarrow> PeerEntry \<Rightarrow> Filter \<times> mac_addr list option \<Rightarrow>
     Error + Filter \<times> mac_addr list option" where
  "add_peer env i p st =
     (case st of (f, all_bssids) \<Rightarrow>
      case mac (entry_mac p) of
        Inl e \<Rightarrow> Inl e
      | Inr m \<Rightarrow>
          if m = replicate 6 255 then Inl BroadcastPeer
          else if length (peers f) < i then Inl Panic
          else if list_ex (\<lambda>q. peer_mac q = m) (take i (peers f)) then Inl DuplicatePeer
          else case entry_bssid_list env p all_bssids of
              Inl e \<Rightarrow> Inl e
            | Inr (bs, all_bssids') \<Rightarrow>
                if bs = [] then Inl NoPeerBssids
                else if MAX_PEER_BSSIDS < length bs then Inl TooManyBssids
                else case fill_bssids bs 0 bs
                    (Peer_default\<lparr>peer_mac := m, bssid_count := word_of_nat (length bs)\<rparr>) of
                    Inl e \<Rightarrow> Inl e
                  | Inr peer \<Rightarrow>
                      if length (peers f) \<le> i then Inl Panic
                      else Inr (f\<lparr>peers := (peers f)[i := peer]\<rparr>, all_bssids'))"

fun add_peers ::
    "config_env \<Rightarrow> nat \<Rightarrow> PeerEntry list \<Rightarrow> Filter \<times> mac_addr list option \<Rightarrow>
     Error + Filter \<times> mac_addr list option" where
  "add_peers env i [] st = Inr st"
| "add_peers env i (p # ps) st =
     (case add_peer env i p st of Inl e \<Rightarrow> Inl e | Inr st' \<Rightarrow> add_peers env (Suc i) ps st')"

definition settings_filter :: "config_env \<Rightarrow> Settings \<Rightarrow> Error + Filter" where
  "settings_filter env s =
     (case sysfs_mac env (s_target s) of
        Inl e \<Rightarrow> Inl e
      | Inr t \<Rightarrow>
          let f = Filter_default\<lparr>target_mac := t, management_vlan := s_management_vlan s,
                peer_count := word_of_nat (length (s_peers s)),
                local_count := word_of_nat (length (s_aps s))\<rparr>
          in case add_locals env 0 (s_aps s) f of
              Inl e \<Rightarrow> Inl e
            | Inr f1 \<Rightarrow>
                (case add_peers env 0 (s_peers s) (f1, None) of
                   Inl e \<Rightarrow> Inl e
                 | Inr (f2, _) \<Rightarrow> Inr f2))"

section \<open>What the loops build\<close>

definition ap_local :: "config_env \<Rightarrow> ApEntry \<Rightarrow> Local \<Rightarrow> bool" where
  "ap_local env ap l \<longleftrightarrow> (\<exists>b ident. sysfs_mac env (ap_interface ap) = Inr b \<and>
     ident = (case ap_r0kh_id ap of Some x \<Rightarrow> x | None \<Rightarrow> default_r0kh_id b) \<and>
     ident \<noteq> [] \<and> length ident \<le> MAX_R0KH \<and> is_ascii ident \<and> b \<noteq> BROADCAST \<and>
     l = make_local b ident)"

definition entry_bssids_are :: "config_env \<Rightarrow> PeerEntry \<Rightarrow> mac_addr list \<Rightarrow> bool" where
  "entry_bssids_are env p bs \<longleftrightarrow>
     (if entry_bssids p = [] then bssids_with_retry env = Inr bs else parse_macs (entry_bssids p) = Inr bs)"

definition make_peer :: "mac_addr \<Rightarrow> mac_addr list \<Rightarrow> Peer" where
  "make_peer m bs = Peer_default\<lparr>peer_mac := m, bssid_count := word_of_nat (length bs),
     peer_bssids := bs @ drop (length bs) (peer_bssids Peer_default)\<rparr>"

definition entry_peer :: "config_env \<Rightarrow> PeerEntry \<Rightarrow> Peer \<Rightarrow> bool" where
  "entry_peer env p peer \<longleftrightarrow> (\<exists>m bs. mac (entry_mac p) = Inr m \<and> m \<noteq> BROADCAST \<and>
     entry_bssids_are env p bs \<and> bs \<noteq> [] \<and> length bs \<le> MAX_PEER_BSSIDS \<and>
     distinct bs \<and> BROADCAST \<notin> set bs \<and> peer = make_peer m bs)"

lemma update_next:
  "i < length xs \<Longrightarrow> take (Suc i) (xs[i := y]) = take i xs @ [y]"
  "i < length xs \<Longrightarrow> drop (Suc i) (xs[i := y]) = drop (Suc i) xs"
  by (simp_all add: take_Suc_conv_app_nth)

lemma add_local_Inr:
  assumes "add_local env i ap f = Inr f'"
  obtains l where "ap_local env ap l" "f' = f\<lparr>locals := (locals f)[i := l]\<rparr>" "i < length (locals f)"
    "local_bssid l \<notin> local_bssid ` set (take i (locals f))"
  using assms
  by (auto simp: add_local_def ap_local_def Let_def make_local_def BROADCAST_def list_ex_iff image_iff
      split: sum.splits if_splits)

lemma add_locals_Inr:
  "add_locals env i aps f = Inr f' \<Longrightarrow> i \<le> length (locals f) \<Longrightarrow>
    \<exists>ls. list_all2 (ap_local env) aps ls \<and> i + length ls \<le> length (locals f) \<and>
      f' = f\<lparr>locals := take i (locals f) @ ls @ drop (i + length ls) (locals f)\<rparr> \<and>
      (distinct (map local_bssid (take i (locals f))) \<longrightarrow> distinct (map local_bssid (take i (locals f) @ ls)))"
proof (induction aps arbitrary: i f)
  case Nil
  then show ?case by (intro exI [of _ "[]"]) simp
next
  case (Cons ap aps)
  from Cons.prems(1) obtain g where g: "add_local env i ap f = Inr g" "add_locals env (Suc i) aps g = Inr f'"
    by (auto split: sum.splits)
  from g(1) obtain l where l: "ap_local env ap l" "g = f\<lparr>locals := (locals f)[i := l]\<rparr>"
    "i < length (locals f)" "local_bssid l \<notin> local_bssid ` set (take i (locals f))"
    by (rule add_local_Inr)
  from Cons.IH [OF g(2)] l(2,3) obtain ls where ls: "list_all2 (ap_local env) aps ls"
    "Suc i + length ls \<le> length (locals f)"
    "f' = f\<lparr>locals := (take i (locals f) @ [l]) @ ls @ drop (Suc i + length ls) ((locals f)[i := l])\<rparr>"
    "distinct (map local_bssid (take i (locals f) @ [l])) \<longrightarrow>
      distinct (map local_bssid ((take i (locals f) @ [l]) @ ls))"
    by (auto simp: update_next)
  then show ?case
    using l by (intro exI [of _ "l # ls"]) auto
qed

lemma fill_bssids_Inr:
  "fill_bssids bs j rest peer = Inr peer' \<Longrightarrow> rest = drop j bs \<Longrightarrow> j \<le> length bs \<Longrightarrow>
    j \<le> length (peer_bssids peer) \<Longrightarrow>
    peer' = peer\<lparr>peer_bssids := take j (peer_bssids peer) @ rest @ drop (j + length rest) (peer_bssids peer)\<rparr> \<and>
    BROADCAST \<notin> set rest \<and> (distinct (take j bs) \<longrightarrow> distinct bs)"
proof (induction rest arbitrary: j peer)
  case Nil
  then show ?case by simp
next
  case (Cons b rest)
  have j: "j < length bs" "bs ! j = b" "rest = drop (Suc j) bs"
    using Cons.prems(2) by (metis drop_eq_Nil list.distinct(1) not_le, metis nth_via_drop,
        metis list.sel(3) drop_Suc tl_drop)
  have b: "b \<noteq> BROADCAST" "b \<notin> set (take j bs)" "j < length (peer_bssids peer)"
    and rec: "fill_bssids bs (Suc j) rest (peer\<lparr>peer_bssids := (peer_bssids peer)[j := b]\<rparr>) = Inr peer'"
    using Cons.prems(1) by (auto simp: BROADCAST_def split: if_splits)
  have "take (Suc j) bs = take j bs @ [b]" using j by (simp add: take_Suc_conv_app_nth)
  with Cons.IH [OF rec j(3)] j b show ?case by (auto simp: update_next)
qed

definition cache_ok :: "config_env \<Rightarrow> mac_addr list option \<Rightarrow> bool" where
  "cache_ok env cache \<longleftrightarrow> (\<forall>v. cache = Some v \<longrightarrow> bssids_with_retry env = Inr v)"

lemma entry_bssid_list_Inr:
  assumes "entry_bssid_list env p cache = Inr (bs, cache')" "cache_ok env cache"
  shows "entry_bssids_are env p bs" "cache_ok env cache'"
  using assms
  by (auto simp: cache_ok_def entry_bssid_list_def entry_bssids_are_def split: if_splits option.splits sum.splits)

lemma add_peer_Inr:
  assumes "add_peer env i p (f, cache) = Inr (f', cache')"
    and "cache_ok env cache"
  obtains q where "entry_peer env p q" "f' = f\<lparr>peers := (peers f)[i := q]\<rparr>" "i < length (peers f)"
    "peer_mac q \<notin> peer_mac ` set (take i (peers f))"
    "cache_ok env cache'"
proof -
  from assms(1) obtain m bs q where m: "mac (entry_mac p) = Inr m" "m \<noteq> BROADCAST"
    "m \<notin> peer_mac ` set (take i (peers f))"
    and bs: "entry_bssid_list env p cache = Inr (bs, cache')" "bs \<noteq> []" "length bs \<le> MAX_PEER_BSSIDS"
    and q: "fill_bssids bs 0 bs (Peer_default\<lparr>peer_mac := m, bssid_count := word_of_nat (length bs)\<rparr>) = Inr q"
    and f': "f' = f\<lparr>peers := (peers f)[i := q]\<rparr>" "i < length (peers f)"
    by (fastforce simp: add_peer_def BROADCAST_def list_ex_iff image_iff split: sum.splits if_splits prod.splits)
  have mk: "q = make_peer m bs" "BROADCAST \<notin> set bs" "distinct bs"
    using fill_bssids_Inr [OF q] by (auto simp: make_peer_def)
  have "entry_peer env p q"
    using m bs mk entry_bssid_list_Inr(1) [OF bs(1) assms(2)] by (auto simp: entry_peer_def)
  moreover have "peer_mac q \<notin> peer_mac ` set (take i (peers f))"
    using mk(1) m(3) by (simp add: make_peer_def)
  ultimately show thesis using that f' entry_bssid_list_Inr(2) [OF bs(1) assms(2)] by blast
qed

lemma add_peers_Inr:
  "add_peers env i ps (f, cache) = Inr (f', cache') \<Longrightarrow> i \<le> length (peers f) \<Longrightarrow>
    cache_ok env cache \<Longrightarrow>
    \<exists>qs. list_all2 (entry_peer env) ps qs \<and> i + length qs \<le> length (peers f) \<and>
      f' = f\<lparr>peers := take i (peers f) @ qs @ drop (i + length qs) (peers f)\<rparr> \<and>
      (distinct (map peer_mac (take i (peers f))) \<longrightarrow> distinct (map peer_mac (take i (peers f) @ qs)))"
proof (induction ps arbitrary: i f cache)
  case Nil
  then show ?case by (intro exI [of _ "[]"]) simp
next
  case (Cons p ps)
  from Cons.prems(1) obtain g c where g: "add_peer env i p (f, cache) = Inr (g, c)"
    "add_peers env (Suc i) ps (g, c) = Inr (f', cache')"
    by (auto split: sum.splits)
  from g(1) Cons.prems(3) obtain q where q: "entry_peer env p q" "g = f\<lparr>peers := (peers f)[i := q]\<rparr>"
    "i < length (peers f)" "peer_mac q \<notin> peer_mac ` set (take i (peers f))"
    "cache_ok env c"
    by (rule add_peer_Inr)
  from Cons.IH [OF g(2) _ q(5)] q(2,3) obtain qs where qs: "list_all2 (entry_peer env) ps qs"
    "Suc i + length qs \<le> length (peers f)"
    "f' = f\<lparr>peers := (take i (peers f) @ [q]) @ qs @ drop (Suc i + length qs) ((peers f)[i := q])\<rparr>"
    "distinct (map peer_mac (take i (peers f) @ [q])) \<longrightarrow>
      distinct (map peer_mac ((take i (peers f) @ [q]) @ qs))"
    by (auto simp: update_next)
  then show ?case
    using q by (intro exI [of _ "q # qs"]) auto
qed

section \<open>Shapes of the results\<close>

lemma sysfs_mac_length: "sysfs_mac env n = Inr b \<Longrightarrow> length b = 6"
  by (auto simp: sysfs_mac_def dest: mac_length split: option.splits)

lemma retry_loop_Inr:
  "retry_loop attempt k n err = Inr v \<longleftrightarrow>
    (\<exists>j<n. attempt (k + j) = Inr v \<and> (\<forall>i<j. \<exists>e. attempt (k + i) = Inl e))"
proof (induction n arbitrary: k err)
  case 0
  then show ?case by (simp split: option.splits)
next
  case (Suc n)
  show ?case
  proof (cases "attempt k")
    case (Inl e)
    have "(\<exists>j<Suc n. attempt (k + j) = Inr v \<and> (\<forall>i<j. \<exists>e. attempt (k + i) = Inl e)) \<longleftrightarrow>
        (\<exists>j<n. attempt (Suc k + j) = Inr v \<and> (\<forall>i<j. \<exists>e. attempt (Suc k + i) = Inl e))"
      using Inl by (auto simp: Ex_less_Suc2 All_less_Suc2)
    with Inl show ?thesis by (simp add: Suc.IH)
  next
    case (Inr w)
    then show ?thesis by (auto simp: Ex_less_Suc2 All_less_Suc2)
  qed
qed

lemma retry_loop_Inl:
  "retry_loop attempt k (Suc n) err = Inl e \<longleftrightarrow>
    (\<forall>j\<le>n. \<exists>e'. attempt (k + j) = Inl e') \<and> attempt (k + n) = Inl e"
proof (induction n arbitrary: k err)
  case 0
  then show ?case by (auto split: sum.splits)
next
  case (Suc n)
  have "(\<forall>j\<le>Suc n. \<exists>e'. attempt (k + j) = Inl e') \<longleftrightarrow>
      (\<exists>e'. attempt k = Inl e') \<and> (\<forall>j\<le>n. \<exists>e'. attempt (Suc k + j) = Inl e')"
    by (auto simp: All_less_Suc2 simp flip: less_Suc_eq_le)
  then show ?case
    using Suc.IH [of "Suc k"] by (auto split: sum.splits simp del: retry_loop.simps(2) simp: retry_loop.simps(2) [of attempt k])
qed

lemma bssids_with_retry_lengths:
  "bssids_with_retry env = Inr bs \<Longrightarrow> list_all (\<lambda>b. length b = 6) bs"
  by (auto simp: bssids_with_retry_def retry_loop_Inr elim: bssids_Inr)

lemma parse_macs_lengths: "parse_macs ss = Inr bs \<Longrightarrow> list_all (\<lambda>b. length b = 6) bs"
  by (induction ss arbitrary: bs) (auto dest: mac_length split: sum.splits)

lemma entry_bssids_lengths: "entry_bssids_are env p bs \<Longrightarrow> list_all (\<lambda>b. length b = 6) bs"
  by (auto simp: entry_bssids_are_def dest: bssids_with_retry_lengths parse_macs_lengths split: if_splits)

lemma length_as_bytes [simp]: "length (as_bytes s) = length s"
  by (simp add: as_bytes_def)

lemma ap_local_wf:
  assumes "ap_local env ap l"
  shows "wf_Local l"
proof -
  from assms obtain b ident where l: "l = make_local b ident" "length ident \<le> MAX_R0KH" "length b = 6"
    by (auto simp: ap_local_def dest: sysfs_mac_length)
  then have "unat (word_of_nat (length ident) :: u8) = length ident"
    by (simp add: unat_of_nat rrb_consts)
  with l show ?thesis
    by (simp add: wf_Local_def make_local_def Local_default_def rrb_consts)
qed

lemma make_local_r0kh: "length ident \<le> MAX_R0KH \<Longrightarrow> local_r0kh (make_local b ident) = as_bytes ident"
  by (simp add: local_r0kh_def make_local_def unat_of_nat rrb_consts)

lemma make_local_bssid [simp]: "local_bssid (make_local b ident) = b"
  by (simp add: make_local_def)

lemma make_peer_mac [simp]: "peer_mac (make_peer m bs) = m"
  by (simp add: make_peer_def)

lemma entry_peer_wf:
  assumes "entry_peer env p q"
  shows "wf_Peer q"
proof -
  from assms obtain m bs where q: "q = make_peer m bs" "length bs \<le> 8" "length m = 6"
    "list_all (\<lambda>b. length b = 6) bs"
    by (auto simp: entry_peer_def rrb_consts dest: mac_length entry_bssids_lengths)
  then have "unat (word_of_nat (length bs) :: u8) = length bs" by (simp add: unat_of_nat)
  with q show ?thesis
    by (auto simp: wf_Peer_def make_peer_def Peer_default_def rrb_consts list_all_iff)
qed

lemma make_peer_bss: "length bs \<le> MAX_PEER_BSSIDS \<Longrightarrow> peer_bss_list (make_peer m bs) = bs"
  by (simp add: peer_bss_list_def make_peer_def unat_of_nat rrb_consts)

lemma list_all2_right: "list_all2 P xs ys \<Longrightarrow> (\<And>x y. P x y \<Longrightarrow> Q y) \<Longrightarrow> list_all Q ys"
  by (induction rule: list_all2_induct) auto

lemma validate_counts:
  assumes "validate s = Inr ()"
  shows "length (s_aps s) \<le> 8" "length (s_peers s) \<le> 8" "s_aps s \<noteq> []" "0 < s_management_vlan s"
  using assms by (auto simp: validate_def rrb_consts split: if_splits sum.splits)

definition assembled :: "config_env \<Rightarrow> Settings \<Rightarrow> Filter \<Rightarrow> bool" where
  "assembled env s f \<longleftrightarrow> wf_Filter f \<and> distinct_peers f \<and>
     distinct (map local_bssid (filter_locals f)) \<and>
     management_vlan f = s_management_vlan s \<and> sysfs_mac env (s_target s) = Inr (target_mac f) \<and>
     list_all2 (ap_local env) (s_aps s) (filter_locals f) \<and>
     list_all2 (entry_peer env) (s_peers s) (filter_peers f)"

lemma settings_filter_assembled:
  assumes "validate s = Inr ()" "settings_filter env s = Inr f"
  shows "assembled env s f"
proof -
  note cnt = validate_counts [OF assms(1)]
  from assms(2) obtain t f1 f2 c where t: "sysfs_mac env (s_target s) = Inr t"
    and f1: "add_locals env 0 (s_aps s) (Filter_default\<lparr>target_mac := t, management_vlan := s_management_vlan s,
        peer_count := word_of_nat (length (s_peers s)), local_count := word_of_nat (length (s_aps s))\<rparr>) = Inr f1"
    and f2: "add_peers env 0 (s_peers s) (f1, None) = Inr (f, c)"
    by (auto simp: settings_filter_def Let_def split: sum.splits)
  from add_locals_Inr [OF f1] obtain ls where ls: "list_all2 (ap_local env) (s_aps s) ls"
    "f1 = Filter_default\<lparr>target_mac := t, management_vlan := s_management_vlan s,
        peer_count := word_of_nat (length (s_peers s)), local_count := word_of_nat (length (s_aps s)),
        locals := ls @ drop (length ls) (locals Filter_default)\<rparr>"
    "distinct (map local_bssid ls)" by auto
  have "cache_ok env None" by (simp add: cache_ok_def)
  from add_peers_Inr [OF f2 _ this] obtain qs where qs: "list_all2 (entry_peer env) (s_peers s) qs"
    "f = f1\<lparr>peers := qs @ drop (length qs) (peers f1)\<rparr>" "distinct (map peer_mac qs)" by auto
  have len: "length ls = length (s_aps s)" "length qs = length (s_peers s)"
    using ls(1) qs(1) by (auto dest: list_all2_lengthD)
  have un: "unat (word_of_nat (length ls) :: u8) = length ls" "unat (word_of_nat (length qs) :: u8) = length qs"
    using cnt len by (simp_all add: unat_of_nat)
  have fl: "filter_locals f = ls" "filter_peers f = qs"
    using un len by (simp_all add: filter_locals_def filter_peers_def qs(2) ls(2))
  have "list_all wf_Local ls" "list_all wf_Peer qs"
    using ls(1) qs(1) by (auto intro: list_all2_right ap_local_wf entry_peer_wf)
  then have "list_all wf_Local (locals f)" "list_all wf_Peer (peers f)"
    using wf_Filter_default by (auto simp: qs(2) ls(2) wf_Filter_def list_all_iff dest: in_set_dropD)
  moreover have "length (target_mac f) = 6" "length (locals f) = 8" "length (peers f) = 8"
    using sysfs_mac_length [OF t] cnt len by (simp_all add: qs(2) ls(2) Filter_default_def rrb_consts)
  ultimately have "wf_Filter f"
    using un cnt len by (simp add: wf_Filter_def rrb_consts) (simp add: qs(2) ls(2))
  with fl ls(1,3) qs(1,3) t show ?thesis
    by (simp add: assembled_def distinct_peers_def) (simp add: qs(2) ls(2))
qed

section \<open>No panics after validation\<close>

lemma sysfs_mac_no_panic: "sysfs_mac env n \<noteq> Inl Panic"
  by (auto simp: sysfs_mac_def dest: mac_error split: option.splits)

lemma bssids_no_panic: "bssids env \<noteq> Inl Panic"
proof -
  have "bssid env n \<noteq> Inl Panic" for n
    by (auto simp: bssid_def get_config_def Let_def dest: mac_error split: option.splits sum.splits if_splits)
  then have "collect_bssids env es out \<noteq> Inl Panic" for es out
    by (induction es arbitrary: out) (auto split: option.splits sum.splits)
  then show ?thesis by (auto simp: bssids_def split: option.splits sum.splits)
qed

lemma bssids_with_retry_no_panic: "bssids_with_retry env \<noteq> Inl Panic"
  using retry_loop_Inl [of "\<lambda>k. bssids (env_hostapd env k)" 0 29 None] bssids_no_panic
  by (auto simp: bssids_with_retry_def)

lemma add_local_no_panic: "i < length (locals f) \<Longrightarrow> add_local env i ap f \<noteq> Inl Panic"
  using sysfs_mac_no_panic by (auto simp: add_local_def Let_def split: sum.splits)

lemma add_locals_no_panic: "i + length aps \<le> length (locals f) \<Longrightarrow> add_locals env i aps f \<noteq> Inl Panic"
proof (induction aps arbitrary: i f)
  case (Cons ap aps)
  then show ?case
    using add_local_no_panic [of i f env ap]
    by (auto split: sum.splits elim!: add_local_Inr)
qed simp

lemma fill_bssids_no_panic:
  "j + length rest \<le> length (peer_bssids peer) \<Longrightarrow> fill_bssids bs j rest peer \<noteq> Inl Panic"
  by (induction rest arbitrary: j peer) auto

lemma parse_macs_no_panic: "parse_macs ss \<noteq> Inl Panic"
  by (induction ss) (auto dest: mac_error split: sum.splits)

lemma add_peer_no_panic:
  assumes "i < length (peers f)"
  shows "add_peer env i p (f, c) \<noteq> Inl Panic"
proof -
  have "entry_bssid_list env p c \<noteq> Inl Panic"
    using bssids_with_retry_no_panic parse_macs_no_panic
    by (auto simp: entry_bssid_list_def split: option.splits sum.splits)
  moreover have "fill_bssids bs 0 bs (Peer_default\<lparr>peer_mac := m, bssid_count := n\<rparr>) \<noteq> Inl Panic"
    if "length bs \<le> MAX_PEER_BSSIDS" for bs m n
    using that by (intro fill_bssids_no_panic) (simp add: Peer_default_def)
  ultimately show ?thesis
    using assms by (auto simp: add_peer_def dest: mac_error split: sum.splits)
qed

lemma add_peers_no_panic:
  "i + length ps \<le> length (peers f) \<Longrightarrow> cache_ok env c \<Longrightarrow> add_peers env i ps (f, c) \<noteq> Inl Panic"
proof (induction ps arbitrary: i f c)
  case (Cons p ps)
  then show ?case
    using add_peer_no_panic [of i f env p c]
    by (auto split: sum.splits elim!: add_peer_Inr)
qed simp

section \<open>Names\<close>

lemma check_names_iff:
  "check_names ns seen = Inr () \<longleftrightarrow> list_all valid_name ns \<and> distinct ns \<and> set ns \<inter> seen = {}"
  by (induction ns arbitrary: seen) auto

lemma validate_iff:
  "validate s = Inr () \<longleftrightarrow> s_sources s \<noteq> [] \<and> s_aps s \<noteq> [] \<and> length (s_aps s) \<le> MAX_LOCALS \<and>
    length (s_peers s) \<le> MAX_PEERS \<and> list_all valid_name (interface_names s) \<and>
    distinct (interface_names s) \<and> 0 < s_management_vlan s \<and> 0 < packets_per_second (s_limits s)"
proof -
  have "check_names (interface_names s) {} = Inr () \<longleftrightarrow>
      list_all valid_name (interface_names s) \<and> distinct (interface_names s)"
    by (simp add: check_names_iff)
  then show ?thesis
    by (cases "check_names (interface_names s) {}") (auto simp: validate_def Suc_le_eq split: if_splits)
qed

lemma hex_digit_ascii: "n < 16 \<Longrightarrow> (of_char (hex_digit n) :: nat) < 128"
proof -
  have "list_all (\<lambda>n. (of_char (hex_digit n) :: nat) < 128) [0..<16]" by code_simp
  then show "n < 16 \<Longrightarrow> ?thesis" by (simp add: list_all_iff)
qed

lemma default_r0kh_id_ok:
  assumes "length b = 6"
  shows "length (default_r0kh_id b) = 12" "is_ascii (default_r0kh_id b)"
proof -
  have "length (concat (map hex2 xs)) = 2 * length xs" for xs
    by (induction xs) (simp_all add: hex2_def)
  then show "length (default_r0kh_id b) = 12" using assms by (simp add: default_r0kh_id_def)
  have "unat (x :: u8) div 16 < 16" for x using unat_u8_lt [of x] by linarith
  then show "is_ascii (default_r0kh_id b)"
    by (auto simp: is_ascii_def default_r0kh_id_def hex2_def list_all_iff intro: hex_digit_ascii)
qed

section \<open>A configured system\<close>

definition demo_settings :: Settings where
  "demo_settings = (minimal_settings [''eth1'', ''eth2'']
      [\<lparr>ap_interface = ''wifi1ap4'', ap_r0kh_id = None\<rparr>])
     \<lparr>s_peers := [\<lparr>entry_mac = ''1c:0b:8b:ea:60:c9'', entry_bssids = [''1c:0b:8b:ea:60:c9'']\<rparr>,
        \<lparr>entry_mac = ''1c:0b:8b:ea:60:c8'', entry_bssids = []\<rparr>]\<rparr>"

definition demo_config_env :: config_env where
  "demo_config_env = \<lparr>env_sysfs = (\<lambda>_. Some (''22:0b:8b:ea:60:c9'' @ [newline])),
     env_hostapd = (\<lambda>_. demo_env)\<rparr>"

lemma demo_valid: "validate demo_settings = Inr ()"
  by code_simp

lemma demo_sysfs: "sysfs_mac demo_config_env n = Inr [0x22, 0x0b, 0x8b, 0xea, 0x60, 0xc9]"
proof -
  have "mac (trim (''22:0b:8b:ea:60:c9'' @ [newline])) = Inr [0x22, 0x0b, 0x8b, 0xea, 0x60, 0xc9]"
    by code_simp
  then show ?thesis by (simp add: sysfs_mac_def demo_config_env_def)
qed

lemma demo_filter_ok: "\<not> isl (settings_filter demo_config_env demo_settings)"
  by code_simp

text \<open>Assembling the filter of validated settings indexes no array past its end.\<close>

lemma filter_no_panic:
  assumes "validate s = Inr ()"
  shows "settings_filter env s \<noteq> Inl Panic"
proof -
  note cnt = validate_counts [OF assms]
  have "add_locals env 0 (s_aps s) f \<noteq> Inl Panic" if "locals f = locals Filter_default" for f
    using cnt that by (intro add_locals_no_panic) (simp add: Filter_default_def rrb_consts)
  moreover have "add_peers env 0 (s_peers s) (f, None) \<noteq> Inl Panic" if "length (peers f) = 8" for f
    using cnt that by (intro add_peers_no_panic) (simp_all add: cache_ok_def)
  moreover have "length (peers f1) = 8"
    if "add_locals env 0 (s_aps s) f = Inr f1" "peers f = peers Filter_default" for f f1
    using add_locals_Inr [OF that(1)] that(2) by (auto simp: Filter_default_def rrb_consts)
  ultimately show ?thesis
    using sysfs_mac_no_panic by (auto simp: settings_filter_def Let_def split: sum.splits)
qed

section \<open>Properties\<close>

text \<open>
  C16. Assembling the filter of validated settings cannot panic, and the filter it gives is well
  formed, which is what the validator's guarantees rest on, and says what the settings say: peers
  with pairwise different MACs, locals with pairwise different BSSIDs, the configured VLAN, the
  target's MAC; one local per AP entry, with its BSSID and R0KH-ID; one peer per peer entry, with its
  MAC and a non-empty list of at most eight distinct BSSIDs, so that no configured peer is ever a
  wildcard.
\<close>

theorem filter_assembled_faithfully:
  assumes "validate s = Inr ()"
  shows "settings_filter env s \<noteq> Inl Panic \<and> (\<forall>f. settings_filter env s = Inr f \<longrightarrow>
    wf_Filter f \<and> distinct_peers f \<and> distinct (map local_bssid (filter_locals f)) \<and>
    management_vlan f = s_management_vlan s \<and> sysfs_mac env (s_target s) = Inr (target_mac f) \<and>
    list_all2 (\<lambda>ap l. sysfs_mac env (ap_interface ap) = Inr (local_bssid l) \<and> local_bssid l \<noteq> BROADCAST \<and>
        local_r0kh l = as_bytes (case ap_r0kh_id ap of Some x \<Rightarrow> x | None \<Rightarrow> default_r0kh_id (local_bssid l)))
      (s_aps s) (filter_locals f) \<and>
    list_all2 (\<lambda>p q. mac (entry_mac p) = Inr (peer_mac q) \<and> peer_mac q \<noteq> BROADCAST \<and>
        entry_bssids_are env p (peer_bss_list q) \<and> peer_bss_list q \<noteq> [] \<and>
        distinct (peer_bss_list q) \<and> BROADCAST \<notin> set (peer_bss_list q))
      (s_peers s) (filter_peers f))"
proof -
  have a: "settings_filter env s = Inr f \<Longrightarrow> assembled env s f" for f by (rule settings_filter_assembled [OF assms])
  have l: "ap_local env ap l \<Longrightarrow> sysfs_mac env (ap_interface ap) = Inr (local_bssid l) \<and>
      local_bssid l \<noteq> BROADCAST \<and>
      local_r0kh l = as_bytes (case ap_r0kh_id ap of Some x \<Rightarrow> x | None \<Rightarrow> default_r0kh_id (local_bssid l))"
    for ap l
    by (cases "ap_r0kh_id ap") (auto simp: ap_local_def make_local_r0kh)
  have q: "entry_peer env p q \<Longrightarrow> mac (entry_mac p) = Inr (peer_mac q) \<and> peer_mac q \<noteq> BROADCAST \<and>
      entry_bssids_are env p (peer_bss_list q) \<and> peer_bss_list q \<noteq> [] \<and>
      distinct (peer_bss_list q) \<and> BROADCAST \<notin> set (peer_bss_list q)" for p q
    by (auto simp: entry_peer_def make_peer_bss)
  show ?thesis
    using a l q filter_no_panic [OF assms] by (auto simp: assembled_def elim!: list_all2_mono)
qed

lemma demo_filter: "settings_filter demo_config_env demo_settings =
    Inr (projr (settings_filter demo_config_env demo_settings))"
  using demo_filter_ok by (cases "settings_filter demo_config_env demo_settings") auto

theorem filter_assembled_faithfully_witness:
  "wf_Filter (projr (settings_filter demo_config_env demo_settings)) \<and>
   distinct_peers (projr (settings_filter demo_config_env demo_settings))"
  using filter_assembled_faithfully [OF demo_valid, of demo_config_env] demo_filter by blast

text \<open>
  C31. Structural validation accepts exactly the settings with at least one source, one to eight
  APs, at most eight peers, interface names that are all valid and pairwise different, a non-zero
  VLAN and a non-zero packet rate.
\<close>

theorem validate_accepts_exactly:
  "validate s = Inr () \<longleftrightarrow> s_sources s \<noteq> [] \<and> s_aps s \<noteq> [] \<and> length (s_aps s) \<le> MAX_LOCALS \<and>
    length (s_peers s) \<le> MAX_PEERS \<and> list_all valid_name (interface_names s) \<and>
    distinct (interface_names s) \<and> 0 < s_management_vlan s \<and> 0 < packets_per_second (s_limits s)"
  by (rule validate_iff)

text \<open>
  C32. The MAC parser accepts exactly six colon-separated octets, where an octet is two hex digits
  of any case or, because the integer parser allows a sign, a plus sign and one hex digit.
\<close>

theorem mac_accepts_exactly:
  "mac s = Inr bs \<longleftrightarrow> (\<exists>ps. length ps = 6 \<and> s = join (CHR '':'') ps \<and> list_all2 octet ps bs)"
  by (rule mac_iff)

text \<open>
  C33. The hostapd retry returns the answer of the first successful attempt among thirty, and fails
  only when all thirty fail, with the error of the last one.
\<close>

theorem retry_first_success:
  "(bssids_with_retry env = Inr v \<longleftrightarrow>
     (\<exists>j<30. bssids (env_hostapd env j) = Inr v \<and> (\<forall>i<j. isl (bssids (env_hostapd env i))))) \<and>
   (bssids_with_retry env = Inl e \<longleftrightarrow>
     (\<forall>i<30. isl (bssids (env_hostapd env i))) \<and> bssids (env_hostapd env 29) = Inl e)"
proof -
  have isl: "(\<exists>e. x = Inl e) \<longleftrightarrow> isl x" for x :: "Error + mac_addr list"
    by (auto simp: isl_def)
  have "(\<forall>j\<le>29. P j) \<longleftrightarrow> (\<forall>j<30. P j)" for P :: "nat \<Rightarrow> bool"
    by (metis Suc_numeral less_Suc_eq_le semiring_norm(5,8))
  then show ?thesis
    using retry_loop_Inr [of "\<lambda>k. bssids (env_hostapd env k)" 0 30 None v]
      retry_loop_Inl [of "\<lambda>k. bssids (env_hostapd env k)" 0 29 None e]
    by (simp add: bssids_with_retry_def isl)
qed

theorem retry_first_success_witness:
  "bssids_with_retry demo_config_env = Inr [[0x22, 0x0b, 0x8b, 0xea, 0x60, 0xc9]]"
proof -
  have "bssids (env_hostapd demo_config_env 0) = Inr [[0x22, 0x0b, 0x8b, 0xea, 0x60, 0xc9]]"
    by (simp add: demo_config_env_def demo_bssids)
  then show ?thesis
    using retry_first_success [THEN conjunct1, THEN iffD2, of demo_config_env] by fastforce
qed

text \<open>
  C34. The upper bound of the VLAN range is not checked: settings with a management VLAN above 4095
  pass validation, and with the filter assembled from them the relay rejects every frame.
\<close>

theorem oversized_vlan_configures_a_dead_relay:
  assumes "validate s = Inr ()" "4095 < v" "settings_filter env (s\<lparr>s_management_vlan := v\<rparr>) = Inr f"
  shows "validate (s\<lparr>s_management_vlan := v\<rparr>) = Inr () \<and>
    (\<forall>r vlan. classify r vlan f = Inl Length \<or> classify r vlan f = Inl Vlan)"
proof -
  have v: "0 < v" using assms(2) by (rule le_less_trans [OF word_zero_le])
  then have val: "validate (s\<lparr>s_management_vlan := v\<rparr>) = Inr ()"
    using assms(1) by (simp add: validate_iff interface_names_def)
  then have "management_vlan f = v"
    using settings_filter_assembled [OF val assms(3)] by (simp add: assembled_def)
  with assms(2) show ?thesis using val vlan_scope_unmatchable by blast
qed

lemma demo_oversized_ok: "\<not> isl (settings_filter demo_config_env (demo_settings\<lparr>s_management_vlan := 5000\<rparr>))"
  by code_simp

theorem oversized_vlan_configures_a_dead_relay_witness:
  "validate (demo_settings\<lparr>s_management_vlan := 5000\<rparr>) = Inr ()"
proof -
  obtain f where "settings_filter demo_config_env (demo_settings\<lparr>s_management_vlan := 5000\<rparr>) = Inr f"
    using demo_oversized_ok by (cases "settings_filter demo_config_env (demo_settings\<lparr>s_management_vlan := 5000\<rparr>)") auto
  from oversized_vlan_configures_a_dead_relay [OF demo_valid _ this] show ?thesis by simp
qed

end
