(* ===== verification/Tap.thy ===== *)
theory Tap
  imports Config
begin

text \<open>
  The relay TAP and its \<open>tc\<close> rule, \<open>src/src/tap.rs\<close>: which commands and device operations run, in
  which order, what their failures do. The tun device, the \<open>ioctl\<close>s, the external programs and the
  file system answer through \<open>tap_env\<close>; every operation returns its result and the effects it had.
\<close>

unbundle bit_operations_syntax

definition INGRESS_HANDLE :: string where "INGRESS_HANDLE = ''ffff:''"

section \<open>Effects\<close>

datatype tap_effect =
    Build_tap string
  | Write_file string string
  | Get_flags bytes
  | Set_flags bytes
  | Exec string "string list"
  | Drop_tap string

record Output =
  out_success :: bool
  out_stdout :: bytes

record tap_env =
  te_build :: "string \<Rightarrow> bool"
  te_name :: "string \<Rightarrow> string option"
  te_socket :: bool
  te_get_flags :: "bytes \<Rightarrow> bytes option"
  te_set_flags :: "bytes \<Rightarrow> bool"
  te_exec :: "string \<Rightarrow> string list \<Rightarrow> Output option"
  te_exists :: "string \<Rightarrow> bool"
  te_if_index :: "string \<Rightarrow> u32 option"

type_synonym 'a traced = "(Error + 'a) \<times> tap_effect list"

text \<open>The \<open>?\<close> operator: stop at an error, keep the effects so far.\<close>

definition and_then :: "'a traced \<Rightarrow> ('a \<Rightarrow> 'b traced) \<Rightarrow> 'b traced" where
  "and_then m k =
     (case m of
        (Inl e, tr) \<Rightarrow> (Inl e, tr)
      | (Inr x, tr) \<Rightarrow> (case k x of (r, tr') \<Rightarrow> (r, tr @ tr')))"

section \<open>Running a program\<close>

definition run_program :: "tap_env \<Rightarrow> string \<Rightarrow> string list \<Rightarrow> string traced" where
  "run_program env program args =
     (case te_exec env program args of
        None \<Rightarrow> Inl (Io (''execute '' @ program))
      | Some out \<Rightarrow>
          if \<not> out_success out then Inl (CommandFailed (program # args))
          else (case from_utf8 (out_stdout out) of None \<Rightarrow> Inl NotUtf8 | Some s \<Rightarrow> Inr s),
      [Exec program args])"

section \<open>The forwarding rule\<close>

definition qdisc_args :: "string \<Rightarrow> string list" where
  "qdisc_args tap = [''qdisc'', ''add'', ''dev'', tap, ''handle'', INGRESS_HANDLE, ''ingress'']"

definition redirect_args :: "string \<Rightarrow> string \<Rightarrow> u16 \<Rightarrow> string list" where
  "redirect_args tap target pref =
     [''filter'', ''add'', ''dev'', tap, ''parent'', INGRESS_HANDLE, ''protocol'', ''0x88b7'', ''pref'',
      to_decimal (unat pref), ''u32'', ''match'', ''u32'', ''0'', ''0'', ''action'', ''mirred'', ''ingress'',
      ''redirect'', ''dev'', target]"

definition tc_attach :: "tap_env \<Rightarrow> string \<Rightarrow> string \<Rightarrow> u16 \<Rightarrow> unit traced" where
  "tc_attach env tap target pref =
     and_then (run_program env ''tc'' (qdisc_args tap)) (\<lambda>_.
     and_then (run_program env ''tc'' (redirect_args tap target pref)) (\<lambda>_. (Inr (), [])))"

section \<open>Bringing the interface up\<close>

text \<open>
  The 40-byte \<open>ifreq\<close>: the name, zero padded, then the flags at offset 16 in the byte order of the
  target, little endian. \<open>IFF_UP\<close> is 1.
\<close>

definition IFF_UP :: u16 where "IFF_UP = 1"

definition set_up :: "tap_env \<Rightarrow> string \<Rightarrow> unit traced" where
  "set_up env name =
     (if \<not> te_socket env then (Inl (Io ''socket for ifflags''), [])
      else if \<not> length name < 16 then (Inl (Io ''interface name too long''), [])
      else
        let req = as_bytes name @ replicate (40 - length name) 0
        in case te_get_flags env req of
             None \<Rightarrow> (Inl (Io ''SIOCGIFFLAGS''), [Get_flags req])
           | Some req1 \<Rightarrow>
               let flags = u16_from_le_bytes (req1 ! 16) (req1 ! 17) OR IFF_UP;
                   req2 = take 16 req1 @ u16_to_le_bytes flags @ drop 18 req1
               in (if te_set_flags env req2 then Inr () else Inl (Io ''SIOCSIFFLAGS''),
                   [Get_flags req, Set_flags req2]))"

section \<open>Creating, destroying, statistics\<close>

record RelayTap =
  tap_name :: string
  tap_ifindex :: u32

text \<open>An error after the device was built drops it, and the kernel removes a non-persistent TAP.\<close>

definition dropping :: "string \<Rightarrow> 'a traced \<Rightarrow> 'a traced" where
  "dropping dev m = (case m of (Inl e, tr) \<Rightarrow> (Inl e, tr @ [Drop_tap dev]) | (Inr x, tr) \<Rightarrow> (Inr x, tr))"

definition create_relay :: "tap_env \<Rightarrow> string \<Rightarrow> string \<Rightarrow> u16 \<Rightarrow> RelayTap traced" where
  "create_relay env name target pref =
     (if \<not> te_build env name then (Inl (Io ''create TAP device''), [Build_tap name])
      else
        and_then (Inr (), [Build_tap name]) (\<lambda>_. dropping name (
          case te_name env name of
            None \<Rightarrow> (Inl (Io ''read TAP name''), [])
          | Some actual \<Rightarrow>
              and_then (Inr (), [Write_file (''/proc/sys/net/ipv6/conf/'' @ actual @ ''/disable_ipv6'') ''1'']) (\<lambda>_.
              and_then (set_up env actual) (\<lambda>_.
              and_then (tc_attach env actual target pref) (\<lambda>_.
              case te_if_index env actual of
                None \<Rightarrow> (Inl (Io ''TAP ifindex''), [])
              | Some idx \<Rightarrow> (Inr \<lparr>tap_name = actual, tap_ifindex = idx\<rparr>, [])))))))"

definition filter_del_args :: "string \<Rightarrow> u16 \<Rightarrow> string list" where
  "filter_del_args name pref =
     [''filter'', ''del'', ''dev'', name, ''parent'', INGRESS_HANDLE, ''pref'', to_decimal (unat pref)]"

definition destroy :: "tap_env \<Rightarrow> string \<Rightarrow> u16 \<Rightarrow> unit traced" where
  "destroy env name pref =
     (let tr1 = snd (run_program env ''tc'' (filter_del_args name pref));
          tr2 = snd (run_program env ''tc'' [''qdisc'', ''del'', ''dev'', name, ''ingress''])
      in and_then (Inr (), tr1 @ tr2) (\<lambda>_.
         if te_exists env (''/sys/class/net/'' @ name)
         then and_then (run_program env ''ip'' [''link'', ''del'', ''dev'', name]) (\<lambda>_. (Inr (), []))
         else (Inr (), [])))"

definition action_stats :: "tap_env \<Rightarrow> string \<Rightarrow> string traced" where
  "action_stats env name =
     run_program env ''tc'' [''-s'', ''filter'', ''show'', ''dev'', name, ''parent'', INGRESS_HANDLE]"

text \<open>\<open>RelayTap::inject\<close>: one frame, one write to the device, whose answer is \<open>send\<close>.\<close>

definition tap_inject :: "(bytes \<Rightarrow> bool) \<Rightarrow> bytes \<Rightarrow> Error + unit" where
  "tap_inject send frame = (if send frame then Inr () else Inl (Io ''TAP inject''))"

section \<open>Lemmas\<close>

lemma and_then_simps [simp]:
  "and_then (Inl e, tr) k = (Inl e, tr)"
  "and_then (Inr x, tr) k = (fst (k x), tr @ snd (k x))"
  by (simp_all add: and_then_def split: prod.splits)

lemma and_then_eq: "and_then m k =
    (case fst m of Inl e \<Rightarrow> (Inl e, snd m) | Inr x \<Rightarrow> (fst (k x), snd m @ snd (k x)))"
  by (simp add: and_then_def split: prod.splits sum.splits)

lemma snd_run_program [simp]: "snd (run_program env p args) = [Exec p args]"
  by (simp add: run_program_def)

text \<open>The external commands among the effects, in order.\<close>

definition commands :: "tap_effect list \<Rightarrow> (string \<times> string list) list" where
  "commands tr = List.map_filter (\<lambda>e. case e of Exec p a \<Rightarrow> Some (p, a) | _ \<Rightarrow> None) tr"

lemma commands_simps [simp]:
  "commands [] = []" "commands (Exec p a # tr) = (p, a) # commands tr"
  "commands (Build_tap n # tr) = commands tr" "commands (Write_file f c # tr) = commands tr"
  "commands (Get_flags r # tr) = commands tr" "commands (Set_flags r # tr) = commands tr"
  "commands (Drop_tap n # tr) = commands tr" "commands (tr @ tr') = commands tr @ commands tr'"
  by (simp_all add: commands_def List.map_filter_def)

definition succeeds :: "tap_env \<Rightarrow> string \<Rightarrow> string list \<Rightarrow> bool" where
  "succeeds env p args \<longleftrightarrow> \<not> isl (fst (run_program env p args))"

lemma succeeds_cases: "(case fst (run_program env p a) of Inl e \<Rightarrow> F e | Inr x \<Rightarrow> G) =
    (if succeeds env p a then G else F (projl (fst (run_program env p a))))"
  by (auto simp: succeeds_def split: sum.splits)

lemma tc_attach_eq:
  "tc_attach env tap target pref =
     (if \<not> succeeds env ''tc'' (qdisc_args tap)
      then (Inl (projl (fst (run_program env ''tc'' (qdisc_args tap)))), [Exec ''tc'' (qdisc_args tap)])
      else if \<not> succeeds env ''tc'' (redirect_args tap target pref)
      then (Inl (projl (fst (run_program env ''tc'' (redirect_args tap target pref)))),
        [Exec ''tc'' (qdisc_args tap), Exec ''tc'' (redirect_args tap target pref)])
      else (Inr (), [Exec ''tc'' (qdisc_args tap), Exec ''tc'' (redirect_args tap target pref)]))"
  by (simp add: tc_attach_def and_then_eq succeeds_cases)

lemma set_up_commands [simp]: "commands (snd (set_up env name)) = []"
  by (simp add: set_up_def Let_def split: option.splits)

lemma create_relay_outcome:
  "(case create_relay env name target pref of
      (Inr relay, tr) \<Rightarrow>
        te_build env name \<and> te_name env name = Some (tap_name relay) \<and>
        fst (set_up env (tap_name relay)) = Inr () \<and>
        commands tr = [(''tc'', qdisc_args (tap_name relay)), (''tc'', redirect_args (tap_name relay) target pref)] \<and>
        succeeds env ''tc'' (qdisc_args (tap_name relay)) \<and>
        succeeds env ''tc'' (redirect_args (tap_name relay) target pref) \<and> Drop_tap name \<notin> set tr
    | (Inl e, tr) \<Rightarrow>
        (if te_build env name then last tr = Drop_tap name else tr = [Build_tap name]) \<and>
        (case te_name env name of None \<Rightarrow> commands tr = []
         | Some actual \<Rightarrow> isl (fst (set_up env actual)) \<longrightarrow> commands tr = []))"
proof -
  have nodrop: "Drop_tap name \<notin> set (snd (set_up env n))" for n
    by (simp add: set_up_def Let_def split: option.splits)
  show ?thesis
  proof (cases "te_build env name")
    case False
    then show ?thesis by (simp add: create_relay_def split: option.splits)
  next
    case build: True
    show ?thesis
    proof (cases "te_name env name")
      case None
      with build show ?thesis by (simp add: create_relay_def dropping_def)
    next
      case (Some actual)
      note here = build Some
      show ?thesis
      proof (cases "fst (set_up env actual)")
        case (Inl e)
        with here show ?thesis by (simp add: create_relay_def dropping_def and_then_eq)
      next
        case (Inr u)
        with here nodrop [of actual] show ?thesis
          by (cases "te_if_index env actual") (simp_all add: create_relay_def dropping_def and_then_eq tc_attach_eq)
      qed
    qed
  qed
qed

section \<open>Properties\<close>

definition demo_tap_env :: tap_env where
  "demo_tap_env = \<lparr>te_build = (\<lambda>_. True), te_name = (\<lambda>n. Some n), te_socket = True,
     te_get_flags = (\<lambda>r. Some (take 16 r @ [0x02, 0x10] @ drop 18 r)), te_set_flags = (\<lambda>_. True),
     te_exec = (\<lambda>p a. Some \<lparr>out_success = True, out_stdout = []\<rparr>), te_exists = (\<lambda>_. True),
     te_if_index = (\<lambda>_. Some 9)\<rparr>"

text \<open>
  C39. The relay TAP is handed out only after exactly two \<open>tc\<close> commands have succeeded, spelled out
  below: one adds the ingress qdisc to the TAP, the other a single filter there that matches only the
  protocol the validator accepts, every packet of it, and redirects it to the ingress of the target.
  Every failure after the device was built ends by dropping it, and no command runs when the interface
  could not be brought up.
\<close>

theorem create_relay_installs_rule:
  "(case create_relay env name target pref of
      (Inr relay, tr) \<Rightarrow>
        te_build env name \<and> te_name env name = Some (tap_name relay) \<and>
        fst (set_up env (tap_name relay)) = Inr () \<and>
        commands tr =
          [(''tc'', [''qdisc'', ''add'', ''dev'', tap_name relay, ''handle'', ''ffff:'', ''ingress'']),
           (''tc'', [''filter'', ''add'', ''dev'', tap_name relay, ''parent'', ''ffff:'',
              ''protocol'', ''0x'' @ concat (map hex2 (u16_to_be_bytes ETH_P_RRB)),
              ''pref'', to_decimal (unat pref), ''u32'', ''match'', ''u32'', ''0'', ''0'',
              ''action'', ''mirred'', ''ingress'', ''redirect'', ''dev'', target])] \<and>
        list_all (\<lambda>(p, args). succeeds env p args) (commands tr) \<and> Drop_tap name \<notin> set tr
    | (Inl e, tr) \<Rightarrow>
        (if te_build env name then last tr = Drop_tap name else tr = [Build_tap name]) \<and>
        (case te_name env name of None \<Rightarrow> commands tr = []
         | Some actual \<Rightarrow> isl (fst (set_up env actual)) \<longrightarrow> commands tr = []))"
proof -
  have gate: "''0x'' @ concat (map hex2 (u16_to_be_bytes ETH_P_RRB)) = ''0x88b7''" by code_simp
  show ?thesis
    using create_relay_outcome [of env name target pref]
    unfolding gate by (auto simp: qdisc_args_def redirect_args_def INGRESS_HANDLE_def split: prod.splits sum.splits)
qed

theorem create_relay_installs_rule_witness:
  "commands (snd (create_relay demo_tap_env ''rrb0'' ''br0'' 49152)) =
     [(''tc'', [''qdisc'', ''add'', ''dev'', ''rrb0'', ''handle'', ''ffff:'', ''ingress'']),
      (''tc'', [''filter'', ''add'', ''dev'', ''rrb0'', ''parent'', ''ffff:'', ''protocol'',
         ''0x'' @ concat (map hex2 (u16_to_be_bytes ETH_P_RRB)), ''pref'', to_decimal (unat (49152 :: u16)), ''u32'',
         ''match'', ''u32'', ''0'', ''0'', ''action'', ''mirred'', ''ingress'', ''redirect'', ''dev'', ''br0''])]"
proof -
  obtain tr where "create_relay demo_tap_env ''rrb0'' ''br0'' 49152 = (Inr \<lparr>tap_name = ''rrb0'', tap_ifindex = 9\<rparr>, tr)"
  proof
    show "create_relay demo_tap_env ''rrb0'' ''br0'' 49152 =
        (Inr \<lparr>tap_name = ''rrb0'', tap_ifindex = 9\<rparr>, snd (create_relay demo_tap_env ''rrb0'' ''br0'' 49152))"
      by code_simp
  qed
  then show ?thesis using create_relay_installs_rule [where env = demo_tap_env and name = "''rrb0''" and target = "''br0''" and pref = 49152]
    by simp
qed

text \<open>
  Bringing the interface up changes nothing but the \<open>IFF_UP\<close> flag: the request that is written
  back is the one the kernel filled in, with the flags word at offset 16 or-ed with \<open>IFF_UP\<close> and every
  other byte as it was; and the request names the interface, zero terminated.
\<close>

lemma set_up_sets_only_up:
  assumes "te_get_flags env (as_bytes name @ replicate (40 - length name) 0) = Some req" "length req = 40"
    and "te_socket env" "length name < 16"
  shows "\<exists>req'. snd (set_up env name) = [Get_flags (as_bytes name @ replicate (40 - length name) 0), Set_flags req'] \<and>
    length req' = 40 \<and> take 16 req' = take 16 req \<and> drop 18 req' = drop 18 req \<and>
    u16_from_le_bytes (req' ! 16) (req' ! 17) = u16_from_le_bytes (req ! 16) (req ! 17) OR IFF_UP \<and>
    (fst (set_up env name) = Inr () \<longleftrightarrow> te_set_flags env req')"
proof -
  let ?fl = "u16_from_le_bytes (req ! 16) (req ! 17) OR IFF_UP"
  let ?req = "take 16 req @ u16_to_le_bytes ?fl @ drop 18 req"
  have n: "?req ! 16 = u16_to_le_bytes ?fl ! 0" "?req ! 17 = u16_to_le_bytes ?fl ! Suc 0"
    using assms(2) by (simp_all add: nth_append)
  have "snd (set_up env name) = [Get_flags (as_bytes name @ replicate (40 - length name) 0), Set_flags ?req]"
    "fst (set_up env name) = Inr () \<longleftrightarrow> te_set_flags env ?req"
    using assms by (simp_all add: set_up_def Let_def)
  moreover have "u16_from_le_bytes (?req ! 16) (?req ! 17) = ?fl" unfolding n by simp
  ultimately show ?thesis using assms(2) by (intro exI [of _ ?req]) simp
qed

text \<open>
  Cleaning up is unconditional: both deletions are attempted whatever the first one answers, on
  the filter priority and device that were given; the device itself is deleted exactly when it
  exists, and only that deletion can make the command fail.
\<close>

lemma destroy_attempts_everything:
  "commands (snd (destroy env name pref)) =
     [(''tc'', filter_del_args name pref), (''tc'', [''qdisc'', ''del'', ''dev'', name, ''ingress''])] @
     (if te_exists env (''/sys/class/net/'' @ name) then [(''ip'', [''link'', ''del'', ''dev'', name])] else []) \<and>
   (isl (fst (destroy env name pref)) \<longleftrightarrow>
     te_exists env (''/sys/class/net/'' @ name) \<and> \<not> succeeds env ''ip'' [''link'', ''del'', ''dev'', name])"
  by (simp add: destroy_def Let_def and_then_eq succeeds_cases)

end
