(* ===== verification/App.thy ===== *)
theory App
  imports Relay Packet Tap "HOL-Library.Multiset" "HOL-Library.Sublist"
begin

text \<open>
  The daemon of \<open>src/src/app.rs\<close>. The runtime is single threaded, so tasks interleave at their
  \<open>await\<close>s only: the code between two awaits is one function (\<open>capture_received\<close>, \<open>inject_frame\<close>,
  \<open>inject_result\<close>), and the interleavings are the step relation \<open>step\<close> over a \<open>daemon\<close> state.

  The bounded channel comes from tokio and is a parameter: the record \<open>channel\<close> of its operations,
  with the laws of a bounded FIFO queue in the locale \<open>bounded_fifo\<close>. What the sockets deliver, what
  the TAP answers and how the clock advances is left to the environment of each step. Counters are
  \<open>u64\<close> and wrap.
\<close>

definition QUEUE_DEPTH :: usize where "QUEUE_DEPTH = 64"

section \<open>Counters\<close>

type_synonym Counters = "u64 list"

definition counters_new :: Counters where
  "counters_new = replicate (length COUNTER_NAMES) 0"

definition bump :: "Counters \<Rightarrow> Counter \<Rightarrow> Counters" where
  "bump cs c = cs[counter_index c := cs ! counter_index c + 1]"

text \<open>The line \<open>log_counters\<close> prints: the non-zero counters as \<open>name=value\<close>, in order.\<close>

definition counters_line :: "Counters \<Rightarrow> string" where
  "counters_line cs =
     (let parts = map (\<lambda>(name, v). name @ ''='' @ to_decimal (unat v))
            (filter (\<lambda>(_, v). 0 < v) (zip COUNTER_NAMES cs))
      in if parts = [] then [] else join (CHR '' '') parts)"

section \<open>The capture task\<close>

text \<open>
  What one received frame leads to: the next \<open>recv\<close>, a send to the inject task, or a panic of one of
  the slices (\<open>&buf[..n]\<close>, \<open>frame[6..12]\<close>, \<open>frame[0..6]\<close>, those of \<open>untag\<close>). \<open>forward\<close> says whether the task
  has a sender.
\<close>

datatype capture_outcome = Continue | Send bytes | Panicked

definition capture_frame ::
    "Filter \<Rightarrow> bool \<Rightarrow> bytes \<Rightarrow> Vlan \<Rightarrow> Counters \<Rightarrow> capture_outcome \<times> Counters" where
  "capture_frame f forward frame vlan cs =
     (let cs = bump cs Seen
      in case classify frame vlan f of
           Inr m \<Rightarrow>
             let cs = bump (bump cs Matched) (kind_counter (kind m))
             in if length frame < 12 then (Panicked, cs)
                else if forward then
                  (case untag frame vlan of None \<Rightarrow> (Panicked, cs) | Some out \<Rightarrow> (Send out, cs))
                else (Continue, bump cs Observed)
         | Inl reason \<Rightarrow> (Continue, bump cs reason))"

definition capture_received ::
    "Filter \<Rightarrow> bool \<Rightarrow> bytes \<Rightarrow> usize \<Rightarrow> Vlan \<Rightarrow> Counters \<Rightarrow> capture_outcome \<times> Counters" where
  "capture_received f forward buf n vlan cs =
     (if length buf < n then (Panicked, bump cs Seen)
      else capture_frame f forward (subslice buf 0 n) vlan cs)"

section \<open>The inject task\<close>

datatype inject_state = Waiting | Injecting bytes | InjectDone

definition inject_frame ::
    "Limiter \<Rightarrow> u64 \<Rightarrow> Counters \<Rightarrow> bytes \<Rightarrow> inject_state \<times> Limiter \<times> Counters" where
  "inject_frame l now_secs cs frame =
     (case admit l now_secs of
        (Inr _, l') \<Rightarrow> (Injecting frame, l', cs)
      | (Inl reason, l') \<Rightarrow> (Waiting, l', bump cs reason))"

definition inject_result :: "(bytes \<Rightarrow> bool) \<Rightarrow> bytes \<Rightarrow> Counters \<Rightarrow> Counters" where
  "inject_result dev_send frame cs =
     (case tap_inject dev_send frame of Inr _ \<Rightarrow> bump cs Injected | Inl _ \<Rightarrow> bump cs InjectError)"

section \<open>The daemon state\<close>

record 'c channel =
  ch_new :: "nat \<Rightarrow> 'c"
  ch_send :: "bytes \<Rightarrow> 'c \<Rightarrow> 'c option"
  ch_recv :: "'c \<Rightarrow> (bytes \<times> 'c) option"

datatype capture_state = Receiving | Sending bytes | CaptureDone | CapturePanicked

record capture_task =
  cap_state :: capture_state
  cap_buf :: bytes

text \<open>
  \<open>clock\<close> is the monotonic clock in nanoseconds and \<open>started\<close> its reading when the daemon came up. The
  last six fields are history: the frames the sockets delivered and the frames put into the channel,
  both with the number of their source, the frames taken out of the channel, the writes to the TAP
  with the second they fall into, the frames a capture task dropped, and the writes that a shutdown
  cut off.
\<close>

record 'c daemon =
  captures :: "capture_task list"
  chan :: 'c
  injector :: inject_state
  limiter :: Limiter
  counters :: Counters
  started :: nat
  clock :: nat
  stopped :: bool
  arrivals :: "(nat \<times> bytes \<times> Vlan) list"
  sent :: "(nat \<times> bytes) list"
  taken :: "bytes list"
  attempts :: "(u64 \<times> bytes) list"
  lost :: "(nat \<times> bytes) list"
  cut_off :: "bytes list"

text \<open>
  \<open>start.elapsed().as_secs()\<close>. A \<open>Duration\<close> holds its seconds in a \<open>u64\<close>, so the clock stays below
  \<open>INSTANT_END\<close>.
\<close>

definition NANOS_PER_SEC :: nat where "NANOS_PER_SEC = 1000000000"

definition INSTANT_END :: nat where "INSTANT_END = 2 ^ 64 * NANOS_PER_SEC"

definition monotonic_secs :: "nat \<Rightarrow> nat \<Rightarrow> u64" where
  "monotonic_secs start now = word_of_nat ((now - start) div NANOS_PER_SEC)"

definition now_secs :: "'c daemon \<Rightarrow> u64" where
  "now_secs d = monotonic_secs (started d) (clock d)"

definition daemon_start :: "'c channel \<Rightarrow> bool \<Rightarrow> u32 \<Rightarrow> nat \<Rightarrow> nat \<Rightarrow> 'c daemon" where
  "daemon_start ch forward pps n_sources instant = \<lparr>
     captures = replicate n_sources \<lparr>cap_state = Receiving, cap_buf = replicate MAX_FRAME 0\<rparr>,
     chan = ch_new ch QUEUE_DEPTH, injector = (if forward then Waiting else InjectDone),
     limiter = Limiter_new pps, counters = counters_new, started = instant, clock = instant, stopped = False,
     arrivals = [], sent = [], taken = [], attempts = [], lost = [], cut_off = []\<rparr>"

definition outcome_state :: "capture_outcome \<Rightarrow> capture_state" where
  "outcome_state out = (case out of Continue \<Rightarrow> Receiving | Send x \<Rightarrow> Sending x | Panicked \<Rightarrow> CapturePanicked)"

definition ended :: "capture_task \<Rightarrow> bool" where
  "ended t \<longleftrightarrow> cap_state t = CaptureDone \<or> cap_state t = CapturePanicked"

definition pending_of :: "capture_task \<Rightarrow> bytes list" where
  "pending_of t = (case cap_state t of Sending x \<Rightarrow> [x] | _ \<Rightarrow> [])"

definition pending_tagged :: "capture_task list \<Rightarrow> (nat \<times> bytes) list" where
  "pending_tagged ts = concat (map (\<lambda>(i, t). map (Pair i) (pending_of t)) (enumerate 0 ts))"

section \<open>Steps\<close>

text \<open>
  One constructor per kind of step: source \<open>i\<close> receives a frame or an error, its task sends into the
  channel or finds it closed; the inject task takes a frame, finishes a write, or ends because every
  sender is gone; time passes; the tasks are aborted at shutdown.
\<close>

datatype event =
    Received nat
  | ReceiveFailed nat
  | Sent nat
  | SendFailed nat
  | Taken
  | Written
  | HungUp
  | Ticked
  | ShutDown

inductive step :: "'c channel \<Rightarrow> Filter \<Rightarrow> bool \<Rightarrow> event \<Rightarrow> 'c daemon \<Rightarrow> 'c daemon \<Rightarrow> bool"
  for ch :: "'c channel" and f :: Filter and forward :: bool where
  receive: "step ch f forward (Received i) d
      (d\<lparr>captures := (captures d)[i := \<lparr>cap_state = outcome_state out, cap_buf = buf\<rparr>], counters := cs,
         arrivals := arrivals d @ [(i, take n buf, vlan)]\<rparr>)"
  if "i < length (captures d)" "cap_state (captures d ! i) = Receiving"
    "list_all (fits (length (cap_buf (captures d ! i)))) evs"
    "recv evs (cap_buf (captures d ! i)) = (Some (Inr (n, vlan)), buf, rest)"
    "capture_received f forward buf n vlan (counters d) = (out, cs)"
| receive_error: "step ch f forward (ReceiveFailed i) d
      (d\<lparr>captures := (captures d)[i := \<lparr>cap_state = CaptureDone, cap_buf = buf\<rparr>]\<rparr>)"
  if "i < length (captures d)" "cap_state (captures d ! i) = Receiving"
    "list_all (fits (length (cap_buf (captures d ! i)))) evs"
    "recv evs (cap_buf (captures d ! i)) = (Some (Inl e), buf, rest)"
| send: "step ch f forward (Sent i) d
      (d\<lparr>captures := (captures d)[i := (captures d ! i)\<lparr>cap_state := Receiving\<rparr>], chan := c,
         sent := sent d @ [(i, x)]\<rparr>)"
  if "i < length (captures d)" "cap_state (captures d ! i) = Sending x"
    "injector d \<noteq> InjectDone" "ch_send ch x (chan d) = Some c"
| send_closed: "step ch f forward (SendFailed i) d
      (d\<lparr>captures := (captures d)[i := (captures d ! i)\<lparr>cap_state := CaptureDone\<rparr>], lost := lost d @ [(i, x)]\<rparr>)"
  if "i < length (captures d)" "cap_state (captures d ! i) = Sending x" "injector d = InjectDone"
| take: "step ch f forward Taken d
      (d\<lparr>chan := c, injector := st, limiter := l, counters := cs, taken := taken d @ [x],
         attempts := attempts d @ (if st = Injecting x then [(now_secs d, x)] else [])\<rparr>)"
  if "injector d = Waiting" "ch_recv ch (chan d) = Some (x, c)"
    "inject_frame (limiter d) (now_secs d) (counters d) x = (st, l, cs)"
| inject: "step ch f forward Written d
      (d\<lparr>injector := Waiting, counters := inject_result dev_send x (counters d)\<rparr>)"
  if "injector d = Injecting x"
| hang_up: "step ch f forward HungUp d (d\<lparr>injector := InjectDone\<rparr>)"
  if "injector d = Waiting" "ch_recv ch (chan d) = None" "list_all ended (captures d)"
| tick: "step ch f forward Ticked d (d\<lparr>clock := t\<rparr>)"
  if "clock d \<le> t" "t < INSTANT_END"
| shutdown: "step ch f forward ShutDown d
      (d\<lparr>captures := map (\<lambda>t. t\<lparr>cap_state := CaptureDone\<rparr>) (captures d), injector := InjectDone, stopped := True,
         lost := lost d @ pending_tagged (captures d),
         cut_off := cut_off d @ (case injector d of Injecting x \<Rightarrow> [x] | _ \<Rightarrow> [])\<rparr>)"
  if "\<not> stopped d"

inductive reachable :: "'c channel \<Rightarrow> Filter \<Rightarrow> bool \<Rightarrow> u32 \<Rightarrow> 'c daemon \<Rightarrow> bool"
  for ch :: "'c channel" and f :: Filter and forward :: bool and pps :: u32 where
  start: "reachable ch f forward pps (daemon_start ch forward pps n instant)" if "instant < INSTANT_END"
| steps: "reachable ch f forward pps d'" if "reachable ch f forward pps d" "step ch f forward ev d d'"

inductive_cases step_Sent_E: "step ch f forward (Sent i) d d'"
inductive_cases step_Taken_E: "step ch f forward Taken d d'"
inductive_cases step_Written_E: "step ch f forward Written d d'"
inductive_cases step_HungUp_E: "step ch f forward HungUp d d'"

section \<open>The channel interface\<close>

locale bounded_fifo =
  fixes ch :: "'c channel"
    and contents :: "'c \<Rightarrow> bytes list"
    and capacity :: "'c \<Rightarrow> nat"
  assumes new_contents: "contents (ch_new ch n) = []"
    and new_capacity: "capacity (ch_new ch n) = n"
    and send_full: "ch_send ch x c = None \<longleftrightarrow> capacity c \<le> length (contents c)"
    and send_contents: "ch_send ch x c = Some c' \<Longrightarrow> contents c' = contents c @ [x] \<and> capacity c' = capacity c"
    and recv_empty: "ch_recv ch c = None \<longleftrightarrow> contents c = []"
    and recv_contents: "ch_recv ch c = Some (x, c') \<Longrightarrow> contents c = x # contents c' \<and> capacity c' = capacity c"

text \<open>A list with its bound.\<close>

definition list_channel :: "(nat \<times> bytes list) channel" where
  "list_channel = \<lparr>ch_new = (\<lambda>n. (n, [])),
     ch_send = (\<lambda>x (n, q). if length q < n then Some (n, q @ [x]) else None),
     ch_recv = (\<lambda>(n, q). case q of [] \<Rightarrow> None | x # q' \<Rightarrow> Some (x, (n, q')))\<rparr>"

interpretation list_queue: bounded_fifo list_channel snd fst
  by unfold_locales (auto simp: list_channel_def not_less split: if_splits list.splits prod.splits)

end
