(* ===== verification/Invariants.thy ===== *)
theory Invariants
  imports App
begin

text \<open>
  Invariants of the daemon, by rule induction over its reachable states: the buffers keep their size
  and no task panics (\<open>tasks_ok\<close>), the counters follow the history (\<open>counts_ok\<close>), the limiter's state
  agrees with the writes of the current second (\<open>rate_ok\<close>), the channel is within its bound (\<open>queue_ok\<close>),
  and no frame gets lost, duplicated or overtaken within its source (\<open>forward_ok\<close>, \<open>observe_ok\<close>). What
  depends on the channel is proved once in the locale \<open>bounded_fifo\<close>.
\<close>

section \<open>Counting\<close>

definition counter :: "Counters \<Rightarrow> Counter \<Rightarrow> u64" where
  "counter cs c = cs ! counter_index c"

lemma length_bump [simp]: "length (bump cs c) = length cs"
  by (simp add: bump_def)

lemma counter_bump:
  "length cs = 20 \<Longrightarrow> counter (bump cs c) c' = counter cs c' + (if c' = c then 1 else 0)"
  by (simp add: counter_def bump_def nth_list_update)

lemma length_bumps [simp]: "length (foldl bump cs bs) = length cs"
  by (induction bs arbitrary: cs) simp_all

lemma counter_bumps:
  "length cs = 20 \<Longrightarrow> counter (foldl bump cs bs) c = counter cs c + of_nat (count_list bs c)"
  by (induction bs arbitrary: cs) (simp_all add: counter_bump)

lemma counter_new [simp]: "counter counters_new c = 0" "length counters_new = 20"
  using counter_index_less [of c] by (simp_all add: counter_def counters_new_def)

text \<open>The counters one arrival bumps, and the frames it hands to the inject task.\<close>

definition capture_bumps :: "Filter \<Rightarrow> bool \<Rightarrow> bytes \<times> Vlan \<Rightarrow> Counter list" where
  "capture_bumps f forward a =
     (case classify (fst a) (snd a) f of
        Inl reason \<Rightarrow> [Seen, reason]
      | Inr m \<Rightarrow> [Seen, Matched, kind_counter (kind m)] @ (if forward then [] else [Observed]))"

definition relayed :: "Filter \<Rightarrow> bytes \<times> Vlan \<Rightarrow> bytes list" where
  "relayed f a =
     (case classify (fst a) (snd a) f of Inl _ \<Rightarrow> [] | Inr _ \<Rightarrow> [the (untag (fst a) (snd a))])"

text \<open>A frame the daemon may write: the untagged form of a message the identity admits.\<close>

definition legitimate :: "Filter \<Rightarrow> bytes \<Rightarrow> bool" where
  "legitimate f x \<longleftrightarrow> (\<exists>m. wf_msg m \<and> acceptable f m \<and> x = encode_untagged m)"

lemma classify_untag:
  assumes "wf_Filter f" "distinct_peers f" "classify r vlan f = Inr m"
  obtains x where "untag r vlan = Some x" "legitimate f x" "12 \<le> length r"
proof -
  from assms(3) obtain msg where msg: "wf_msg msg" "acceptable f msg" "carries f vlan r msg"
    by (auto simp: classify_accepts_iff [OF assms(1,2)])
  have "14 \<le> length r" using msg(1,3) by (simp add: carries_iff)
  with that [of "encode_untagged msg"] untag_carried [OF msg(1,3)] msg show thesis
    by (auto simp: legitimate_def)
qed

lemma relayed_legitimate:
  "wf_Filter f \<Longrightarrow> distinct_peers f \<Longrightarrow> x \<in> set (relayed f a) \<Longrightarrow> legitimate f x"
  by (cases "classify (fst a) (snd a) f") (auto simp: relayed_def elim: classify_untag)

lemma capture_frame_eq:
  assumes "wf_Filter f" "distinct_peers f"
  shows "capture_frame f forward r vlan cs =
    (case relayed f (r, vlan) of x # _ \<Rightarrow> if forward then Send x else Continue | [] \<Rightarrow> Continue,
     foldl bump cs (capture_bumps f forward (r, vlan)))"
proof (cases "classify r vlan f")
  case (Inl c)
  then show ?thesis by (simp add: capture_frame_def relayed_def capture_bumps_def)
next
  case (Inr m)
  then obtain x where "untag r vlan = Some x" "12 \<le> length r" by (rule classify_untag [OF assms])
  with Inr show ?thesis by (simp add: capture_frame_def relayed_def capture_bumps_def Let_def)
qed

lemma capture_received_eq:
  assumes "wf_Filter f" "distinct_peers f" "n \<le> length buf"
  shows "capture_received f forward buf n vlan cs =
    (case relayed f (take n buf, vlan) of x # _ \<Rightarrow> if forward then Send x else Continue | [] \<Rightarrow> Continue,
     foldl bump cs (capture_bumps f forward (take n buf, vlan)))"
  using assms by (simp add: capture_received_def slice_0 capture_frame_eq)

section \<open>The buffers\<close>

lemma recv_length:
  "list_all (fits (length buf)) evs \<Longrightarrow> recv evs buf = (Some res, buf', rest) \<Longrightarrow>
    length buf' = length buf \<and> (\<forall>n v. res = Inr (n, v) \<longrightarrow> n \<le> length buf')"
proof (induction evs arbitrary: buf)
  case Nil
  then show ?case by simp
next
  case (Cons ev evs)
  consider "ev = Unreadable" | e where "ev = Ready (Inl e)" | msg where "ev = Ready (Inr msg)"
    by (metis readiness.exhaust sum.exhaust)
  then show ?case
  proof cases
    case 2
    with Cons.prems Cons.IH [of buf] show ?thesis by (cases "e = EAGAIN") (auto simp: recvmsg_def)
  next
    case 3
    with Cons.prems Cons.IH [of "in_data msg @ drop (length (in_data msg)) buf"] show ?thesis
      by (cases "in_pkttype msg = PACKET_OUTGOING") (auto simp: recvmsg_def Let_def)
  qed (use Cons in auto)
qed

definition tasks_ok :: "'c daemon \<Rightarrow> bool" where
  "tasks_ok d \<longleftrightarrow> list_all (\<lambda>t. length (cap_buf t) = MAX_FRAME \<and> cap_state t \<noteq> CapturePanicked) (captures d) \<and>
     length (counters d) = 20"

lemma list_all_update: "list_all P xs \<Longrightarrow> P y \<Longrightarrow> list_all P (xs[i := y])"
  using set_update_subset_insert [of xs i y] by (auto simp: list_all_iff)

lemma tasks_okD: "tasks_ok d \<Longrightarrow> i < length (captures d) \<Longrightarrow>
    length (cap_buf (captures d ! i)) = MAX_FRAME \<and> cap_state (captures d ! i) \<noteq> CapturePanicked"
  by (simp add: tasks_ok_def list_all_length)

lemma length_inject_frame: "inject_frame l t cs x = (st, l', cs') \<Longrightarrow> length cs' = length cs"
  by (auto simp: inject_frame_def split: prod.splits sum.splits)

lemma length_inject_result [simp]: "length (inject_result s x cs) = length cs"
  by (simp add: inject_result_def split: sum.splits)

lemma step_tasks_ok:
  assumes "wf_Filter f" "distinct_peers f" "step ch f forward ev d d'" "tasks_ok d"
  shows "tasks_ok d'"
  using assms(3)
proof cases
  case (receive i evs n vlan buf rest out cs)
  have "length buf = MAX_FRAME" "n \<le> length buf"
    using recv_length [OF receive(5,6)] tasks_okD [OF assms(4) receive(3)] by auto
  with receive(7) assms(4) have "outcome_state out \<noteq> CapturePanicked" "length cs = 20"
    by (auto simp: capture_received_eq assms(1,2) outcome_state_def tasks_ok_def split: list.splits if_splits)
  with receive(2) \<open>length buf = MAX_FRAME\<close> assms(4) show ?thesis
    by (simp add: tasks_ok_def list_all_update)
next
  case (receive_error i evs e buf rest)
  then show ?thesis
    using recv_length [OF receive_error(5,6)] tasks_okD [OF assms(4)] assms(4)
    by (simp add: tasks_ok_def list_all_update)
next
  case (take x c st l cs)
  then show ?thesis using assms(4) length_inject_frame [OF take(5)] by (simp add: tasks_ok_def)
next
  case shutdown
  then show ?thesis using assms(4) by (auto simp: tasks_ok_def list_all_iff)
qed (use assms(4) tasks_okD [OF assms(4)] in \<open>auto simp: tasks_ok_def intro!: list_all_update\<close>)

lemma reachable_tasks_ok:
  assumes "wf_Filter f" "distinct_peers f" "reachable ch f forward pps d"
  shows "tasks_ok d"
  using assms(3)
proof induction
  case (start n)
  then show ?case by (simp add: tasks_ok_def daemon_start_def list_all_iff)
next
  case (steps d d')
  then show ?case using step_tasks_ok [OF assms(1,2)] by blast
qed

section \<open>Counters against history\<close>

definition injecting :: "'c daemon \<Rightarrow> nat" where
  "injecting d = (case injector d of Injecting _ \<Rightarrow> 1 | _ \<Rightarrow> 0) + length (cut_off d)"

definition counts_ok :: "Filter \<Rightarrow> bool \<Rightarrow> 'c daemon \<Rightarrow> bool" where
  "counts_ok f forward d \<longleftrightarrow>
     (\<forall>c. c \<notin> {RateLimited, Injected, InjectError} \<longrightarrow>
        counter (counters d) c = of_nat (count_list (concat (map (capture_bumps f forward) (map snd (arrivals d)))) c)) \<and>
     counter (counters d) RateLimited + of_nat (length (attempts d)) = of_nat (length (taken d)) \<and>
     counter (counters d) Injected + counter (counters d) InjectError + of_nat (injecting d) =
       of_nat (length (attempts d))"

lemma capture_bumps_inject: "c \<in> {RateLimited, Injected, InjectError} \<Longrightarrow> count_list (capture_bumps f forward a) c = 0"
proof -
  have "reason \<noteq> c" if "classify r v f = Inl reason" "c \<in> {RateLimited, Injected, InjectError}" for r v reason
    using classify_error [OF that(1)] that(2) by (auto simp: reject_counters_def)
  moreover have "kind_counter k \<noteq> c" if "c \<in> {RateLimited, Injected, InjectError}" for k
    using kind_counter_in [of k] that by (auto simp: kind_counters_def)
  ultimately show "c \<in> {RateLimited, Injected, InjectError} \<Longrightarrow> ?thesis"
    by (cases "classify (fst a) (snd a) f") (auto simp: capture_bumps_def)
qed

text \<open>The receive step with its outcome worked out.\<close>

lemma step_receive_view:
  assumes "wf_Filter f" "distinct_peers f" "tasks_ok d" "i < length (captures d)"
    and "list_all (fits (length (cap_buf (captures d ! i)))) evs"
    and "recv evs (cap_buf (captures d ! i)) = (Some (Inr (n, vlan)), buf, rest)"
    and "capture_received f forward buf n vlan (counters d) = (out, cs)"
  shows "outcome_state out =
      (case relayed f (take n buf, vlan) of x # _ \<Rightarrow> if forward then Sending x else Receiving | [] \<Rightarrow> Receiving)"
    and "cs = foldl bump (counters d) (capture_bumps f forward (take n buf, vlan))"
proof -
  have "n \<le> length buf" using recv_length [OF assms(5,6)] by auto
  from capture_received_eq [OF assms(1,2) this] assms(7)
  show "outcome_state out =
      (case relayed f (take n buf, vlan) of x # _ \<Rightarrow> if forward then Sending x else Receiving | [] \<Rightarrow> Receiving)"
    and "cs = foldl bump (counters d) (capture_bumps f forward (take n buf, vlan))"
    by (auto simp: outcome_state_def split: list.splits)
qed

lemma inject_frame_cases:
  assumes "inject_frame l t cs x = (st, l', cs')"
  obtains "st = Injecting x" "cs' = cs" "fst (admit l t) = Inr ()" "l' = snd (admit l t)"
    | "st = Waiting" "cs' = bump cs RateLimited" "fst (admit l t) = Inl RateLimited" "l' = snd (admit l t)"
  using assms that by (auto simp: inject_frame_def admit_cases split: if_splits)

lemma step_counts_ok:
  assumes "wf_Filter f" "distinct_peers f" "step ch f forward ev d d'" "tasks_ok d" "counts_ok f forward d"
  shows "counts_ok f forward d'"
  using assms(3)
proof cases
  case (receive i evs n vlan buf rest out cs)
  have "cs = foldl bump (counters d) (capture_bumps f forward (take n buf, vlan))"
    by (rule step_receive_view [OF assms(1,2,4) receive(3,5-7)])
  then show ?thesis
    using receive(2) assms(4,5)
    by (auto simp: counts_ok_def tasks_ok_def counter_bumps capture_bumps_inject injecting_def)
next
  case (take x c st l cs)
  have "length (counters d) = 20" using assms(4) by (simp add: tasks_ok_def)
  with take(5) show ?thesis
    using take(2,3) assms(5)
    by (elim inject_frame_cases) (auto simp: counts_ok_def injecting_def counter_bump algebra_simps)
next
  case (inject x dev_send)
  have "length (counters d) = 20" using assms(4) by (simp add: tasks_ok_def)
  then show ?thesis
    using inject assms(5)
    by (auto simp: counts_ok_def injecting_def counter_bump inject_result_def algebra_simps split: sum.splits)
next
  case shutdown
  then show ?thesis
    using assms(5) by (auto simp: counts_ok_def injecting_def add_ac split: inject_state.splits)
qed (use assms(5) in \<open>auto simp: counts_ok_def injecting_def\<close>)

lemma reachable_counts_ok:
  assumes "wf_Filter f" "distinct_peers f" "reachable ch f forward pps d"
  shows "counts_ok f forward d"
  using assms(3)
proof induction
  case (start n)
  then show ?case by (simp add: counts_ok_def daemon_start_def injecting_def)
next
  case (steps d d')
  then show ?case
    using step_counts_ok [OF assms(1,2)] reachable_tasks_ok [OF assms(1,2)] by blast
qed

section \<open>Rate\<close>

definition written_at :: "'c daemon \<Rightarrow> u64 \<Rightarrow> nat" where
  "written_at d t = length (filter (\<lambda>a. fst a = t) (attempts d))"

definition rate_ok :: "u32 \<Rightarrow> 'c daemon \<Rightarrow> bool" where
  "rate_ok pps d \<longleftrightarrow> limiter_ok pps (limiter d) \<and> clock d < INSTANT_END \<and> (\<forall>t. written_at d t \<le> unat pps) \<and>
     (\<forall>t\<ge>now_secs d. written_at d t = limiter_spent (limiter d) t) \<and> (\<forall>t>now_secs d. written_at d t = 0)"

lemma monotonic_secs_mono:
  assumes "a \<le> b" "b < INSTANT_END"
  shows "monotonic_secs s a \<le> monotonic_secs s b"
proof -
  have "(b - s) div NANOS_PER_SEC < 2 ^ 64"
    using assms(2) by (intro less_mult_imp_div_less) (simp add: INSTANT_END_def)
  moreover have "(a - s) div NANOS_PER_SEC \<le> (b - s) div NANOS_PER_SEC" using assms(1) by (intro div_le_mono) simp
  ultimately show ?thesis by (simp add: monotonic_secs_def word_le_nat_alt unat_of_nat)
qed

lemma now_secs_update [simp]:
  "now_secs (d\<lparr>captures := x\<rparr>) = now_secs d" "now_secs (d\<lparr>counters := cs\<rparr>) = now_secs d"
  "now_secs (d\<lparr>arrivals := as\<rparr>) = now_secs d" "now_secs (d\<lparr>chan := c\<rparr>) = now_secs d"
  "now_secs (d\<lparr>sent := ss\<rparr>) = now_secs d" "now_secs (d\<lparr>lost := ss\<rparr>) = now_secs d"
  "now_secs (d\<lparr>injector := st\<rparr>) = now_secs d" "now_secs (d\<lparr>limiter := l\<rparr>) = now_secs d"
  "now_secs (d\<lparr>taken := xs\<rparr>) = now_secs d" "now_secs (d\<lparr>attempts := at\<rparr>) = now_secs d"
  "now_secs (d\<lparr>stopped := b\<rparr>) = now_secs d" "now_secs (d\<lparr>cut_off := xs\<rparr>) = now_secs d"
  by (simp_all add: now_secs_def)

lemma step_rate_ok:
  assumes "step ch f forward ev d d'" "rate_ok pps d"
  shows "rate_ok pps d'"
  using assms(1)
proof cases
  case (take x c st l cs)
  have ok: "limiter_ok pps (limiter d)" using assms(2) by (simp add: rate_ok_def)
  have spent: "written_at d t = limiter_spent (limiter d) t" if "now_secs d \<le> t" for t
    using assms(2) that by (simp add: rate_ok_def)
  have w: "written_at d' t = written_at d t + (if st = Injecting x \<and> t = now_secs d then 1 else 0)" for t
    by (auto simp: written_at_def take(2))
  have l: "l = snd (admit (limiter d) (now_secs d))"
    and st: "st = Injecting x \<longleftrightarrow> limiter_spent (limiter d) (now_secs d) < unat pps"
    using window_limiter.adm_grant [OF ok, of "now_secs d"] take(5) by (auto elim!: inject_frame_cases)
  have "written_at d' t \<le> unat pps" for t
    using w [of t] st spent [of "now_secs d"] assms(2) by (auto simp: rate_ok_def Suc_le_eq)
  moreover have "written_at d' t = limiter_spent l t" if "now_secs d \<le> t" for t
  proof (cases "t = now_secs d")
    case True
    then show ?thesis
      using w st spent [of t] l window_limiter.adm_spent [OF ok, of t] by simp
  next
    case False
    with that have "now_secs d < t" by simp
    then have "written_at d t = 0" using assms(2) unfolding rate_ok_def by blast
    with False show ?thesis using w l window_limiter.adm_other [OF ok False] by simp
  qed
  moreover have "written_at d' t = 0" if "now_secs d < t" for t
    using that w [of t] assms(2) by (auto simp: rate_ok_def)
  moreover have "limiter_ok pps l" unfolding l by (rule window_limiter.adm_ok [OF ok])
  moreover have "clock d' < INSTANT_END" using assms(2) by (simp add: rate_ok_def take(2))
  ultimately show ?thesis by (simp add: rate_ok_def take(2))
next
  case (tick t)
  have "now_secs d \<le> now_secs d'"
    using tick by (simp add: now_secs_def monotonic_secs_mono)
  moreover have "written_at d' = written_at d" "limiter d' = limiter d" "clock d' < INSTANT_END"
    using tick by (simp_all add: written_at_def fun_eq_iff)
  ultimately show ?thesis using assms(2) unfolding rate_ok_def by (metis order.strict_trans1 order_trans)
qed (use assms(2) in \<open>simp_all add: rate_ok_def written_at_def\<close>)

lemma reachable_rate_ok:
  assumes "reachable ch f forward pps d"
  shows "rate_ok pps d"
  using assms
proof induction
  case (start n)
  then show ?case
    using window_limiter.fresh_ok [of pps] window_limiter.fresh_spent [of pps]
    by (simp add: rate_ok_def daemon_start_def written_at_def)
next
  case (steps d d')
  then show ?case using step_rate_ok by blast
qed

section \<open>Frames\<close>

definition pending :: "'c daemon \<Rightarrow> bytes list" where
  "pending d = concat (map pending_of (captures d))"

text \<open>The history of one source.\<close>

definition arrived_at :: "nat \<Rightarrow> 'c daemon \<Rightarrow> (bytes \<times> Vlan) list" where
  "arrived_at i d = map snd (filter (\<lambda>a. fst a = i) (arrivals d))"

definition sent_by :: "nat \<Rightarrow> 'c daemon \<Rightarrow> bytes list" where
  "sent_by i d = map snd (filter (\<lambda>a. fst a = i) (sent d))"

definition lost_by :: "nat \<Rightarrow> 'c daemon \<Rightarrow> bytes list" where
  "lost_by i d = map snd (filter (\<lambda>a. fst a = i) (lost d))"

definition pending_by :: "nat \<Rightarrow> 'c daemon \<Rightarrow> bytes list" where
  "pending_by i d = (if i < length (captures d) then pending_of (captures d ! i) else [])"

lemmas source_defs = arrived_at_def sent_by_def lost_by_def pending_by_def

lemma mset_concat_update:
  "i < length xs \<Longrightarrow> mset (concat (map g (xs[i := y]))) + mset (g (xs ! i)) = mset (concat (map g xs)) + mset (g y)"
proof (induction xs arbitrary: i)
  case (Cons x xs)
  then show ?case by (cases i) (simp_all add: union_assoc union_commute union_lcomm)
qed simp

lemma pending_update:
  assumes "i < length (captures d)" "captures d' = (captures d)[i := t]"
  shows "mset (pending d') + mset (pending_of (captures d ! i)) = mset (pending d) + mset (pending_of t)"
  using mset_concat_update [OF assms(1), of pending_of t] by (simp add: pending_def assms(2))

lemma pending_tagged_frames: "map snd (pending_tagged (captures d)) = pending d"
proof -
  have "map snd (concat (map (\<lambda>(i, t). map (Pair i) (pending_of t)) (enumerate k ts))) = concat (map pending_of ts)"
    for k ts by (induction ts arbitrary: k) (simp_all add: comp_def)
  then show ?thesis by (simp add: pending_tagged_def pending_def)
qed

lemma pending_tagged_source:
  "map snd (filter (\<lambda>a. fst a = i) (pending_tagged ts)) = (if i < length ts then pending_of (ts ! i) else [])"
proof -
  have "map snd (filter (\<lambda>a. fst a = i) (concat (map (\<lambda>(j, t). map (Pair j) (pending_of t)) (enumerate k ts)))) =
      (if k \<le> i \<and> i < k + length ts then pending_of (ts ! (i - k)) else [])" for k
  proof (induction ts arbitrary: k)
    case (Cons t ts)
    have "map snd (filter (\<lambda>a. fst a = i) (map (Pair k) (pending_of t))) = (if k = i then pending_of t else [])"
      by (simp add: filter_map comp_def)
    moreover have "i - k = Suc (i - Suc k)" if "Suc k \<le> i" using that by simp
    ultimately show ?case using Cons [of "Suc k"] by (auto simp: nth_Cons')
  qed auto
  from this [of 0] show ?thesis by (simp add: pending_tagged_def)
qed

lemma ended_pending: "ended t \<Longrightarrow> pending_of t = []"
  by (auto simp: ended_def pending_of_def)

lemma ended_pending_all: "list_all ended (captures d) \<Longrightarrow> pending d = []"
  by (auto simp: pending_def list_all_iff ended_pending)

text \<open>
  Forwarding keeps every relayed frame: what was sent is what was taken and what the channel holds;
  per source, what was sent, lost and is waiting to be sent is, in this order, what its accepted
  arrivals relay; nothing is lost before a shutdown. The inject task ends only after every capture
  task, and then on an empty channel unless it was aborted.
\<close>

definition forward_ok :: "('c \<Rightarrow> bytes list) \<Rightarrow> Filter \<Rightarrow> 'c daemon \<Rightarrow> bool" where
  "forward_ok contents f d \<longleftrightarrow> map snd (sent d) = taken d @ contents (chan d) \<and>
     (\<forall>i. sent_by i d @ lost_by i d @ pending_by i d = concat (map (relayed f) (arrived_at i d))) \<and>
     mset (map snd (sent d)) + mset (map snd (lost d)) + mset (pending d) =
       mset (concat (map (relayed f) (map snd (arrivals d)))) \<and>
     subseq (map snd (attempts d)) (taken d) \<and> (lost d \<noteq> [] \<or> cut_off d \<noteq> [] \<longrightarrow> stopped d) \<and>
     (stopped d \<longrightarrow> injector d = InjectDone) \<and> (injector d = InjectDone \<longrightarrow> list_all ended (captures d) \<and> (stopped d \<or> contents (chan d) = []))"

lemma forward_okI:
  assumes "map snd (sent d) = taken d @ contents (chan d)"
    "\<And>i. sent_by i d @ lost_by i d @ pending_by i d = concat (map (relayed f) (arrived_at i d))"
    "mset (map snd (sent d)) + mset (map snd (lost d)) + mset (pending d) =
       mset (concat (map (relayed f) (map snd (arrivals d))))"
    "subseq (map snd (attempts d)) (taken d)" "lost d \<noteq> [] \<or> cut_off d \<noteq> [] \<Longrightarrow> stopped d"
    "stopped d \<Longrightarrow> injector d = InjectDone"
    "injector d = InjectDone \<Longrightarrow> list_all ended (captures d) \<and> (stopped d \<or> contents (chan d) = [])"
  shows "forward_ok contents f d"
  using assms unfolding forward_ok_def by blast

lemma forward_okD:
  assumes "forward_ok contents f d"
  shows "map snd (sent d) = taken d @ contents (chan d)"
    "sent_by i d @ lost_by i d @ pending_by i d = concat (map (relayed f) (arrived_at i d))"
    "mset (map snd (sent d)) + mset (map snd (lost d)) + mset (pending d) =
       mset (concat (map (relayed f) (map snd (arrivals d))))"
    "subseq (map snd (attempts d)) (taken d)" "lost d \<noteq> [] \<or> cut_off d \<noteq> [] \<Longrightarrow> stopped d"
    "stopped d \<Longrightarrow> injector d = InjectDone"
    "injector d = InjectDone \<Longrightarrow> list_all ended (captures d) \<and> (stopped d \<or> contents (chan d) = [])"
  using assms unfolding forward_ok_def by blast+

text \<open>A step of the inject task or of the clock leaves the history of the sources alone.\<close>

lemma forward_ok_same:
  assumes "forward_ok contents f d" "captures d' = captures d" "sent d' = sent d" "lost d' = lost d"
    "arrivals d' = arrivals d" "map snd (sent d) = taken d' @ contents (chan d')"
    "subseq (map snd (attempts d')) (taken d')" "lost d \<noteq> [] \<or> cut_off d' \<noteq> [] \<Longrightarrow> stopped d'"
    "stopped d' \<Longrightarrow> injector d' = InjectDone"
    "injector d' = InjectDone \<Longrightarrow> list_all ended (captures d) \<and> (stopped d' \<or> contents (chan d') = [])"
  shows "forward_ok contents f d'"
proof -
  have "pending d' = pending d" "sent_by i d' = sent_by i d" "lost_by i d' = lost_by i d"
    "pending_by i d' = pending_by i d" "arrived_at i d' = arrived_at i d" for i
    by (simp_all add: pending_def source_defs assms(2-5))
  with assms forward_okD [OF assms(1)] show ?thesis by (intro forward_okI) auto
qed

definition observe_ok :: "'c daemon \<Rightarrow> bool" where
  "observe_ok d \<longleftrightarrow> injector d = InjectDone \<and> pending d = [] \<and> sent d = [] \<and> taken d = [] \<and> attempts d = [] \<and>
     lost d = [] \<and> cut_off d = []"

definition queue_ok :: "('c \<Rightarrow> bytes list) \<Rightarrow> ('c \<Rightarrow> nat) \<Rightarrow> 'c daemon \<Rightarrow> bool" where
  "queue_ok contents capacity d \<longleftrightarrow>
     capacity (chan d) = QUEUE_DEPTH \<and> length (contents (chan d)) \<le> QUEUE_DEPTH"

lemma relayed_cases: obtains "relayed f a = []" | x where "relayed f a = [x]"
  by (cases "classify (fst a) (snd a) f") (auto simp: relayed_def)

context bounded_fifo
begin

lemma step_queue_ok:
  assumes "step ch f forward ev d d'" "queue_ok contents capacity d"
  shows "queue_ok contents capacity d'"
  using assms(1)
proof cases
  case (send i x c)
  have "ch_send ch x (chan d) \<noteq> None" using send by simp
  then show ?thesis
    using send(2) send_contents [OF send(6)] assms(2) by (auto simp: queue_ok_def send_full)
next
  case (take x c st l cs)
  then show ?thesis using recv_contents [OF take(4)] assms(2) by (simp add: queue_ok_def)
qed (use assms(2) in \<open>simp_all add: queue_ok_def\<close>)

lemma receive_forward_ok:
  assumes "forward_ok contents f d" "i < length (captures d)" "cap_state (captures d ! i) = Receiving"
    and "d' = d\<lparr>captures := (captures d)[i := t], counters := cs, arrivals := arrivals d @ [(i, a)]\<rparr>"
    and "pending_of t = relayed f a"
  shows "forward_ok contents f d'"
proof (rule forward_okI)
  have "\<not> ended (captures d ! i)" using assms(3) by (simp add: ended_def)
  then have "injector d \<noteq> InjectDone" using forward_okD(7) [OF assms(1)] assms(2) by (auto simp: list_all_length)
  then show "injector d' = InjectDone \<Longrightarrow> list_all ended (captures d') \<and> (stopped d' \<or> contents (chan d') = [])"
    by (simp add: assms(4))
  have "captures d' = (captures d)[i := t]" by (simp add: assms(4))
  from pending_update [OF assms(2) this]
  have "mset (pending d') = mset (pending d) + mset (relayed f a)"
    using assms(3,5) by (simp add: pending_of_def)
  then show "mset (map snd (sent d')) + mset (map snd (lost d')) + mset (pending d') =
       mset (concat (map (relayed f) (map snd (arrivals d'))))"
    using forward_okD(3) [OF assms(1)] by (simp add: assms(4) flip: union_assoc)
  have p: "pending_by i d = []" using assms(2,3) by (simp add: pending_by_def pending_of_def)
  show "sent_by j d' @ lost_by j d' @ pending_by j d' = concat (map (relayed f) (arrived_at j d'))" for j
    using forward_okD(2) [OF assms(1), of j] p assms(2,5) by (auto simp: source_defs assms(4))
qed (use forward_okD [OF assms(1)] in \<open>simp_all add: assms(4)\<close>)

lemma step_forward_ok:
  assumes "wf_Filter f" "distinct_peers f" "step ch f True ev d d'" "tasks_ok d" "forward_ok contents f d"
  shows "forward_ok contents f d'"
  using assms(3)
proof cases
  case (receive i evs n vlan buf rest out cs)
  note view = step_receive_view [OF assms(1,2,4) receive(3,5-7)]
  have "pending_of \<lparr>cap_state = outcome_state out, cap_buf = buf\<rparr> = relayed f (take n buf, vlan)"
    by (cases rule: relayed_cases [of f "(take n buf, vlan)"]) (simp_all add: pending_of_def view(1))
  then show ?thesis by (rule receive_forward_ok [OF assms(5) receive(3,4,2)])
next
  case (receive_error i evs e buf rest)
  show ?thesis
  proof (rule forward_okI)
    have "\<not> ended (captures d ! i)" using receive_error(4) by (simp add: ended_def)
    then have "injector d \<noteq> InjectDone"
      using forward_okD(7) [OF assms(5)] receive_error(3) by (auto simp: list_all_length)
    then show "injector d' = InjectDone \<Longrightarrow> list_all ended (captures d') \<and> (stopped d' \<or> contents (chan d') = [])"
      by (simp add: receive_error(2))
    have "captures d' = (captures d)[i := \<lparr>cap_state = CaptureDone, cap_buf = buf\<rparr>]"
      by (simp add: receive_error(2))
    from pending_update [OF receive_error(3) this] have "mset (pending d') = mset (pending d)"
      using receive_error(4) by (simp add: pending_of_def)
    then show "mset (map snd (sent d')) + mset (map snd (lost d')) + mset (pending d') =
       mset (concat (map (relayed f) (map snd (arrivals d'))))"
      using forward_okD(3) [OF assms(5)] by (simp add: receive_error(2))
    show "sent_by j d' @ lost_by j d' @ pending_by j d' = concat (map (relayed f) (arrived_at j d'))" for j
      using forward_okD(2) [OF assms(5), of j] receive_error(3,4)
      by (auto simp: source_defs receive_error(2) nth_list_update pending_of_def split: if_splits)
  qed (use forward_okD [OF assms(5)] in \<open>simp_all add: receive_error(2)\<close>)
next
  case (send i x c)
  show ?thesis
  proof (rule forward_okI)
    have "captures d' = (captures d)[i := (captures d ! i)\<lparr>cap_state := Receiving\<rparr>]" by (simp add: send(2))
    from pending_update [OF send(3) this] have "mset (pending d) = mset (pending d') + {#x#}"
      using send(4) by (simp add: pending_of_def)
    then show "mset (map snd (sent d')) + mset (map snd (lost d')) + mset (pending d') =
       mset (concat (map (relayed f) (map snd (arrivals d'))))"
      using forward_okD(3) [OF assms(5)] by (simp add: send(2))
    have nl: "lost_by i d = []"
    proof -
      have "lost d = []" using forward_okD(5,6) [OF assms(5)] send(5) by blast
      then show ?thesis by (simp add: lost_by_def)
    qed
    show "sent_by j d' @ lost_by j d' @ pending_by j d' = concat (map (relayed f) (arrived_at j d'))" for j
      using forward_okD(2) [OF assms(5), of j] send(3,4) nl
      by (auto simp: source_defs send(2) nth_list_update pending_of_def split: if_splits)
  qed (use forward_okD [OF assms(5)] send_contents [OF send(6)] send(5) in \<open>simp_all add: send(2)\<close>)
next
  case (send_closed i x)
  have "\<not> ended (captures d ! i)" using send_closed(4) by (simp add: ended_def)
  then have False using forward_okD(7) [OF assms(5)] send_closed(3,5) by (auto simp: list_all_length)
  then show ?thesis ..
next
  case (take x c st l cs)
  have "st \<noteq> InjectDone" using take(5) by (auto elim: inject_frame_cases)
  moreover have "\<not> stopped d" using forward_okD(6) [OF assms(5)] take(3) by auto
  moreover have "subseq (map snd (attempts d')) (taken d')"
    using forward_okD(4) [OF assms(5)] by (auto simp: take(2) list_emb_append_mono)
  ultimately show ?thesis
    using forward_okD(1,5) [OF assms(5)] recv_contents [OF take(4)]
    by (intro forward_ok_same [OF assms(5)]) (auto simp: take(2))
next
  case (inject x dev_send)
  then show ?thesis
    using forward_okD(1,4,5,6) [OF assms(5)] by (intro forward_ok_same [OF assms(5)]) auto
next
  case hang_up
  then show ?thesis
    using forward_okD(1,4,5,6) [OF assms(5)] recv_empty by (intro forward_ok_same [OF assms(5)]) auto
next
  case (tick t)
  then show ?thesis
    using forward_okD(1,4,5,6,7) [OF assms(5)] by (intro forward_ok_same [OF assms(5)]) auto
next
  case shutdown
  show ?thesis
  proof (rule forward_okI)
    have "pending d' = []" by (auto simp: shutdown(2) pending_def pending_of_def)
    then show "mset (map snd (sent d')) + mset (map snd (lost d')) + mset (pending d') =
       mset (concat (map (relayed f) (map snd (arrivals d'))))"
      using forward_okD(3) [OF assms(5)] by (simp add: shutdown(2) pending_tagged_frames add.assoc)
    show "sent_by j d' @ lost_by j d' @ pending_by j d' = concat (map (relayed f) (arrived_at j d'))" for j
      using forward_okD(2) [OF assms(5), of j]
      by (simp add: source_defs shutdown(2) pending_tagged_source pending_of_def split: if_splits)
  qed (use forward_okD [OF assms(5)] in \<open>simp_all add: shutdown(2) list_all_iff ended_def\<close>)
qed

lemma reachable_queue_ok: "reachable ch f forward pps d \<Longrightarrow> queue_ok contents capacity d"
proof (induction rule: reachable.induct)
  case (start instant n)
  then show ?case by (simp add: queue_ok_def daemon_start_def new_contents new_capacity)
next
  case (steps d ev d')
  then show ?case using step_queue_ok by blast
qed

lemma reachable_forward_ok:
  assumes "wf_Filter f" "distinct_peers f" "reachable ch f True pps d"
  shows "forward_ok contents f d"
  using assms(3)
proof (induction rule: reachable.induct)
  case (start instant n)
  then show ?case
    by (simp add: forward_ok_def daemon_start_def new_contents pending_def pending_of_def source_defs)
next
  case (steps d ev d')
  then show ?case using step_forward_ok [OF assms(1,2)] reachable_tasks_ok [OF assms(1,2)] by blast
qed

lemma sent_legitimate:
  assumes "wf_Filter f" "distinct_peers f" "reachable ch f True pps d" "x \<in> set (map snd (sent d))"
  shows "legitimate f x"
proof -
  have "x \<in># mset (concat (map (relayed f) (map snd (arrivals d))))"
    unfolding forward_okD(3) [OF reachable_forward_ok [OF assms(1-3)], symmetric] using assms(4) by auto
  then show ?thesis by (auto intro: relayed_legitimate [OF assms(1,2)])
qed

lemma attempts_in_order:
  assumes "wf_Filter f" "distinct_peers f" "reachable ch f True pps d"
  shows "subseq (map snd (attempts d)) (map snd (sent d))"
  using forward_okD(1,4) [OF reachable_forward_ok [OF assms]] by (auto simp: subseq_order.trans)

end

lemma step_observe_ok:
  assumes "wf_Filter f" "distinct_peers f" "step ch f False ev d d'" "tasks_ok d" "observe_ok d"
  shows "observe_ok d'"
  using assms(3)
proof cases
  case (receive i evs n vlan buf rest out cs)
  note view = step_receive_view [OF assms(1,2,4) receive(3,5-7)]
  have "captures d' = (captures d)[i := \<lparr>cap_state = outcome_state out, cap_buf = buf\<rparr>]"
    by (simp add: receive(2))
  from pending_update [OF receive(3) this] have "mset (pending d') = {#}"
    using receive(4) assms(5)
    by (cases rule: relayed_cases [of f "(take n buf, vlan)"]) (simp_all add: pending_of_def view(1) observe_ok_def)
  then show ?thesis using assms(5) by (simp add: observe_ok_def receive(2))
next
  case (receive_error i evs e buf rest)
  have "captures d' = (captures d)[i := \<lparr>cap_state = CaptureDone, cap_buf = buf\<rparr>]"
    by (simp add: receive_error(2))
  from pending_update [OF receive_error(3) this] have "mset (pending d') = {#}"
    using assms(5) by (simp add: pending_of_def observe_ok_def)
  then show ?thesis using assms(5) by (simp add: observe_ok_def receive_error(2))
next
  case (send_closed i x)
  then have "pending_of (captures d ! i) = [x]" by (simp add: pending_of_def)
  then have "x \<in> set (pending d)"
    unfolding pending_def using send_closed(3) by (auto intro!: bexI [of _ "captures d ! i"])
  then show ?thesis using assms(5) by (simp add: observe_ok_def)
next
  case shutdown
  have "pending_tagged (captures d) = []"
    using pending_tagged_frames [of d] assms(5) by (simp add: observe_ok_def)
  moreover have "pending d' = []" by (auto simp: shutdown(2) pending_def pending_of_def)
  ultimately show ?thesis using assms(5) unfolding observe_ok_def by (simp add: shutdown(2))
qed (use assms(5) in \<open>auto simp: observe_ok_def pending_def\<close>)

lemma reachable_observe_ok:
  assumes "wf_Filter f" "distinct_peers f" "reachable ch f False pps d"
  shows "observe_ok d"
  using assms(3)
proof induction
  case (start instant n)
  then show ?case by (simp add: observe_ok_def daemon_start_def pending_def pending_of_def)
next
  case (steps d ev d')
  then show ?case using step_observe_ok [OF assms(1,2)] reachable_tasks_ok [OF assms(1,2)] by blast
qed

section \<open>Census of the arrivals\<close>

definition census :: "Filter \<Rightarrow> bool \<Rightarrow> (bytes \<times> Vlan) list \<Rightarrow> Counter \<Rightarrow> nat" where
  "census f forward as c = count_list (concat (map (capture_bumps f forward) as)) c"

lemma census_simps [simp]:
  "census f forward [] c = 0"
  "census f forward (a # as) c = count_list (capture_bumps f forward a) c + census f forward as c"
  by (simp_all add: census_def)

lemma kind_not_reject: "kind_counter k \<notin> set reject_counters" "kind_counter k \<noteq> Seen"
  "kind_counter k \<noteq> Matched" "kind_counter k \<noteq> Observed"
  using kind_counter_in [of k] by (auto simp: kind_counters_def reject_counters_def)

lemma reject_not_other: "c \<in> set reject_counters \<Longrightarrow> c \<notin> set kind_counters \<and> c \<noteq> Seen \<and> c \<noteq> Matched \<and> c \<noteq> Observed"
  by (auto simp: kind_counters_def reject_counters_def)

lemma census_arrivals:
  shows census_Seen: "census f forward as Seen = length as"
    and census_reject: "c \<in> set reject_counters \<Longrightarrow>
      census f forward as c = length (filter (\<lambda>a. classify (fst a) (snd a) f = Inl c) as)"
    and census_kind: "c \<in> set kind_counters \<Longrightarrow> census f forward as c =
      length (filter (\<lambda>a. \<exists>m. classify (fst a) (snd a) f = Inr m \<and> kind_counter (kind m) = c) as)"
    and census_Matched: "census f forward as Matched = length (concat (map (relayed f) as))"
    and census_Observed: "census f forward as Observed = (if forward then 0 else census f forward as Matched)"
proof (induction as)
  case (Cons a as)
  { case 1
    show ?case using Cons(1)
      by (cases "classify (fst a) (snd a) f")
        (auto simp: capture_bumps_def kind_not_reject dest!: classify_error [THEN reject_not_other])
  next
    case 2
    then show ?case using Cons(2) reject_not_other [OF 2]
      by (cases "classify (fst a) (snd a) f") (auto simp: capture_bumps_def kind_not_reject)
  next
    case 3
    then show ?case using Cons(3)
      by (cases "classify (fst a) (snd a) f")
        (auto simp: capture_bumps_def kind_counters_def dest!: classify_error [THEN reject_not_other])
  next
    case 4
    show ?case using Cons(4)
      by (cases "classify (fst a) (snd a) f")
        (auto simp: capture_bumps_def relayed_def kind_not_reject dest!: classify_error [THEN reject_not_other])
  next
    case 5
    show ?case using Cons(5)
      by (cases "classify (fst a) (snd a) f")
        (auto simp: capture_bumps_def kind_not_reject dest!: classify_error [THEN reject_not_other]) }
qed simp_all

lemma census_total:
  "census f forward as Seen = census f forward as Matched + sum_list (map (census f forward as) reject_counters)"
  "census f forward as Matched = sum_list (map (census f forward as) kind_counters)"
proof (induction as)
  case (Cons a as)
  { case 1
    show ?case
    proof (cases "classify (fst a) (snd a) f")
      case (Inl c)
      with classify_error [OF Inl] Cons(1) show ?thesis by (auto simp: capture_bumps_def reject_counters_def)
    next
      case (Inr m)
      with Cons(1) kind_not_reject [of "kind m"] show ?thesis
        by (auto simp: capture_bumps_def reject_counters_def)
    qed
  next
    case 2
    show ?case
    proof (cases "classify (fst a) (snd a) f")
      case (Inl c)
      with classify_error [OF Inl] Cons(2) show ?thesis
        by (auto simp: capture_bumps_def reject_counters_def kind_counters_def)
    next
      case (Inr m)
      with Cons(2) kind_counter_in [of "kind m"] show ?thesis
        by (auto simp: capture_bumps_def kind_counters_def)
    qed }
qed (simp_all add: reject_counters_def kind_counters_def)

lemma counter_census:
  assumes "counts_ok f forward d" "c \<in> set reject_counters \<union> set kind_counters \<union> {Seen, Matched, Observed}"
  shows "counter (counters d) c = of_nat (census f forward (map snd (arrivals d)) c)"
  using assms by (auto simp: counts_ok_def census_def reject_counters_def kind_counters_def)

end
