(* ===== verification/Progress.thy ===== *)
theory Progress
  imports Invariants
begin

text \<open>
  Progress of the daemon, and its refinement of an abstract relay. The internal events are those the
  daemon performs on its own, without a new frame, an error, the clock or a shutdown; they terminate,
  and when none is left every frame has been dealt with. The abstract relay is a backlog of admitted
  frames from which frames are written while the budget of the second lasts and dropped only when
  it is used up.
\<close>

section \<open>Internal events\<close>

fun internal :: "event \<Rightarrow> bool" where
  "internal (Sent i) = True"
| "internal Taken = True"
| "internal Written = True"
| "internal HungUp = True"
| "internal _ = False"

definition istep :: "'c channel \<Rightarrow> Filter \<Rightarrow> 'c daemon \<Rightarrow> 'c daemon \<Rightarrow> bool" where
  "istep ch f d d' \<longleftrightarrow> (\<exists>ev. internal ev \<and> step ch f True ev d d')"

lemma istepE:
  assumes "istep ch f d d'"
  obtains i where "step ch f True (Sent i) d d'" | "step ch f True Taken d d'"
    | "step ch f True Written d d'" | "step ch f True HungUp d d'"
proof -
  from assms obtain ev where "internal ev" "step ch f True ev d d'" by (auto simp: istep_def)
  then show thesis using that by (cases ev) auto
qed

text \<open>What the daemon has left to do: up to three steps per frame, and the end of the inject task.\<close>

definition work :: "('c \<Rightarrow> bytes list) \<Rightarrow> 'c daemon \<Rightarrow> nat" where
  "work contents d = 3 * length (pending d) + 2 * length (contents (chan d)) +
     (case injector d of Injecting _ \<Rightarrow> 2 | Waiting \<Rightarrow> 1 | InjectDone \<Rightarrow> 0)"

definition settled :: "('c \<Rightarrow> bytes list) \<Rightarrow> 'c daemon \<Rightarrow> bool" where
  "settled contents d \<longleftrightarrow> pending d = [] \<and> contents (chan d) = [] \<and> (\<forall>x. injector d \<noteq> Injecting x) \<and>
     (list_all ended (captures d) \<longrightarrow> injector d = InjectDone)"

lemma length_pending_update:
  assumes "i < length (captures d)" "captures d' = (captures d)[i := t]"
  shows "length (pending d') + length (pending_of (captures d ! i)) = length (pending d) + length (pending_of t)"
  using pending_update [OF assms] by (metis size_mset size_union)

lemma length_pending_le: "length (pending d) \<le> length (captures d)"
proof -
  have "length (concat (map pending_of ts)) \<le> length ts" for ts
    by (induction ts) (auto simp: pending_of_def split: capture_state.splits)
  then show ?thesis by (simp add: pending_def)
qed

context bounded_fifo
begin

lemma istep_work: "istep ch f d d' \<Longrightarrow> work contents d' < work contents d"
proof (elim istepE)
  fix i assume "step ch f True (Sent i) d d'"
  then obtain x c where s: "i < length (captures d)" "cap_state (captures d ! i) = Sending x" "ch_send ch x (chan d) = Some c"
    "captures d' = (captures d)[i := (captures d ! i)\<lparr>cap_state := Receiving\<rparr>]" "chan d' = c" "injector d' = injector d"
    by (auto elim: step_Sent_E)
  have "length (pending d') + 1 = length (pending d)"
    using length_pending_update [OF s(1,4)] s(2) by (simp add: pending_of_def)
  then show ?thesis using s send_contents [OF s(3)] by (simp add: work_def)
next
  assume "step ch f True Taken d d'"
  then show ?thesis
    by (cases rule: step_Taken_E)
      (use recv_contents in \<open>auto simp: work_def pending_def elim!: inject_frame_cases dest!: recv_contents\<close>)
next
  assume "step ch f True Written d d'"
  then show ?thesis by (auto simp: work_def pending_def elim: step_Written_E)
next
  assume "step ch f True HungUp d d'"
  then show ?thesis by (auto simp: work_def pending_def elim: step_HungUp_E)
qed

lemma isteps_bounded: "(istep ch f ^^ n) d d' \<Longrightarrow> n + work contents d' \<le> work contents d"
proof (induction n arbitrary: d')
  case (Suc n)
  then obtain e where "(istep ch f ^^ n) d e" "istep ch f e d'" by auto
  with Suc.IH [of e] istep_work [of f e d'] show ?case by simp
qed simp

text \<open>Nothing blocks for ever: an unsettled daemon has an internal step.\<close>

lemma istep_enabled:
  assumes "forward_ok contents f d" "capacity (chan d) = QUEUE_DEPTH" "\<not> stopped d" "\<not> settled contents d"
  shows "\<exists>d'. istep ch f d d'"
proof (cases "injector d")
  case (Injecting x)
  then show ?thesis using step.inject [OF Injecting] unfolding istep_def by (metis internal.simps(3))
next
  case InjectDone
  then show ?thesis
    using forward_okD(7) [OF assms(1) InjectDone] assms(3,4) by (simp add: settled_def ended_pending_all)
next
  case Waiting
  show ?thesis
  proof (cases "ch_recv ch (chan d)")
    case (Some p)
    obtain x c where p: "ch_recv ch (chan d) = Some (x, c)" using Some by (cases p) auto
    obtain st l cs where "inject_frame (limiter d) (now_secs d) (counters d) x = (st, l, cs)" by (metis prod_cases3)
    from step.take [OF Waiting p this] show ?thesis unfolding istep_def by (metis internal.simps(2))
  next
    case None
    then have empty: "contents (chan d) = []" by (simp add: recv_empty)
    show ?thesis
    proof (cases "list_all ended (captures d)")
      case True
      from step.hang_up [OF Waiting None True] show ?thesis unfolding istep_def by (metis internal.simps(4))
    next
      case False
      then have "pending d \<noteq> []" using assms(4) Waiting empty by (simp add: settled_def)
      then obtain t where "t \<in> set (captures d)" "pending_of t \<noteq> []" by (auto simp: pending_def)
      then obtain i x where i: "i < length (captures d)" "cap_state (captures d ! i) = Sending x"
        by (cases "cap_state t") (auto simp: pending_of_def in_set_conv_nth)
      obtain c where "ch_send ch x (chan d) = Some c"
        using send_full [of x "chan d"] empty assms(2) by (auto simp: QUEUE_DEPTH_def)
      from step.send [OF i _ this] Waiting show ?thesis unfolding istep_def by (metis inject_state.distinct(3) internal.simps(1))
    qed
  qed
qed

lemma istep_stopped: "istep ch f d d' \<Longrightarrow> stopped d' = stopped d \<and> arrivals d' = arrivals d \<and> length (captures d') = length (captures d)"
  by (elim istepE step_Sent_E step_Taken_E step_Written_E step_HungUp_E) auto

lemma istep_reachable: "reachable ch f True pps d \<Longrightarrow> istep ch f d d' \<Longrightarrow> reachable ch f True pps d'"
  by (auto simp: istep_def intro: reachable.steps)

lemma isteps_keep:
  "(istep ch f)\<^sup>*\<^sup>* d d' \<Longrightarrow> reachable ch f True pps d \<Longrightarrow>
    reachable ch f True pps d' \<and> stopped d' = stopped d \<and> arrivals d' = arrivals d"
  by (induction rule: rtranclp_induct) (auto intro: istep_reachable dest: istep_stopped)

lemma reach_settled:
  assumes "wf_Filter f" "distinct_peers f"
  shows "reachable ch f True pps d \<Longrightarrow> \<not> stopped d \<Longrightarrow>
    \<exists>d'. (istep ch f)\<^sup>*\<^sup>* d d' \<and> settled contents d' \<and> \<not> stopped d' \<and> arrivals d' = arrivals d \<and> reachable ch f True pps d'"
proof (induction "work contents d" arbitrary: d rule: less_induct)
  case less
  show ?case
  proof (cases "settled contents d")
    case True
    with less.prems show ?thesis by blast
  next
    case False
    have "capacity (chan d) = QUEUE_DEPTH" using reachable_queue_ok [OF less.prems(1)] by (simp add: queue_ok_def)
    with False obtain e where e: "istep ch f d e"
      using istep_enabled [OF reachable_forward_ok [OF assms less.prems(1)]] less.prems(2) by blast
    from less.hyps [OF istep_work [OF e]] istep_stopped [OF e] istep_reachable [OF less.prems(1) e] less.prems(2)
    obtain d' where "(istep ch f)\<^sup>*\<^sup>* e d'" "settled contents d'" "\<not> stopped d'" "arrivals d' = arrivals d"
      "reachable ch f True pps d'" by auto
    with e show ?thesis by (meson converse_rtranclp_into_rtranclp)
  qed
qed

text \<open>In a settled state every frame of an accepted arrival has gone through the inject task.\<close>

lemma settled_taken:
  assumes "forward_ok contents f d" "settled contents d" "\<not> stopped d"
  shows "mset (taken d) = mset (concat (map (relayed f) (map snd (arrivals d))))"
proof -
  have "lost d = []" using forward_okD(5) [OF assms(1)] assms(3) by blast
  moreover have "map snd (sent d) = taken d" using forward_okD(1) [OF assms(1)] assms(2) by (simp add: settled_def)
  ultimately show ?thesis using forward_okD(3) [OF assms(1)] assms(2) by (simp add: settled_def flip: mset_map)
qed

end

end
