(* ===== verification/Refinement.thy ===== *)
theory Refinement
  imports Progress
begin

text \<open>
  What the daemon promises, as an abstract machine: admitted frames enter a backlog in any number; a
  frame of the backlog is written while fewer than the budget were written in the current second,
  and dropped only when the budget is used up; time never runs backwards; a stop abandons the
  backlog. The daemon in forward mode implements it, with tasks, channel and limiter hidden.
\<close>

record relay =
  backlog :: "bytes multiset"
  writes :: "(u64 \<times> bytes) list"
  second :: u64

definition spent_in :: "relay \<Rightarrow> nat" where
  "spent_in r = length (filter (\<lambda>a. fst a = second r) (writes r))"

definition relay_start :: relay where
  "relay_start = \<lparr>backlog = {#}, writes = [], second = 0\<rparr>"

inductive relay_step :: "(bytes \<Rightarrow> bool) \<Rightarrow> nat \<Rightarrow> relay \<Rightarrow> relay \<Rightarrow> bool"
  for admitted :: "bytes \<Rightarrow> bool" and budget :: nat where
  arrive: "relay_step admitted budget r (r\<lparr>backlog := add_mset x (backlog r)\<rparr>)"
  if "admitted x"
| relay_write: "relay_step admitted budget r (r\<lparr>backlog := backlog r - {#x#}, writes := writes r @ [(second r, x)]\<rparr>)"
  if "x \<in># backlog r" "spent_in r < budget"
| relay_drop: "relay_step admitted budget r (r\<lparr>backlog := backlog r - {#x#}\<rparr>)"
  if "x \<in># backlog r" "spent_in r = budget"
| pass: "relay_step admitted budget r (r\<lparr>second := t\<rparr>)"
  if "second r \<le> t"
| abandon: "relay_step admitted budget r (r\<lparr>backlog := {#}\<rparr>)"

definition abs_relay :: "('c \<Rightarrow> bytes list) \<Rightarrow> 'c daemon \<Rightarrow> relay" where
  "abs_relay contents d = \<lparr>
     backlog = (if stopped d then {#} else mset (pending d) + mset (contents (chan d))),
     writes = attempts d, second = now_secs d\<rparr>"

lemma abs_relay_eqI:
  assumes "stopped d' = stopped d" "attempts d' = attempts d" "now_secs d' = now_secs d"
    "mset (pending d') + mset (contents (chan d')) = mset (pending d) + mset (contents (chan d))"
  shows "abs_relay contents d' = abs_relay contents d"
  using assms by (simp add: abs_relay_def)

lemma spent_in_abs: "spent_in (abs_relay contents d) = written_at d (now_secs d)"
  by (simp add: spent_in_def abs_relay_def written_at_def)

context bounded_fifo
begin

lemma take_refines:
  assumes "forward_ok contents f d" "rate_ok pps d" "step ch f True Taken d d'"
  shows "relay_step (legitimate f) (unat pps) (abs_relay contents d) (abs_relay contents d')"
proof -
  from assms(3) obtain x c st l cs where t: "injector d = Waiting" "ch_recv ch (chan d) = Some (x, c)"
    "inject_frame (limiter d) (now_secs d) (counters d) x = (st, l, cs)"
    and d': "d' = d\<lparr>chan := c, injector := st, limiter := l, counters := cs, taken := taken d @ [x],
         attempts := attempts d @ (if st = Injecting x then [(now_secs d, x)] else [])\<rparr>"
    by (elim step_Taken_E) simp
  have c: "contents (chan d) = x # contents c" using recv_contents [OF t(2)] by simp
  have ns: "\<not> stopped d" using forward_okD(6) [OF assms(1)] t(1) by auto
  have ok: "limiter_ok pps (limiter d)" using assms(2) by (simp add: rate_ok_def)
  have sp: "spent_in (abs_relay contents d) = limiter_spent (limiter d) (now_secs d)"
    "spent_in (abs_relay contents d) \<le> unat pps"
    using assms(2) unfolding rate_ok_def spent_in_abs by (metis order_refl, blast)
  have x: "x \<in># backlog (abs_relay contents d)" using ns c by (simp add: abs_relay_def)
  have p: "pending d' = pending d" by (simp add: d' pending_def)
  show ?thesis
    using t(3)
  proof (cases rule: inject_frame_cases)
    case 1
    then have "spent_in (abs_relay contents d) < unat pps"
      using window_limiter.adm_grant [OF ok, of "now_secs d"] sp by simp
    from relay_step.relay_write [OF x this] show ?thesis using 1 ns c p by (simp add: abs_relay_def d')
  next
    case 2
    then have "spent_in (abs_relay contents d) = unat pps"
      using window_limiter.adm_grant [OF ok, of "now_secs d"] sp by simp
    from relay_step.relay_drop [OF x this] show ?thesis using 2 ns c p by (simp add: abs_relay_def d')
  qed
qed

lemma receive_refines:
  assumes "wf_Filter f" "distinct_peers f" "tasks_ok d" "forward_ok contents f d" "step ch f True (Received i) d d'"
  shows "abs_relay contents d' = abs_relay contents d \<or>
    relay_step (legitimate f) (unat pps) (abs_relay contents d) (abs_relay contents d')"
  using assms(5)
proof cases
  case (receive evs n vlan buf rest out cs)
  let ?a = "(take n buf, vlan)"
  note view = step_receive_view [OF assms(1-3) receive(2,4-6)]
  have "\<not> ended (captures d ! i)" using receive(3) by (simp add: ended_def)
  then have ns: "\<not> stopped d"
    using forward_okD(6,7) [OF assms(4)] receive(2) by (auto simp: list_all_length)
  have "captures d' = (captures d)[i := \<lparr>cap_state = outcome_state out, cap_buf = buf\<rparr>]" by (simp add: receive(1))
  from pending_update [OF receive(2) this] have p: "mset (pending d') = mset (pending d) + mset (relayed f ?a)"
    using receive(3) by (cases rule: relayed_cases [of f ?a]) (simp_all add: pending_of_def view(1))
  show ?thesis
  proof (cases rule: relayed_cases [of f ?a])
    case 1
    then have "abs_relay contents d' = abs_relay contents d" using p by (intro abs_relay_eqI) (simp_all add: receive(1))
    then show ?thesis ..
  next
    case (2 x)
    have "legitimate f x" using relayed_legitimate [OF assms(1,2), of x ?a] 2 by simp
    moreover have "abs_relay contents d' = (abs_relay contents d)\<lparr>backlog := add_mset x (backlog (abs_relay contents d))\<rparr>"
      using p 2 ns by (simp add: abs_relay_def receive(1) now_secs_def)
    ultimately show ?thesis using relay_step.arrive by metis
  qed
qed

lemma step_refines:
  assumes "wf_Filter f" "distinct_peers f" "tasks_ok d" "forward_ok contents f d" "rate_ok pps d" "step ch f True ev d d'"
  shows "abs_relay contents d' = abs_relay contents d \<or>
    relay_step (legitimate f) (unat pps) (abs_relay contents d) (abs_relay contents d')"
  using assms(6)
proof cases
  case (receive i)
  then show ?thesis using receive_refines [OF assms(1-4)] assms(6) by blast
next
  case (receive_error i evs e buf rest)
  have "captures d' = (captures d)[i := \<lparr>cap_state = CaptureDone, cap_buf = buf\<rparr>]" by (simp add: receive_error(2))
  from pending_update [OF receive_error(3) this] have "mset (pending d') = mset (pending d)"
    using receive_error(4) by (simp add: pending_of_def)
  then show ?thesis by (intro disjI1 abs_relay_eqI) (simp_all add: receive_error(2))
next
  case (send i x c)
  have "captures d' = (captures d)[i := (captures d ! i)\<lparr>cap_state := Receiving\<rparr>]" by (simp add: send(2))
  from pending_update [OF send(3) this] have "mset (pending d) = add_mset x (mset (pending d'))"
    using send(4) by (simp add: pending_of_def)
  then show ?thesis using send_contents [OF send(6)] by (intro disjI1 abs_relay_eqI) (simp_all add: send(2))
next
  case (send_closed i x)
  have "\<not> ended (captures d ! i)" using send_closed(4) by (simp add: ended_def)
  then have False using forward_okD(7) [OF assms(4)] send_closed(3,5) by (auto simp: list_all_length)
  then show ?thesis ..
next
  case take
  then show ?thesis using take_refines [OF assms(4,5)] assms(6) by blast
next
  case (tick t)
  have "now_secs d \<le> now_secs d'" using tick by (simp add: now_secs_def monotonic_secs_mono)
  moreover have "abs_relay contents d' = (abs_relay contents d)\<lparr>second := now_secs d'\<rparr>"
    by (simp add: abs_relay_def tick(2) pending_def)
  ultimately show ?thesis using relay_step.pass [of "abs_relay contents d"] by (simp add: abs_relay_def)
next
  case shutdown
  have "abs_relay contents d' = (abs_relay contents d)\<lparr>backlog := {#}\<rparr>" by (simp add: abs_relay_def shutdown(2))
  then show ?thesis using relay_step.abandon by metis
qed (intro disjI1 abs_relay_eqI; simp add: pending_def)+

lemma start_refines: "abs_relay contents (daemon_start ch True pps n instant) = relay_start"
  by (simp add: abs_relay_def daemon_start_def relay_start_def pending_def pending_of_def new_contents now_secs_def
      monotonic_secs_def)

lemma reachable_refines:
  assumes "wf_Filter f" "distinct_peers f" "reachable ch f True pps d"
  shows "(relay_step (legitimate f) (unat pps))\<^sup>*\<^sup>* relay_start (abs_relay contents d)"
  using assms(3)
proof induction
  case (start instant n)
  then show ?case by (simp add: start_refines)
next
  case (steps d ev d')
  from step_refines [OF assms(1,2) reachable_tasks_ok [OF assms(1,2) steps(1)]
      reachable_forward_ok [OF assms(1,2) steps(1)] reachable_rate_ok [OF steps(1)] steps(2)] steps.IH
  show ?case by (metis rtranclp.rtrancl_into_rtrancl)
qed

end

end
