(* ===== verification/Daemon.thy ===== *)
theory Daemon
  imports Refinement
begin

text \<open>
  What the daemon guarantees in every reachable state, each property with a witness on a run that
  takes one frame of the unit tests through the tasks.
\<close>

section \<open>One frame through the daemon\<close>

text \<open>A frame arrives at a daemon that was just started.\<close>

definition after_arrival :: "'c channel \<Rightarrow> Filter \<Rightarrow> bool \<Rightarrow> u32 \<Rightarrow> msg_in \<Rightarrow> 'c daemon" where
  "after_arrival ch f forward pps msg =
     (let d = daemon_start ch forward pps 1 0; r = in_data msg; vlan = msg_vlan msg
      in d\<lparr>captures := [\<lparr>cap_state = (case relayed f (r, vlan) of x # _ \<Rightarrow> if forward then Sending x else Receiving
               | [] \<Rightarrow> Receiving), cap_buf = r @ drop (length r) (replicate MAX_FRAME 0)\<rparr>],
           counters := foldl bump counters_new (capture_bumps f forward (r, vlan)),
           arrivals := [(0, r, vlan)]\<rparr>)"

lemma arrival_reachable:
  assumes "wf_Filter f" "distinct_peers f" "in_pkttype msg \<noteq> PACKET_OUTGOING" "length (in_data msg) \<le> MAX_FRAME"
  shows "reachable ch f forward pps (after_arrival ch f forward pps msg)"
proof -
  let ?d = "daemon_start ch forward pps 1 0"
  let ?r = "in_data msg" and ?b = "replicate MAX_FRAME (0 :: u8)"
  let ?buf = "?r @ drop (length ?r) ?b"
  let ?out = "case relayed f (?r, msg_vlan msg) of x # _ \<Rightarrow> if forward then Send x else Continue | [] \<Rightarrow> Continue"
  let ?cs = "foldl bump (counters ?d) (capture_bumps f forward (?r, msg_vlan msg))"
  let ?d1 = "?d\<lparr>captures := (captures ?d)[0 := \<lparr>cap_state = outcome_state ?out, cap_buf = ?buf\<rparr>], counters := ?cs,
         arrivals := arrivals ?d @ [(0, take (length ?r) ?buf, msg_vlan msg)]\<rparr>"
  have "recv [Ready (Inr msg)] ?b = (Some (Inr (length ?r, msg_vlan msg)), ?buf, [])"
    by (rule recv_incoming [OF assms(3)])
  moreover have "capture_received f forward ?buf (length ?r) (msg_vlan msg) (counters ?d) = (?out, ?cs)"
    using capture_received_eq [OF assms(1,2), of "length ?r" ?buf forward "msg_vlan msg" "counters ?d"] by simp
  ultimately have "step ch f forward (Received 0) ?d ?d1"
    using assms(4)
    by (intro step.receive [where evs = "[Ready (Inr msg)]" and rest = "[]"])
      (simp_all add: daemon_start_def del: recv.simps)
  moreover have "?d1 = after_arrival ch f forward pps msg"
    by (simp add: after_arrival_def daemon_start_def Let_def outcome_state_def split: list.splits)
  moreover have "reachable ch f forward pps ?d"
    by (rule reachable.start) (simp add: INSTANT_END_def NANOS_PER_SEC_def)
  ultimately show ?thesis using reachable.steps by metis
qed

context bounded_fifo
begin

text \<open>An accepted frame is relayed: forwarding, the daemon can reach the write of its untagged form.\<close>

lemma accepted_frame_written:
  assumes "wf_Filter f" "distinct_peers f" "in_pkttype msg \<noteq> PACKET_OUTGOING"
    and "classify (in_data msg) (msg_vlan msg) f = Inr m" "0 < pps"
  shows "\<exists>d x. untag (in_data msg) (msg_vlan msg) = Some x \<and> reachable ch f True pps d \<and>
    arrivals d = [(0, in_data msg, msg_vlan msg)] \<and> attempts d = [(0, x)] \<and> injector d = Injecting x"
proof -
  let ?d = "after_arrival ch f True pps msg"
  obtain x where x: "untag (in_data msg) (msg_vlan msg) = Some x"
    by (rule classify_untag [OF assms(1,2,4)])
  then have rel: "relayed f (in_data msg, msg_vlan msg) = [x]" using assms(4) by (simp add: relayed_def)
  have d: "reachable ch f True pps ?d"
    using arrival_reachable [OF assms(1-3)] classify_candidate [OF assms(4)] by blast
  have st: "captures ?d = [\<lparr>cap_state = Sending x, cap_buf = cap_buf (captures ?d ! 0)\<rparr>]"
    "chan ?d = ch_new ch QUEUE_DEPTH" "injector ?d = Waiting" "now_secs ?d = 0" "limiter ?d = Limiter_new pps"
    "attempts ?d = []" "arrivals ?d = [(0, in_data msg, msg_vlan msg)]"
    by (simp_all add: after_arrival_def daemon_start_def Let_def rel now_secs_def monotonic_secs_def)
  obtain c where c: "ch_send ch x (chan ?d) = Some c" "contents c = [x]"
    using send_full [of x "chan ?d"] send_contents [of x "chan ?d"]
    by (cases "ch_send ch x (chan ?d)") (auto simp: st new_contents new_capacity QUEUE_DEPTH_def)
  let ?d1 = "?d\<lparr>captures := (captures ?d)[0 := (captures ?d ! 0)\<lparr>cap_state := Receiving\<rparr>], chan := c,
         sent := sent ?d @ [(0, x)]\<rparr>"
  have "cap_state (captures ?d ! 0) = Sending x" by (subst st(1)) simp
  moreover have "0 < length (captures ?d)" by (subst st(1)) simp
  ultimately have "step ch f True (Sent 0) ?d ?d1" using c(1) st(3) by (intro step.send) simp_all
  then have r1: "reachable ch f True pps ?d1" by (rule reachable.steps [OF d])
  have "ch_recv ch c \<noteq> None" using c(2) by (simp add: recv_empty)
  then obtain y c' where y: "ch_recv ch c = Some (y, c')" by fast
  then have "y = x" using recv_contents [OF y] c(2) by simp
  have "unat pps \<noteq> 0" using assms(5) by (simp add: unat_eq_zero)
  then obtain l where adm: "inject_frame (limiter ?d1) (now_secs ?d1) (counters ?d1) x = (Injecting x, l, counters ?d1)"
    using st(4,5) by (simp add: inject_frame_def admit_cases limiter_spent_def Limiter_new_def)
  let ?d2 = "?d1\<lparr>chan := c', injector := Injecting x, limiter := l, counters := counters ?d1,
      taken := taken ?d1 @ [x], attempts := attempts ?d1 @ (if Injecting x = Injecting x then [(now_secs ?d1, x)] else [])\<rparr>"
  have "step ch f True Taken ?d1 ?d2" by (rule step.take) (use st(3) y \<open>y = x\<close> adm in simp_all)
  then have "reachable ch f True pps ?d2" by (rule reachable.steps [OF r1])
  moreover have "arrivals ?d2 = [(0, in_data msg, msg_vlan msg)]" "attempts ?d2 = [(0, x)]" "injector ?d2 = Injecting x"
    using st by simp_all
  ultimately show ?thesis using x by blast
qed

end

text \<open>A waiting source can receive any frame that fits the buffer.\<close>

lemma receive_possible:
  assumes "tasks_ok d" "i < length (captures d)" "cap_state (captures d ! i) = Receiving"
    and "in_pkttype msg \<noteq> PACKET_OUTGOING" "length (in_data msg) \<le> MAX_FRAME"
  shows "\<exists>d'. step ch f forward (Received i) d d' \<and>
    arrivals d' = arrivals d @ [(i, in_data msg, msg_vlan msg)] \<and> stopped d' = stopped d"
proof -
  let ?b = "cap_buf (captures d ! i)"
  let ?buf = "in_data msg @ drop (length (in_data msg)) ?b"
  have fit: "list_all (fits (length ?b)) [Ready (Inr msg)]" using tasks_okD [OF assms(1,2)] assms(5) by simp
  have rcv: "recv [Ready (Inr msg)] ?b = (Some (Inr (length (in_data msg), msg_vlan msg)), ?buf, [])"
    by (rule recv_incoming [OF assms(4)])
  obtain out cs where out: "capture_received f forward ?buf (length (in_data msg)) (msg_vlan msg) (counters d) = (out, cs)"
    by fastforce
  from step.receive [OF assms(2,3) fit rcv out] show ?thesis by (intro exI conjI) (assumption, simp_all)
qed

definition demo_frame :: bytes where
  "demo_frame = test_frame 5 False (test_tlv 1 nonce_bytes)"

definition plain_msg :: "bytes \<Rightarrow> msg_in" where
  "plain_msg r = \<lparr>in_data = r, in_pkttype = 0, in_control = []\<rparr>"

lemma plain_msg_simps [simp]:
  "in_data (plain_msg r) = r" "in_pkttype (plain_msg r) \<noteq> PACKET_OUTGOING" "msg_vlan (plain_msg r) = Vlan_default"
  by (simp_all add: plain_msg_def PACKET_OUTGOING_def msg_vlan_def)

lemma demo_accepted: "classify demo_frame Vlan_default test_filter = Inr \<lparr>kind = 5, body_offset = 18\<rparr>"
  by code_simp

lemma demo_reached:
  obtains d where "reachable list_channel test_filter forward 20 d" "arrivals d = [(0, demo_frame, Vlan_default)]"
    "captures d \<noteq> []"
proof (rule that)
  show "reachable list_channel test_filter forward 20 (after_arrival list_channel test_filter forward 20 (plain_msg demo_frame))"
    using classify_candidate [OF demo_accepted] by (intro arrival_reachable [OF test_filter_wf]) simp_all
qed (simp_all add: after_arrival_def Let_def)

lemma demo_written:
  obtains d where "reachable list_channel test_filter True 20 d" "arrivals d = [(0, demo_frame, Vlan_default)]"
    "attempts d = [(0, encode_untagged (test_msg 5))]" "injector d = Injecting (encode_untagged (test_msg 5))"
proof -
  have "untag demo_frame Vlan_default = Some (encode_untagged (test_msg 5))" by code_simp
  then show thesis
    using list_queue.accepted_frame_written [OF test_filter_wf, of "plain_msg demo_frame" _ 20] demo_accepted that
    by auto
qed

section \<open>The log line\<close>

text \<open>What a reader of the log finds for a counter: the value after its name, zero when it is not mentioned.\<close>

definition line_value :: "string \<Rightarrow> string \<Rightarrow> u64" where
  "line_value line name =
     (case map_of (List.map_filter (split_once (CHR ''='')) (split_on (CHR '' '') line)) name of
        None \<Rightarrow> 0
      | Some v \<Rightarrow> word_of_nat (decimal_value v))"

lemma counter_names_plain: "list_all (\<lambda>n. CHR '' '' \<notin> set n \<and> CHR ''='' \<notin> set n) COUNTER_NAMES" "distinct COUNTER_NAMES"
  by (simp_all add: COUNTER_NAMES_def)

text \<open>The words of the line are the non-zero counters.\<close>

lemma words_parsed:
  "list_all (\<lambda>(name, v). CHR ''='' \<notin> set name) es \<Longrightarrow>
    List.map_filter (split_once (CHR ''='')) (map (\<lambda>(name, v). name @ ''='' @ to_decimal (unat v)) es) =
    map (\<lambda>(name, v). (name, to_decimal (unat v))) es"
  by (induction es) (auto simp: map_filter_simps split_once_append)

lemma counters_line_words:
  "List.map_filter (split_once (CHR ''='')) (split_on (CHR '' '') (counters_line cs)) =
    map (\<lambda>(name, v). (name, to_decimal (unat v))) (filter (\<lambda>(_, v). 0 < v) (zip COUNTER_NAMES cs))"
proof -
  let ?es = "filter (\<lambda>(_, v). 0 < v) (zip COUNTER_NAMES cs)"
  let ?parts = "map (\<lambda>(name, v). name @ ''='' @ to_decimal (unat v)) ?es"
  have names: "list_all (\<lambda>(name, v). CHR '' '' \<notin> set name \<and> CHR ''='' \<notin> set name) ?es"
    using counter_names_plain(1) by (auto simp: list_all_iff dest: set_zip_leftD)
  have "list_all (\<lambda>p. CHR '' '' \<notin> set p) ?parts"
    using names to_decimal_no_space by (auto simp: list_all_iff)
  then have "?parts \<noteq> [] \<Longrightarrow> split_on (CHR '' '') (join (CHR '' '') ?parts) = ?parts" by (rule split_on_join [rotated])
  moreover have "List.map_filter (split_once (CHR ''='')) ?parts = map (\<lambda>(name, v). (name, to_decimal (unat v))) ?es"
    by (rule words_parsed) (use names in \<open>auto simp: list_all_iff\<close>)
  ultimately show ?thesis
    by (cases "?es = []") (simp_all add: counters_line_def map_filter_simps del: filter_empty_conv)
qed

lemma line_value_counters:
  assumes "length cs = length COUNTER_NAMES" "i < length cs"
  shows "line_value (counters_line cs) (COUNTER_NAMES ! i) = cs ! i"
proof -
  let ?es = "filter (\<lambda>(_, v). 0 < v) (zip COUNTER_NAMES cs)"
  have d: "distinct (map fst ?es)" "distinct (map fst (zip COUNTER_NAMES cs))"
    using counter_names_plain(2) assms(1) by (simp_all add: distinct_map_filter)
  have in_zip: "(COUNTER_NAMES ! i, v) \<in> set (zip COUNTER_NAMES cs) \<longleftrightarrow> v = cs ! i" for v
    using counter_names_plain(2) assms by (auto simp: in_set_zip nth_eq_iff_index_eq)
  have "map_of (map (\<lambda>(name, v). (name, to_decimal (unat v))) ?es) (COUNTER_NAMES ! i) =
      map_option (\<lambda>v. to_decimal (unat v)) (map_of ?es (COUNTER_NAMES ! i))"
    by (simp add: map_of_map)
  moreover have "map_of ?es (COUNTER_NAMES ! i) = (if 0 < cs ! i then Some (cs ! i) else None)"
    using d(1) in_zip by (auto simp: map_of_eq_None_iff)
  ultimately show ?thesis
    by (auto simp: line_value_def counters_line_words decimal_value_to_decimal word_gt_0 simp del: decimal_value.simps)
qed

lemma counter_index_bound: "counter_index c < length COUNTER_NAMES"
  by (cases c) simp_all

section \<open>Properties\<close>

text \<open>
  C4. The counters are an exact census of the frames the sockets delivered, in every interleaving
  of the tasks and modulo the width of a counter: \<open>seen\<close> counts all of them, every rejection counter
  the ones classified with that reason, every type counter the accepted ones of its type, the five
  types being those of the protocol; seen
  frames are matched or rejected, matched ones have a type, and all of them are observed exactly in
  observe mode.
\<close>

theorem counters_are_a_census:
  assumes "wf_Filter f" "distinct_peers f" "reachable ch f forward pps d"
  shows "counter (counters d) Seen = of_nat (length (arrivals d)) \<and>
    (\<forall>c\<in>set reject_counters. counter (counters d) c =
       of_nat (length (filter (\<lambda>(r, vlan). classify r vlan f = Inl c) (map snd (arrivals d))))) \<and>
    (\<forall>c\<in>set kind_counters. counter (counters d) c =
       of_nat (length (filter (\<lambda>(r, vlan). \<exists>m. classify r vlan f = Inr m \<and> kind_counter (kind m) = c)
         (map snd (arrivals d))))) \<and>
    (\<forall>(k, c)\<in>set [(KIND_PULL, Pull), (KIND_RESPONSE, Response), (KIND_PUSH, Push), (KIND_SEQ_REQUEST, SeqRequest),
        (KIND_SEQ_RESPONSE, SeqResponse)]. counter (counters d) c =
       of_nat (length (filter (\<lambda>(r, vlan). \<exists>m. classify r vlan f = Inr m \<and> kind m = k) (map snd (arrivals d))))) \<and>
    counter (counters d) Seen =
      counter (counters d) Matched + sum_list (map (counter (counters d)) reject_counters) \<and>
    counter (counters d) Matched = sum_list (map (counter (counters d)) kind_counters) \<and>
    counter (counters d) Observed = (if forward then 0 else counter (counters d) Matched)"
proof -
  note c = counter_census [OF reachable_counts_ok [OF assms]]
  have sum: "sum_list (map (counter (counters d)) cs) =
      of_nat (sum_list (map (census f forward (map snd (arrivals d))) cs))"
    if "set cs \<subseteq> set reject_counters \<union> set kind_counters" for cs
    using that by (induction cs) (auto simp: c simp del: map_map)
  have "counter (counters d) Seen = counter (counters d) Matched + sum_list (map (counter (counters d)) reject_counters)"
    "counter (counters d) Matched = sum_list (map (counter (counters d)) kind_counters)"
    by (simp_all add: c sum census_total(1) flip: census_total(2))
  moreover have "\<forall>(k, c)\<in>set [(KIND_PULL, Pull), (KIND_RESPONSE, Response), (KIND_PUSH, Push),
      (KIND_SEQ_REQUEST, SeqRequest), (KIND_SEQ_RESPONSE, SeqResponse)]. counter (counters d) c =
      of_nat (length (filter (\<lambda>(r, vlan). \<exists>m. classify r vlan f = Inr m \<and> kind m = k) (map snd (arrivals d))))"
    (is "\<forall>(k, c)\<in>?pairs. ?P k c")
  proof (intro ballI, clarify)
    fix k x assume "(k, x) \<in> ?pairs"
    then have kx: "kind_counter k = x" "valid_kind k" "x \<in> set kind_counters"
      by (auto simp: kind_counter_def valid_kind_def kind_counters_def rrb_consts)
    have "kind m = k \<longleftrightarrow> kind_counter (kind m) = x" if "classify r vlan f = Inr m" for r vlan m
      using kind_counter_inj [OF classify_valid_kind [OF assms(1,2) that] kx(2)] kx(1) by simp
    then have "(\<exists>m. classify r vlan f = Inr m \<and> kind m = k) \<longleftrightarrow>
        (\<exists>m. classify r vlan f = Inr m \<and> kind_counter (kind m) = x)" for r vlan by blast
    then show "?P k x" using kx(3) by (simp add: c census_kind case_prod_unfold)
  qed
  ultimately show ?thesis
    by (simp add: c census_Seen census_reject census_kind census_Observed case_prod_unfold)
qed

theorem counters_are_a_census_witness:
  "\<exists>d. reachable list_channel test_filter True 20 d \<and> counter (counters d) Seen = 1 \<and>
    counter (counters d) SeqResponse = 1"
proof -
  obtain d where d: "reachable list_channel test_filter True 20 d" "arrivals d = [(0, demo_frame, Vlan_default)]"
    using demo_reached [of True] by blast
  have "kind_counter 5 = SeqResponse" by code_simp
  with demo_accepted show ?thesis
    using counters_are_a_census [OF test_filter_wf d(1)] d by (auto simp: kind_counters_def)
qed

text \<open>
  C5. No accepted frame is lost, duplicated or overtaken by a frame of its own source while the daemon
  forwards: per source, the frames sent, then those lost, then the one waiting to be sent are exactly
  the untagged accepted arrivals of that source, in order of arrival, and frames are lost only by a
  shutdown. What was sent is what was taken and what the channel holds, in order; the channel stays
  within its depth; and the counters account for every frame: matched ones are taken, queued, waiting
  or lost, taken ones are rate limited, written, failed to be written, or in the middle of a write.
\<close>

theorem accepted_frames_conserved:
  assumes "bounded_fifo ch contents capacity" "wf_Filter f" "distinct_peers f" "reachable ch f True pps d"
  shows "sent_by i d @ lost_by i d @ pending_by i d = concat (map (relayed f) (arrived_at i d)) \<and>
    (stopped d \<or> lost d = []) \<and> map snd (sent d) = taken d @ contents (chan d) \<and>
    length (contents (chan d)) \<le> QUEUE_DEPTH \<and>
    counter (counters d) Matched =
      of_nat (length (taken d) + length (contents (chan d)) + length (lost d) + length (pending d)) \<and>
    of_nat (length (taken d)) = counter (counters d) RateLimited + counter (counters d) Injected +
      counter (counters d) InjectError + of_nat (injecting d)"
proof -
  note f = forward_okD [OF bounded_fifo.reachable_forward_ok [OF assms]]
  have cnt: "counts_ok f True d" by (rule reachable_counts_ok [OF assms(2-4)])
  have "size (mset (concat (map (relayed f) (map snd (arrivals d))))) =
      size (mset (map snd (sent d)) + mset (map snd (lost d)) + mset (pending d))" by (simp only: f(3))
  then have l: "length (concat (map (relayed f) (map snd (arrivals d)))) =
      length (map snd (sent d)) + length (lost d) + length (pending d)"
    by (simp only: size_mset size_union length_map)
  have "counter (counters d) Matched =
      of_nat (length (taken d) + length (contents (chan d)) + length (lost d) + length (pending d))"
    using counter_census [OF cnt, of Matched] by (simp only: census_Matched l f(1)) simp
  moreover have "of_nat (length (taken d)) = counter (counters d) RateLimited + counter (counters d) Injected +
      counter (counters d) InjectError + of_nat (injecting d)"
    using cnt by (simp add: counts_ok_def add.assoc)
  moreover have "length (contents (chan d)) \<le> QUEUE_DEPTH"
    using bounded_fifo.reachable_queue_ok [OF assms(1,4)] by (simp add: queue_ok_def)
  ultimately show ?thesis using f(1,2,5) by blast
qed

theorem accepted_frames_conserved_witness:
  "\<exists>d. reachable list_channel test_filter True 20 d \<and> sent_by 0 d @ lost_by 0 d @ pending_by 0 d =
      [encode_untagged (test_msg 5)] \<and>
    of_nat (length (taken d)) = counter (counters d) RateLimited + counter (counters d) Injected +
      counter (counters d) InjectError + of_nat (injecting d)"
proof -
  obtain d where d: "reachable list_channel test_filter True 20 d" "arrivals d = [(0, demo_frame, Vlan_default)]"
    using demo_written by blast
  have "relayed test_filter (demo_frame, Vlan_default) = [encode_untagged (test_msg 5)]" by code_simp
  then have "concat (map (relayed test_filter) (arrived_at 0 d)) = [encode_untagged (test_msg 5)]"
    by (simp add: arrived_at_def d(2))
  with accepted_frames_conserved [OF list_queue.bounded_fifo_axioms test_filter_wf d(1), of 0] d(1) show ?thesis
    by metis
qed

text \<open>
  C6. Everything the daemon ever writes to the TAP is the untagged encoding of a well-formed message
  the configured identity admits, and frames are written in the order in which they were put into
  the channel, none of them twice.
\<close>

theorem written_frames_legitimate:
  assumes "bounded_fifo ch contents capacity" "wf_Filter f" "distinct_peers f" "reachable ch f True pps d"
  shows "list_all (legitimate f) (map snd (attempts d)) \<and> subseq (map snd (attempts d)) (map snd (sent d))"
proof -
  have sub: "subseq (map snd (attempts d)) (map snd (sent d))" by (rule bounded_fifo.attempts_in_order [OF assms])
  then have "x \<in> set (map snd (sent d))" if "x \<in> set (map snd (attempts d))" for x
    using list_emb_set [OF _ that] by blast
  then show ?thesis
    using bounded_fifo.sent_legitimate [OF assms] sub by (auto simp: list_all_iff)
qed

theorem written_frames_legitimate_witness:
  "\<exists>d. attempts d = [(0, encode_untagged (test_msg 5))] \<and> reachable list_channel test_filter True 20 d \<and>
    list_all (legitimate test_filter) (map snd (attempts d))"
proof -
  obtain d where d: "reachable list_channel test_filter True 20 d"
    "attempts d = [(0, encode_untagged (test_msg 5))]" using demo_written by blast
  then show ?thesis
    using written_frames_legitimate [OF list_queue.bounded_fifo_axioms test_filter_wf d(1)] by blast
qed

text \<open>
  C7. The configured rate bounds the TAP: in every interleaving, the writes attempted within one
  second of the daemon's clock are at most \<open>packets_per_second\<close>.
\<close>

theorem writes_rate_limited:
  assumes "reachable ch f forward pps d"
  shows "length (filter (\<lambda>a. fst a = t) (attempts d)) \<le> unat pps"
  using reachable_rate_ok [OF assms] by (simp add: rate_ok_def written_at_def)

theorem writes_rate_limited_witness:
  "\<exists>d. reachable list_channel test_filter True 20 d \<and> length (filter (\<lambda>a. fst a = 0) (attempts d)) = 1 \<and>
    length (filter (\<lambda>a. fst a = 0) (attempts d)) \<le> 20"
proof -
  obtain d where d: "reachable list_channel test_filter True 20 d"
    "attempts d = [(0, encode_untagged (test_msg 5))]" using demo_written by blast
  with writes_rate_limited [OF d(1), of 0] show ?thesis by auto
qed

text \<open>
  C22. Observe mode only observes: no frame is ever queued, written or lost, whatever arrives.
\<close>

theorem observe_never_writes:
  assumes "wf_Filter f" "distinct_peers f" "reachable ch f False pps d"
  shows "sent d = [] \<and> taken d = [] \<and> attempts d = [] \<and> lost d = [] \<and> injector d = InjectDone"
  using reachable_observe_ok [OF assms] by (simp add: observe_ok_def)

theorem observe_never_writes_witness:
  "\<exists>d. reachable list_channel test_filter False 20 d \<and> arrivals d = [(0, demo_frame, Vlan_default)] \<and> attempts d = []"
proof -
  obtain d where d: "reachable list_channel test_filter False 20 d" "arrivals d = [(0, demo_frame, Vlan_default)]"
    using demo_reached [of False] by blast
  then show ?thesis using observe_never_writes [OF test_filter_wf d(1)] by blast
qed

text \<open>
  C8. No capture task ever panics, whatever the sockets deliver: no index or slice of the receive
  path leaves its bounds.
\<close>

theorem capture_never_panics:
  assumes "wf_Filter f" "distinct_peers f" "reachable ch f forward pps d"
  shows "list_all (\<lambda>t. cap_state t \<noteq> CapturePanicked) (captures d)"
  using reachable_tasks_ok [OF assms] by (auto simp: tasks_ok_def list_all_iff)

theorem capture_never_panics_witness:
  "\<exists>d. reachable list_channel test_filter True 20 d \<and> captures d \<noteq> [] \<and>
    cap_state (captures d ! 0) \<noteq> CapturePanicked"
proof -
  obtain d where d: "reachable list_channel test_filter True 20 d" "captures d \<noteq> []"
    using demo_reached [of True] by blast
  then show ?thesis
    using capture_never_panics [OF test_filter_wf d(1)] by (auto simp: list_all_length)
qed

text \<open>
  C29. The state keeps its shape: every receive buffer has \<open>MAX_FRAME\<close> bytes, there are as many counters
  as names, the limiter keeps the configured rate and never uses more than it, the channel keeps its
  capacity, and the clock stays within the range of a \<open>Duration\<close>.
\<close>

theorem daemon_state_well_formed:
  assumes "bounded_fifo ch contents capacity" "wf_Filter f" "distinct_peers f" "reachable ch f forward pps d"
  shows "list_all (\<lambda>t. length (cap_buf t) = MAX_FRAME) (captures d) \<and>
    length (counters d) = length COUNTER_NAMES \<and> per_second (limiter d) = pps \<and>
    unat (used (limiter d)) \<le> unat pps \<and> capacity (chan d) = QUEUE_DEPTH \<and> clock d < INSTANT_END"
  using reachable_tasks_ok [OF assms(2-4)] reachable_rate_ok [OF assms(4)]
    bounded_fifo.reachable_queue_ok [OF assms(1,4)]
  by (auto simp: tasks_ok_def rate_ok_def limiter_ok_def queue_ok_def list_all_iff)

theorem daemon_state_well_formed_witness:
  "\<exists>d. reachable list_channel test_filter True 20 d \<and> length (counters d) = length COUNTER_NAMES \<and>
    per_second (limiter d) = 20"
proof -
  obtain d where "reachable list_channel test_filter True 20 d" using demo_reached [of True] by blast
  then show ?thesis
    using daemon_state_well_formed [OF list_queue.bounded_fifo_axioms test_filter_wf] by blast
qed

text \<open>
  C9. The relay does relay: when a source of a running daemon that forwards is waiting and a frame
  arrives that the validator accepts, in either tag representation, the daemon receives it, and
  whenever its own steps have come to rest afterwards the untagged form of that frame has gone
  through the inject task, once, along with every frame accepted before.
\<close>

theorem accepted_frame_processed:
  assumes "bounded_fifo ch contents capacity" "wf_Filter f" "distinct_peers f" "reachable ch f True pps d"
    and "\<not> stopped d" "i < length (captures d)" "cap_state (captures d ! i) = Receiving"
    and "in_pkttype msg \<noteq> PACKET_OUTGOING" "classify (in_data msg) (msg_vlan msg) f = Inr m"
  shows "\<exists>d1 x. step ch f True (Received i) d d1 \<and> untag (in_data msg) (msg_vlan msg) = Some x \<and>
    arrivals d1 = arrivals d @ [(i, in_data msg, msg_vlan msg)] \<and>
    (\<forall>d2. (istep ch f)\<^sup>*\<^sup>* d1 d2 \<and> settled contents d2 \<longrightarrow>
       mset (taken d2) = add_mset x (mset (concat (map (relayed f) (map snd (arrivals d))))))"
proof -
  obtain x where x: "untag (in_data msg) (msg_vlan msg) = Some x" by (rule classify_untag [OF assms(2,3,9)])
  then have rel: "relayed f (in_data msg, msg_vlan msg) = [x]" using assms(9) by (simp add: relayed_def)
  obtain d1 where d1: "step ch f True (Received i) d d1"
    "arrivals d1 = arrivals d @ [(i, in_data msg, msg_vlan msg)]" "\<not> stopped d1"
    using receive_possible [OF reachable_tasks_ok [OF assms(2-4)] assms(6-8), of ch f True]
      classify_candidate [OF assms(9)] assms(5) by auto
  have "mset (taken d2) = add_mset x (mset (concat (map (relayed f) (map snd (arrivals d)))))"
    if "(istep ch f)\<^sup>*\<^sup>* d1 d2" "settled contents d2" for d2
  proof -
    have r: "reachable ch f True pps d2" "\<not> stopped d2" "arrivals d2 = arrivals d1"
      using bounded_fifo.isteps_keep [OF assms(1) that(1) reachable.steps [OF assms(4) d1(1)]] d1(3) by auto
    from bounded_fifo.settled_taken [OF assms(1) bounded_fifo.reachable_forward_ok [OF assms(1-3) r(1)] that(2) r(2)]
    show ?thesis by (simp add: r(3) d1(2) rel)
  qed
  with x d1 show ?thesis by blast
qed

theorem accepted_frame_processed_witness:
  "\<exists>d1. step list_channel test_filter True (Received 0) (daemon_start list_channel True 20 1 0) d1 \<and>
    arrivals d1 = [(0, demo_frame, Vlan_default)]"
proof -
  let ?d = "daemon_start list_channel True 20 1 0"
  have "reachable list_channel test_filter True 20 ?d"
    by (rule reachable.start) (simp add: INSTANT_END_def NANOS_PER_SEC_def)
  moreover have "\<not> stopped ?d" "0 < length (captures ?d)" "cap_state (captures ?d ! 0) = Receiving" "arrivals ?d = []"
    by (simp_all add: daemon_start_def)
  moreover have "in_pkttype (plain_msg demo_frame) \<noteq> PACKET_OUTGOING"
    "classify (in_data (plain_msg demo_frame)) (msg_vlan (plain_msg demo_frame)) test_filter =
      Inr \<lparr>kind = 5, body_offset = 18\<rparr>" by (simp_all add: demo_accepted)
  ultimately show ?thesis
    using accepted_frame_processed [OF list_queue.bounded_fifo_axioms test_filter_wf, of 20 ?d 0 "plain_msg demo_frame"]
    by auto
qed

text \<open>
  C10. The daemon comes to rest and never blocks: from every reachable state of a running daemon its
  own steps, which include the return of a write to the TAP, can lead to rest, no sequence of them is longer than the work in hand, which is bounded by
  the number of sources and the queue depth, and whenever none is possible any more the daemon is at
  rest: nothing waits to be sent, the channel is empty, every frame ever accepted has gone through the
  inject task, and that task has ended if all capture tasks have.
\<close>

theorem daemon_comes_to_rest:
  assumes "bounded_fifo ch contents capacity" "wf_Filter f" "distinct_peers f" "reachable ch f True pps d"
    and "\<not> stopped d"
  shows "(\<exists>d'. (istep ch f)\<^sup>*\<^sup>* d d' \<and> settled contents d') \<and>
    (\<forall>n d'. (istep ch f ^^ n) d d' \<longrightarrow> n \<le> work contents d) \<and>
    work contents d \<le> 3 * length (captures d) + 2 * QUEUE_DEPTH + 2 \<and>
    (\<forall>d'. (istep ch f)\<^sup>*\<^sup>* d d' \<and> \<not> (\<exists>e. istep ch f d' e) \<longrightarrow> settled contents d' \<and>
       mset (taken d') = mset (concat (map (relayed f) (map snd (arrivals d)))))"
proof (intro conjI allI impI)
  show "\<exists>d'. (istep ch f)\<^sup>*\<^sup>* d d' \<and> settled contents d'"
    using bounded_fifo.reach_settled [OF assms] by blast
  show "n \<le> work contents d" if "(istep ch f ^^ n) d d'" for n d'
    using bounded_fifo.isteps_bounded [OF assms(1) that] by simp
  have "length (contents (chan d)) \<le> QUEUE_DEPTH"
    using bounded_fifo.reachable_queue_ok [OF assms(1,4)] by (simp add: queue_ok_def)
  with length_pending_le [of d] show "work contents d \<le> 3 * length (captures d) + 2 * QUEUE_DEPTH + 2"
    by (simp add: work_def split: inject_state.splits)
  fix d' assume d': "(istep ch f)\<^sup>*\<^sup>* d d' \<and> \<not> (\<exists>e. istep ch f d' e)"
  have r: "reachable ch f True pps d'" "\<not> stopped d'" "arrivals d' = arrivals d"
    using bounded_fifo.isteps_keep [OF assms(1) conjunct1 [OF d'] assms(4)] assms(5) by auto
  note ok = bounded_fifo.reachable_forward_ok [OF assms(1-3) r(1)]
  have "capacity (chan d') = QUEUE_DEPTH"
    using bounded_fifo.reachable_queue_ok [OF assms(1) r(1)] by (simp add: queue_ok_def)
  then show s: "settled contents d'" using bounded_fifo.istep_enabled [OF assms(1) ok] r(2) d' by blast
  show "mset (taken d') = mset (concat (map (relayed f) (map snd (arrivals d))))"
    using bounded_fifo.settled_taken [OF assms(1) ok s r(2)] r(3) by simp
qed

theorem daemon_comes_to_rest_witness:
  "\<exists>d d'. arrivals d = [(0, demo_frame, Vlan_default)] \<and> (istep list_channel test_filter)\<^sup>*\<^sup>* d d' \<and> settled snd d'"
proof -
  obtain d where d: "reachable list_channel test_filter True 20 d" "arrivals d = [(0, demo_frame, Vlan_default)]"
    "injector d = Injecting (encode_untagged (test_msg 5))" using demo_written by blast
  have "\<not> stopped d"
    using forward_okD(6) [OF list_queue.reachable_forward_ok [OF test_filter_wf d(1)]] d(3) by auto
  from conjunct1 [OF daemon_comes_to_rest [OF list_queue.bounded_fifo_axioms test_filter_wf d(1) this]]
  obtain d' where "(istep list_channel test_filter)\<^sup>*\<^sup>* d d'" "settled snd d'" by (elim exE conjE)
  with d(2) show ?thesis by (intro exI [of _ d] exI [of _ d'] conjI)
qed

text \<open>
  C27. The forwarding daemon refines the abstract relay: initially and in every reachable state its
  tasks, channel and limiter hide a backlog of admitted frames, and every step is one of the abstract
  machine or invisible. In particular a frame is dropped by the rate limit only in a second in which
  exactly \<open>packets_per_second\<close> frames were written.
\<close>

theorem daemon_refines_relay:
  assumes "bounded_fifo ch contents capacity" "wf_Filter f" "distinct_peers f" "reachable ch f True pps d"
  shows "(relay_step (legitimate f) (unat pps))\<^sup>*\<^sup>* relay_start (abs_relay contents d) \<and>
    (\<forall>ev d'. step ch f True ev d d' \<longrightarrow> abs_relay contents d' = abs_relay contents d \<or>
       relay_step (legitimate f) (unat pps) (abs_relay contents d) (abs_relay contents d'))"
  using bounded_fifo.reachable_refines [OF assms]
    bounded_fifo.step_refines [OF assms(1-3) reachable_tasks_ok [OF assms(2-4)]
      bounded_fifo.reachable_forward_ok [OF assms] reachable_rate_ok [OF assms(4)]] by blast

theorem daemon_refines_relay_witness:
  "\<exists>d. reachable list_channel test_filter True 20 d \<and> attempts d = [(0, encode_untagged (test_msg 5))] \<and>
    (relay_step (legitimate test_filter) (unat (20 :: u32)))\<^sup>*\<^sup>* relay_start (abs_relay snd d)"
proof -
  obtain d where d: "reachable list_channel test_filter True 20 d"
    "attempts d = [(0, encode_untagged (test_msg 5))]" using demo_written by blast
  from conjunct1 [OF daemon_refines_relay [OF list_queue.bounded_fifo_axioms test_filter_wf d(1)]] d
  show ?thesis by (intro exI [of _ d] conjI)
qed

text \<open>
  C23. The line logged at shutdown says it all: whoever splits it at the spaces and the equals signs,
  taking counters that are not mentioned for zero, gets back every counter of the daemon.
\<close>

theorem counters_line_reads_back:
  assumes "length cs = length COUNTER_NAMES"
  shows "line_value (counters_line cs) (COUNTER_NAMES ! counter_index c) = cs ! counter_index c"
  using line_value_counters [OF assms] counter_index_bound [of c] assms by simp

theorem counters_line_reads_back_witness:
  "line_value (counters_line (bump (bump counters_new Seen) Matched)) ''seen'' = 1"
proof -
  have "length (bump (bump counters_new Seen) Matched) = length COUNTER_NAMES"
    "COUNTER_NAMES ! counter_index Seen = ''seen''" "bump (bump counters_new Seen) Matched ! counter_index Seen = 1"
    by code_simp+
  with counters_line_reads_back [of "bump (bump counters_new Seen) Matched" Seen] show ?thesis by simp
qed

end
