(* ===== verification/Cli.thy ===== *)
theory Cli
  imports Daemon
begin

text \<open>
  The program around the tasks: \<open>run\<close> of \<open>src/src/app.rs\<close>, which brings the daemon up and takes it
  down, and the commands of \<open>src/src/main.rs\<close>. Every outcome comes with the effects it had, in order.
  \<open>run_env\<close> collects what is outside the program: configuration file and YAML, sysfs and hostapd, the
  TAP, the sockets, the signal handlers, and the session itself, that is the counters at the time the
  tasks were stopped, whose behaviour is the subject of \<open>App\<close>.
\<close>

section \<open>Effects\<close>

record run_env =
  re_read :: "string \<Rightarrow> string option"
  re_yaml :: "string \<Rightarrow> Settings option"
  re_config :: config_env
  re_tap :: tap_env
  re_os :: "string \<Rightarrow> syscall \<Rightarrow> int"
  re_sigint :: bool
  re_sigterm :: bool
  re_session :: "Settings \<Rightarrow> Filter \<Rightarrow> Counters"

datatype run_effect =
    TapEffect tap_effect
  | SockEffect string syscall
  | SpawnInject u32
  | SpawnCapture string bool
  | LogCounters string
  | Print string
  | Eprint string
  | InitLog string

section \<open>Start and stop\<close>

text \<open>
  The loop over the sources: it ends with the first socket that cannot be opened; the sockets opened
  so far are returned in both cases, because stopping the tasks closes them.
\<close>

fun open_sources :: "run_env \<Rightarrow> bool \<Rightarrow> string list \<Rightarrow> Error option \<times> PacketSocket list \<times> run_effect list" where
  "open_sources env forward [] = (None, [], [])"
| "open_sources env forward (name # names) =
     (case open_socket (re_os env name) name of
        (Inl e, tr) \<Rightarrow> (Some e, [], map (SockEffect name) tr)
      | (Inr sock, tr) \<Rightarrow>
          (case open_sources env forward names of
             (err, socks, trs) \<Rightarrow>
               (err, sock # socks, map (SockEffect name) tr @ [SpawnCapture name forward] @ trs)))"

text \<open>
  Dropping the task set ends the inject task, which owns the TAP, and the capture tasks, which own
  the sockets: at the shutdown of a normal stop, and implicitly on the error returns after the first
  task was spawned. (The runtime drops them in no particular order; the model lists the TAP first.)
\<close>

definition release :: "bool \<Rightarrow> string \<Rightarrow> PacketSocket list \<Rightarrow> run_effect list" where
  "release forward tap socks =
     (if forward then [TapEffect (Drop_tap tap)] else []) @
     map (\<lambda>s. SockEffect (sock_name s) (Close (sock_fd s))) socks"

definition start_relay :: "run_env \<Rightarrow> Settings \<Rightarrow> (Error + unit) \<times> run_effect list" where
  "start_relay env s =
     (if s_mode s = Forward then
        case create_relay (re_tap env) (s_tap s) (s_target s) (s_pref s) of
          (Inl e, tr) \<Rightarrow> (Inl e, map TapEffect tr)
        | (Inr relay, tr) \<Rightarrow>
            (Inr (), map TapEffect tr @ [SpawnInject (packets_per_second (s_limits s))])
      else (Inr (), []))"

definition run :: "run_env \<Rightarrow> string \<Rightarrow> (Error + unit) \<times> run_effect list" where
  "run env config_path =
     (case load (re_read env) (re_yaml env) config_path of
        Inl e \<Rightarrow> (Inl e, [])
      | Inr s \<Rightarrow>
     case settings_filter (re_config env) s of
        Inl e \<Rightarrow> (Inl e, [])
      | Inr f \<Rightarrow>
     case start_relay env s of
        (Inl e, tr1) \<Rightarrow> (Inl e, tr1)
      | (Inr _, tr1) \<Rightarrow>
     let forward = (s_mode s = Forward)
     in case open_sources env forward (s_sources s) of
        (Some e, socks, tr2) \<Rightarrow> (Inl e, tr1 @ tr2 @ release forward (s_tap s) socks)
      | (None, socks, tr2) \<Rightarrow>
     if \<not> re_sigint env \<or> \<not> re_sigterm env
     then (Inl (Io ''signal handler''), tr1 @ tr2 @ release forward (s_tap s) socks)
     else (Inr (), tr1 @ tr2 @
       (if forward then map TapEffect (snd (action_stats (re_tap env) (s_tap s))) else []) @
       release forward (s_tap s) socks @ [LogCounters (counters_line (re_session env s f))]))"

section \<open>Commands\<close>









definition main_other :: "nat \<times> run_effect list" where
  "main_other = (1, [Eprint ''rerrb runs on Linux only (AF_PACKET, TAP, tc)''])"

section \<open>Resources\<close>

text \<open>
  What a run holds after its effects, starting from \<open>M\<close>: a socket from the moment it was created until
  its own descriptor is closed, a TAP from the moment it was built until it is dropped. The result is
  \<open>None\<close> when something is used, closed or dropped that is not held.
\<close>

datatype resource = HeldSocket string int | HeldTap string

definition give_back :: "resource \<Rightarrow> resource multiset \<Rightarrow> resource multiset option" where
  "give_back x M = (if x \<in># M then Some (M - {#x#}) else None)"




lemma give_back_held [simp]: "give_back x (add_mset x M) = Some M"
  by (simp add: give_back_def)






definition tap_neutral :: "tap_effect list \<Rightarrow> bool" where
  "tap_neutral tr \<longleftrightarrow> list_all (\<lambda>e. (\<forall>n. e \<noteq> Build_tap n) \<and> (\<forall>n. e \<noteq> Drop_tap n)) tr"

lemma tap_neutral_simps [simp]:
  "tap_neutral []" "tap_neutral (Exec p a # tr) \<longleftrightarrow> tap_neutral tr"
  "tap_neutral (Write_file p c # tr) \<longleftrightarrow> tap_neutral tr" "tap_neutral (tr @ tr') \<longleftrightarrow> tap_neutral tr \<and> tap_neutral tr'"
  by (auto simp: tap_neutral_def)

lemma tap_neutral_set_up [simp]: "tap_neutral (snd (set_up env name))"
  by (simp add: set_up_def Let_def tap_neutral_def split: option.splits)


lemma tap_neutral_tc_attach [simp]: "tap_neutral (snd (tc_attach env tap target pref))"
  by (simp add: tc_attach_eq)




section \<open>Order of start\<close>

lemma open_sources_no_tap: "open_sources env fw names = (err, socks, tr) \<Longrightarrow> TapEffect e \<notin> set tr \<and> SpawnInject p \<notin> set tr"
proof (induction names arbitrary: err socks tr)
  case (Cons n ns)
  obtain res tr1 where o1: "open_socket (re_os env n) n = (res, tr1)" by fastforce
  obtain err2 socks2 tr2 where o2: "open_sources env fw ns = (err2, socks2, tr2)" by (metis prod_cases3)
  show ?case using Cons.prems Cons.IH [OF o2] o1 o2 by (cases res) auto
qed simp

lemma commands_in: "(p, a) \<in> set (commands tr) \<longleftrightarrow> Exec p a \<in> set tr"
proof (induction tr)
  case (Cons e tr)
  then show ?case by (cases e) auto
qed simp

lemma start_relay_no_capture: "start_relay env s = (res, tr) \<Longrightarrow> SpawnCapture name b \<notin> set tr"
  by (auto simp: start_relay_def split: if_splits prod.splits sum.splits)

lemma start_relay_forward:
  assumes "start_relay env s = (Inr u, tr)" "s_mode s = Forward"
  shows "\<exists>dev. te_name (re_tap env) (s_tap s) = Some dev \<and>
    TapEffect (Exec ''tc'' (redirect_args dev (s_target s) (s_pref s))) \<in> set tr \<and>
    succeeds (re_tap env) ''tc'' (redirect_args dev (s_target s) (s_pref s)) \<and>
    SpawnInject (packets_per_second (s_limits s)) \<in> set tr"
proof -
  obtain res tr1 where c: "create_relay (re_tap env) (s_tap s) (s_target s) (s_pref s) = (res, tr1)" by fastforce
  with assms obtain relay where res: "res = Inr relay"
    and tr: "tr = map TapEffect tr1 @ [SpawnInject (packets_per_second (s_limits s))]"
    by (auto simp: start_relay_def split: sum.splits)
  from create_relay_outcome [of "re_tap env" "s_tap s" "s_target s" "s_pref s"] c res
  have "te_name (re_tap env) (s_tap s) = Some (tap_name relay)"
    "(''tc'', redirect_args (tap_name relay) (s_target s) (s_pref s)) \<in> set (commands tr1)"
    "succeeds (re_tap env) ''tc'' (redirect_args (tap_name relay) (s_target s) (s_pref s))"
    by simp_all
  then show ?thesis by (auto simp: tr commands_in)
qed

lemma start_relay_no_log: "start_relay env s = (res, tr) \<Longrightarrow> LogCounters l \<notin> set tr"
  by (auto simp: start_relay_def split: if_splits prod.splits sum.splits)

lemma open_sources_no_log: "open_sources env fw names = (err, socks, tr) \<Longrightarrow> LogCounters l \<notin> set tr"
proof (induction names arbitrary: err socks tr)
  case (Cons n ns)
  obtain res tr1 where o1: "open_socket (re_os env n) n = (res, tr1)" by fastforce
  obtain err2 socks2 tr2 where o2: "open_sources env fw ns = (err2, socks2, tr2)" by (metis prod_cases3)
  show ?case using Cons.prems Cons.IH [OF o2] o1 o2 by (cases res) auto
qed simp

text \<open>The effects of a run are those of the start, of the sources, and of the end.\<close>

lemma run_shape:
  assumes "load (re_read env) (re_yaml env) path = Inr s"
  obtains "snd (run env path) = []"
    | e where "start_relay env s = (Inl e, snd (run env path))"
    | tr1 err socks tr2 rest where "start_relay env s = (Inr (), tr1)"
      "open_sources env (s_mode s = Forward) (s_sources s) = (err, socks, tr2)"
      "snd (run env path) = tr1 @ tr2 @ rest"
      "rest \<in> {release (s_mode s = Forward) (s_tap s) socks,
        (if s_mode s = Forward then map TapEffect (snd (action_stats (re_tap env) (s_tap s))) else []) @
        release (s_mode s = Forward) (s_tap s) socks @
        [LogCounters (counters_line (re_session env s (projr (settings_filter (re_config env) s))))]}"
proof (cases "settings_filter (re_config env) s")
  case (Inl e)
  then show thesis using assms by (intro that(1)) (simp add: run_def)
next
  case (Inr f)
  obtain res tr1 where r: "start_relay env s = (res, tr1)" by fastforce
  obtain err socks tr2 where o: "open_sources env (s_mode s = Forward) (s_sources s) = (err, socks, tr2)"
    by (metis prod_cases3)
  show thesis
  proof (cases res)
    case (Inl e)
    with r Inr assms show thesis by (intro that(2)) (simp add: run_def)
  next
    case (Inr u)
    then have r': "start_relay env s = (Inr (), tr1)" using r by simp
    let ?fw = "s_mode s = Forward"
    let ?rest = "if err = None \<and> re_sigint env \<and> re_sigterm env
      then (if ?fw then map TapEffect (snd (action_stats (re_tap env) (s_tap s))) else []) @
        release ?fw (s_tap s) socks @ [LogCounters (counters_line (re_session env s f))]
      else release ?fw (s_tap s) socks"
    have "snd (run env path) = tr1 @ tr2 @ ?rest"
      using r' o \<open>settings_filter _ _ = Inr f\<close> assms by (cases err) (simp_all add: run_def Let_def)
    then show thesis
      by (rule that(3) [OF r' o]) (simp add: \<open>settings_filter _ _ = Inr f\<close>)
  qed
qed

section \<open>Properties\<close>

definition demo_run_env :: "Settings \<Rightarrow> run_env" where
  "demo_run_env s = \<lparr>re_read = (\<lambda>_. Some []), re_yaml = (\<lambda>_. Some s), re_config = demo_config_env,
     re_tap = demo_tap_env, re_os = (\<lambda>_. demo_os), re_sigint = True, re_sigterm = True,
     re_session = (\<lambda>_ _. counters_new)\<rparr>"


text \<open>
  C20. Observe mode never touches the TAP, however the run ends: no device is built, no command runs,
  no inject task starts. In forward mode no source is captured before the redirect is installed on the
  TAP and the inject task, with the configured rate, has been started.
\<close>

theorem run_mode_effects:
  assumes "load (re_read env) (re_yaml env) path = Inr s"
  shows "(s_mode s = Observe \<longrightarrow>
      (\<forall>e p. TapEffect e \<notin> set (snd (run env path)) \<and> SpawnInject p \<notin> set (snd (run env path)))) \<and>
    (s_mode s = Forward \<longrightarrow> (\<forall>pre name b post. snd (run env path) = pre @ SpawnCapture name b # post \<longrightarrow>
      (\<exists>dev. te_name (re_tap env) (s_tap s) = Some dev \<and>
         TapEffect (Exec ''tc'' (redirect_args dev (s_target s) (s_pref s))) \<in> set pre \<and>
         succeeds (re_tap env) ''tc'' (redirect_args dev (s_target s) (s_pref s)) \<and>
         SpawnInject (packets_per_second (s_limits s)) \<in> set pre)))"
  using assms
proof (cases rule: run_shape)
  case 1
  then show ?thesis by simp
next
  case (2 e)
  have "snd (run env path) \<noteq> pre @ SpawnCapture name b # post" for pre name b post
    using start_relay_no_capture [OF 2] by (metis in_set_conv_decomp)
  moreover have "s_mode s = Forward" using 2 by (auto simp: start_relay_def split: if_splits)
  ultimately show ?thesis by simp
next
  case (3 tr1 err socks tr2 rest)
  show ?thesis
  proof (cases "s_mode s")
    case Observe
    then have "tr1 = []" using 3(1) by (simp add: start_relay_def)
    then show ?thesis
      using Observe 3(3,4) open_sources_no_tap [OF 3(2)] by (auto simp: release_def)
  next
    case Forward
    have "set tr1 \<subseteq> set pre" if run: "snd (run env path) = pre @ SpawnCapture name b # post" for pre name b post
    proof -
      have "tr1 @ (tr2 @ rest) = pre @ (SpawnCapture name b # post)" using 3(3) run by simp
      with start_relay_no_capture [OF 3(1), of name b] show ?thesis
        by (auto simp: append_eq_append_conv2 Cons_eq_append_conv append_eq_Cons_conv)
    qed
    with start_relay_forward [OF 3(1) Forward] Forward show ?thesis by (metis Mode.distinct(1) subsetD)
  qed
qed

theorem run_mode_effects_witness:
  "\<exists>pre post. snd (run (demo_run_env demo_settings) ''rerrb.yaml'') = pre @ SpawnCapture ''eth1'' True # post \<and>
    SpawnInject 20 \<in> set pre"
proof -
  let ?env = "demo_run_env demo_settings"
  have l: "load (re_read ?env) (re_yaml ?env) ''rerrb.yaml'' = Inr demo_settings"
    using demo_valid by (simp add: demo_run_env_def load_def)
  have "SpawnCapture ''eth1'' True \<in> set (snd (run ?env ''rerrb.yaml''))" by code_simp
  then obtain pre post where s: "snd (run ?env ''rerrb.yaml'') = pre @ SpawnCapture ''eth1'' True # post"
    by (meson split_list)
  have "s_mode demo_settings = Forward" "packets_per_second (s_limits demo_settings) = 20" by code_simp+
  with run_mode_effects [OF l] s show ?thesis by metis
qed


lemma demo_run_ends: "fst (run ((demo_run_env demo_settings)\<lparr>re_session := g\<rparr>) ''rerrb.yaml'') = Inr ()"
  by code_simp

text \<open>
  C21. What a run leaves in the log: a forwarding or observing run that ends normally logs exactly one
  line of counters, as its last effect, after the TAP was dropped and the sockets were closed; when
  the session it had is one of the daemon's, every counter can be read back from that line, and \<open>seen\<close>
  is the number of frames that arrived.
\<close>

theorem run_logs_counters:
  assumes "load (re_read env) (re_yaml env) path = Inr s" "settings_filter (re_config env) s = Inr f"
    and "reachable ch f (s_mode s = Forward) pps d" "re_session env s f = counters d" "fst (run env path) = Inr ()"
  shows "\<exists>tr line. snd (run env path) = tr @ [LogCounters line] \<and> (\<forall>l. LogCounters l \<notin> set tr) \<and>
    (\<forall>c. line_value line (COUNTER_NAMES ! counter_index c) = counter (counters d) c) \<and>
    line_value line ''seen'' = of_nat (length (arrivals d))"
proof -
  have "assembled (re_config env) s f"
    using assms(1,2) by (intro settings_filter_assembled) (auto simp: load_def split: option.splits sum.splits)
  then have wf: "wf_Filter f" "distinct_peers f" by (simp_all add: assembled_def)
  obtain tr1 socks tr2 where tr: "start_relay env s = (Inr (), tr1)"
    "open_sources env (s_mode s = Forward) (s_sources s) = (None, socks, tr2)"
    "snd (run env path) = (tr1 @ tr2 @
       (if s_mode s = Forward then map TapEffect (snd (action_stats (re_tap env) (s_tap s))) else []) @
       release (s_mode s = Forward) (s_tap s) socks) @ [LogCounters (counters_line (counters d))]"
    using assms(5) by (auto simp: run_def assms(1,2,4) Let_def split: sum.splits prod.splits option.splits if_splits)
  have len: "length (counters d) = length COUNTER_NAMES"
    using reachable_tasks_ok [OF wf assms(3)] by (simp add: tasks_ok_def)
  have val: "line_value (counters_line (counters d)) (COUNTER_NAMES ! counter_index c) = counter (counters d) c" for c
    using line_value_counters [OF len] counter_index_bound [of c] len by (simp add: counter_def)
  have "counter (counters d) Seen = of_nat (length (arrivals d))"
    by (simp add: counter_census [OF reachable_counts_ok [OF wf assms(3)]] census_Seen)
  moreover have "COUNTER_NAMES ! counter_index Seen = ''seen''" by code_simp
  ultimately have "line_value (counters_line (counters d)) ''seen'' = of_nat (length (arrivals d))" using val [of Seen] by simp
  moreover have "\<forall>l. LogCounters l \<notin> set (tr1 @ tr2 @
       (if s_mode s = Forward then map TapEffect (snd (action_stats (re_tap env) (s_tap s))) else []) @
       release (s_mode s = Forward) (s_tap s) socks)"
    using start_relay_no_log [OF tr(1)] open_sources_no_log [OF tr(2)] by (auto simp: release_def)
  ultimately show ?thesis using tr(3) val by blast
qed

theorem run_logs_counters_witness:
  "\<exists>env line. LogCounters line \<in> set (snd (run env ''rerrb.yaml'')) \<and> line_value line ''seen'' = 1"
proof -
  let ?f = "projr (settings_filter demo_config_env demo_settings)"
  let ?d = "after_arrival list_channel ?f True 20 (plain_msg demo_frame)"
  let ?env = "(demo_run_env demo_settings)\<lparr>re_session := \<lambda>_ _. counters ?d\<rparr>"
  have wf: "wf_Filter ?f" "distinct_peers ?f"
    using settings_filter_assembled [OF demo_valid demo_filter] by (simp_all add: assembled_def)
  have r: "reachable list_channel ?f True 20 ?d"
    using classify_candidate [OF demo_accepted] by (intro arrival_reachable [OF wf]) simp_all
  have l: "load (re_read ?env) (re_yaml ?env) ''rerrb.yaml'' = Inr demo_settings"
    using demo_valid by (simp add: demo_run_env_def load_def)
  have f: "settings_filter (re_config ?env) demo_settings = Inr ?f" using demo_filter by (simp add: demo_run_env_def)
  have md: "s_mode demo_settings = Forward" by code_simp
  obtain line where "LogCounters line \<in> set (snd (run ?env ''rerrb.yaml''))"
    "line_value line ''seen'' = of_nat (length (arrivals ?d))"
    using run_logs_counters [OF l f, of list_channel 20 ?d] r demo_run_ends md by auto
  moreover have "length (arrivals ?d) = 1" by (simp add: after_arrival_def Let_def)
  ultimately show ?thesis by (intro exI [of _ ?env] exI [of _ line]) simp
qed

end
