(* ===== verification/Yaml.thy ===== *)
theory Yaml
  imports Config "HOL-Library.Monad_Syntax"
begin

text \<open>
  How a configuration document becomes \<open>Settings\<close>: the deserialisers derived for the structs of
  \<open>src/src/config.rs\<close>, with their attributes (\<open>deny_unknown_fields\<close>, \<open>default\<close>, \<open>rename_all\<close>). Only the
  mapping form of a struct is modelled, the one the configuration file has. The YAML library is a
  parameter: a type \<open>'v\<close> of values, the record \<open>reader\<close> of the views serde asks of a value,
  and the parser from text to a value. The locale \<open>yaml_values\<close> states that what is written as a string, a
  number, a sequence or a mapping is read back as such; \<open>tree\<close> is a reference instance.
\<close>

section \<open>Values\<close>

record 'v reader =
  de_map :: "'v \<Rightarrow> (string \<times> 'v) list option"
  de_seq :: "'v \<Rightarrow> 'v list option"
  de_str :: "'v \<Rightarrow> string option"
  de_u16 :: "'v \<Rightarrow> u16 option"
  de_u32 :: "'v \<Rightarrow> u32 option"
  de_null :: "'v \<Rightarrow> bool"

text \<open>\<open>Vec<T>\<close>: every element, or an error.\<close>

fun collect :: "('v \<Rightarrow> 'a option) \<Rightarrow> 'v list \<Rightarrow> 'a list option" where
  "collect de [] = Some []"
| "collect de (v # vs) = do { x \<leftarrow> de v; xs \<leftarrow> collect de vs; Some (x # xs) }"

definition de_vec :: "'v reader \<Rightarrow> ('v \<Rightarrow> 'a option) \<Rightarrow> 'v \<Rightarrow> 'a list option" where
  "de_vec rd de v = do { vs \<leftarrow> de_seq rd v; collect de vs }"

definition de_option :: "'v reader \<Rightarrow> ('v \<Rightarrow> 'a option) \<Rightarrow> 'v \<Rightarrow> 'a option option" where
  "de_option rd de v = (if de_null rd v then Some None else map_option Some (de v))"

section \<open>Derived deserialisers\<close>

text \<open>
  A derived struct visitor refuses a repeated field, with \<open>deny_unknown_fields\<close> also an unknown one, and
  then takes every field from its entry or, when there is none, from its default; \<open>missing\<close> is \<open>None\<close>
  for a field without a default.
\<close>

definition known_fields :: "string list \<Rightarrow> (string \<times> 'v) list \<Rightarrow> unit option" where
  "known_fields names es =
     (if distinct (map fst es) \<and> list_all (\<lambda>k. k \<in> set names) (map fst es) then Some () else None)"

definition field :: "('v \<Rightarrow> 'a option) \<Rightarrow> 'a option \<Rightarrow> (string \<times> 'v) list \<Rightarrow> string \<Rightarrow> 'a option" where
  "field de missing es name = (case map_of es name of None \<Rightarrow> missing | Some v \<Rightarrow> de v)"

definition Mode_de :: "'v reader \<Rightarrow> 'v \<Rightarrow> Mode option" where
  "Mode_de rd v = do {
     s \<leftarrow> de_str rd v;
     if s = ''observe'' then Some Observe else if s = ''forward'' then Some Forward else None }"

definition AP_FIELDS :: "string list" where "AP_FIELDS = [''interface'', ''r0kh_id'']"

definition ApEntry_de :: "'v reader \<Rightarrow> 'v \<Rightarrow> ApEntry option" where
  "ApEntry_de rd v = do {
     es \<leftarrow> de_map rd v;
     _ \<leftarrow> known_fields AP_FIELDS es;
     interface \<leftarrow> field (de_str rd) None es ''interface'';
     r0kh_id \<leftarrow> field (de_option rd (de_str rd)) (Some None) es ''r0kh_id'';
     Some \<lparr>ap_interface = interface, ap_r0kh_id = r0kh_id\<rparr> }"

definition PEER_FIELDS :: "string list" where "PEER_FIELDS = [''mac'', ''bssids'']"

definition PeerEntry_de :: "'v reader \<Rightarrow> 'v \<Rightarrow> PeerEntry option" where
  "PeerEntry_de rd v = do {
     es \<leftarrow> de_map rd v;
     _ \<leftarrow> known_fields PEER_FIELDS es;
     mac \<leftarrow> field (de_str rd) None es ''mac'';
     bssids \<leftarrow> field (de_vec rd (de_str rd)) (Some []) es ''bssids'';
     Some \<lparr>entry_mac = mac, entry_bssids = bssids\<rparr> }"

definition Limits_de :: "'v reader \<Rightarrow> 'v \<Rightarrow> Limits option" where
  "Limits_de rd v = do {
     es \<leftarrow> de_map rd v;
     _ \<leftarrow> known_fields [''packets_per_second''] es;
     pps \<leftarrow> field (de_u32 rd) (Some default_pps) es ''packets_per_second'';
     Some \<lparr>packets_per_second = pps\<rparr> }"

definition SETTINGS_FIELDS :: "string list" where
  "SETTINGS_FIELDS = [''sources'', ''aps'', ''peers'', ''target'', ''management_vlan'', ''mode'', ''limits'',
     ''tap'', ''pref'']"

definition Settings_de :: "'v reader \<Rightarrow> 'v \<Rightarrow> Settings option" where
  "Settings_de rd v = do {
     es \<leftarrow> de_map rd v;
     _ \<leftarrow> known_fields SETTINGS_FIELDS es;
     sources \<leftarrow> field (de_vec rd (de_str rd)) None es ''sources'';
     aps \<leftarrow> field (de_vec rd (ApEntry_de rd)) None es ''aps'';
     peers \<leftarrow> field (de_vec rd (PeerEntry_de rd)) (Some []) es ''peers'';
     target \<leftarrow> field (de_str rd) (Some default_target) es ''target'';
     management_vlan \<leftarrow> field (de_u16 rd) (Some default_vlan) es ''management_vlan'';
     mode \<leftarrow> field (Mode_de rd) (Some default_mode) es ''mode'';
     limits \<leftarrow> field (Limits_de rd) (Some Limits_default) es ''limits'';
     tap \<leftarrow> field (de_str rd) (Some default_tap) es ''tap'';
     pref \<leftarrow> field (de_u16 rd) (Some default_pref) es ''pref'';
     Some \<lparr>s_sources = sources, s_aps = aps, s_peers = peers, s_target = target,
       s_management_vlan = management_vlan, s_mode = mode, s_limits = limits, s_tap = tap, s_pref = pref\<rparr> }"

text \<open>\<open>serde_yaml::from_str\<close>, with the library's own parser as parameter.\<close>

definition from_str :: "(string \<Rightarrow> 'v option) \<Rightarrow> 'v reader \<Rightarrow> string \<Rightarrow> Settings option" where
  "from_str parse rd text = do { v \<leftarrow> parse text; Settings_de rd v }"

section \<open>Writing documents\<close>

record 'v writer =
  v_map :: "(string \<times> 'v) list \<Rightarrow> 'v"
  v_seq :: "'v list \<Rightarrow> 'v"
  v_str :: "string \<Rightarrow> 'v"
  v_u16 :: "u16 \<Rightarrow> 'v"
  v_u32 :: "u32 \<Rightarrow> 'v"

definition mode_name :: "Mode \<Rightarrow> string" where
  "mode_name m = (case m of Observe \<Rightarrow> ''observe'' | Forward \<Rightarrow> ''forward'')"

definition ap_value :: "'v writer \<Rightarrow> ApEntry \<Rightarrow> 'v" where
  "ap_value w ap = v_map w ([(''interface'', v_str w (ap_interface ap))] @
     (case ap_r0kh_id ap of None \<Rightarrow> [] | Some x \<Rightarrow> [(''r0kh_id'', v_str w x)]))"

definition peer_value :: "'v writer \<Rightarrow> PeerEntry \<Rightarrow> 'v" where
  "peer_value w p = v_map w ([(''mac'', v_str w (entry_mac p))] @
     (if entry_bssids p = [] then [] else [(''bssids'', v_seq w (map (v_str w) (entry_bssids p)))]))"

definition limits_value :: "'v writer \<Rightarrow> Limits \<Rightarrow> 'v" where
  "limits_value w l = v_map w [(''packets_per_second'', v_u32 w (packets_per_second l))]"

text \<open>All nine entries of the document for \<open>s\<close>.\<close>

definition settings_entries :: "'v writer \<Rightarrow> Settings \<Rightarrow> (string \<times> 'v) list" where
  "settings_entries w s =
     [(''sources'', v_seq w (map (v_str w) (s_sources s))), (''aps'', v_seq w (map (ap_value w) (s_aps s))),
      (''peers'', v_seq w (map (peer_value w) (s_peers s))), (''target'', v_str w (s_target s)),
      (''management_vlan'', v_u16 w (s_management_vlan s)), (''mode'', v_str w (mode_name (s_mode s))),
      (''limits'', limits_value w (s_limits s)), (''tap'', v_str w (s_tap s)), (''pref'', v_u16 w (s_pref s))]"

text \<open>
  The entries of a document that means \<open>s\<close>: in any order, and without any of the optional entries whose
  setting is the default.
\<close>

definition optional_entries :: "'v writer \<Rightarrow> (string \<times> 'v) list" where
  "optional_entries w = drop 2 (settings_entries w (minimal_settings [] []))"

definition document_of :: "'v writer \<Rightarrow> Settings \<Rightarrow> (string \<times> 'v) list \<Rightarrow> bool" where
  "document_of w s es \<longleftrightarrow> distinct (map fst es) \<and>
     list_all (\<lambda>e. e \<in> set (settings_entries w s)) es \<and>
     list_all (\<lambda>e. e \<in> set es \<or> e \<in> set (optional_entries w)) (settings_entries w s)"

locale yaml_values =
  fixes rd :: "'v reader" and w :: "'v writer"
  assumes read_map: "de_map rd (v_map w es) = Some es"
    and read_seq: "de_seq rd (v_seq w vs) = Some vs"
    and read_str: "de_str rd (v_str w s) = Some s" "\<not> de_null rd (v_str w s)"
    and read_u16: "de_u16 rd (v_u16 w a) = Some a"
    and read_u32: "de_u32 rd (v_u32 w b) = Some b"

section \<open>Facts about fields\<close>

lemma settings_entries_keys: "map fst (settings_entries w s) = SETTINGS_FIELDS"
  by (simp add: settings_entries_def SETTINGS_FIELDS_def)

lemma distinct_fields: "distinct SETTINGS_FIELDS"
  by (simp add: SETTINGS_FIELDS_def)

lemma collect_map: "(\<And>x. x \<in> set xs \<Longrightarrow> de (f x) = Some (g x)) \<Longrightarrow> collect de (map f xs) = Some (map g xs)"
  by (induction xs) auto

lemma collect_None: "v \<in> set vs \<Longrightarrow> de v = None \<Longrightarrow> collect de vs = None"
proof (induction vs)
  case (Cons a vs)
  then show ?case by (cases "de a") auto
qed simp

lemma document_known:
  assumes "document_of w s es"
  shows "known_fields SETTINGS_FIELDS es = Some ()"
proof -
  have "fst e \<in> set SETTINGS_FIELDS" if "e \<in> set es" for e
  proof -
    have "e \<in> set (settings_entries w s)" using assms that by (simp add: document_of_def list_all_iff)
    then have "fst e \<in> set (map fst (settings_entries w s))" by simp
    then show ?thesis by (simp only: settings_entries_keys)
  qed
  then show ?thesis using assms by (simp add: known_fields_def document_of_def list_all_iff)
qed

lemma document_field:
  assumes "document_of w s es" "(k, v) \<in> set (settings_entries w s)" "de v = Some x"
    and "(k, v) \<in> set (optional_entries w) \<Longrightarrow> missing = Some x"
  shows "field de missing es k = Some x"
proof (cases "(k, v) \<in> set es")
  case True
  then have "map_of es k = Some v" using assms(1) by (simp add: document_of_def)
  then show ?thesis by (simp add: field_def assms(3))
next
  case False
  then have opt: "(k, v) \<in> set (optional_entries w)"
    using assms(1,2) by (auto simp: document_of_def list_all_iff)
  have "v' = v" if "(k, v') \<in> set es" for v'
  proof -
    have "(k, v') \<in> set (settings_entries w s)" using assms(1) that by (auto simp: document_of_def list_all_iff)
    then show ?thesis
      using assms(2) distinct_fields settings_entries_keys [of w s] by (metis map_of_eq_Some_iff option.inject)
  qed
  with False have "k \<notin> fst ` set es" by auto
  then have "map_of es k = None" by (simp add: map_of_eq_None_iff)
  then show ?thesis using assms(4) opt by (simp add: field_def)
qed

context yaml_values
begin

lemma str_inj: "v_str w a = v_str w b \<Longrightarrow> a = b"
  using read_str(1) by (metis option.inject)

lemma u16_inj: "v_u16 w a = v_u16 w b \<Longrightarrow> a = b"
  using read_u16 by (metis option.inject)

lemma seq_inj: "v_seq w a = v_seq w b \<Longrightarrow> a = b"
  using read_seq by (metis option.inject)

lemma map_inj: "v_map w a = v_map w b \<Longrightarrow> a = b"
  using read_map by (metis option.inject)

lemma u32_inj: "v_u32 w a = v_u32 w b \<Longrightarrow> a = b"
  using read_u32 by (metis option.inject)

lemma vec_written: "(\<And>x. de (f x) = Some x) \<Longrightarrow> de_vec rd de (v_seq w (map f xs)) = Some xs"
  using collect_map [of xs de f id] by (simp add: de_vec_def read_seq)

lemma mode_written: "Mode_de rd (v_str w (mode_name m)) = Some m"
  by (cases m) (simp_all add: Mode_de_def mode_name_def read_str)

lemma ap_written: "ApEntry_de rd (ap_value w ap) = Some ap"
  by (cases "ap_r0kh_id ap")
    (simp_all add: ApEntry_de_def ap_value_def read_map read_str known_fields_def AP_FIELDS_def field_def de_option_def)

lemma peer_written: "PeerEntry_de rd (peer_value w p) = Some p"
  by (cases "entry_bssids p = []")
    (simp_all add: PeerEntry_de_def peer_value_def read_map read_str known_fields_def PEER_FIELDS_def field_def
      vec_written)

lemma limits_written: "Limits_de rd (limits_value w l) = Some l"
  by (simp add: Limits_de_def limits_value_def read_map read_u32 known_fields_def field_def)

lemma limits_inj: "limits_value w a = limits_value w b \<Longrightarrow> a = b"
  by (auto simp: limits_value_def dest!: map_inj u32_inj)

lemma mode_inj: "v_str w (mode_name a) = v_str w (mode_name b) \<Longrightarrow> a = b"
  by (metis mode_written option.inject)

lemma document_read:
  assumes "document_of w s es"
  shows "Settings_de rd (v_map w es) = Some s"
proof -
  note doc = document_field [OF assms]
  note d = settings_entries_def optional_entries_def minimal_settings_def
  have "field (de_vec rd (de_str rd)) None es ''sources'' = Some (s_sources s)"
    by (rule doc [where v = "v_seq w (map (v_str w) (s_sources s))"]) (simp_all add: d vec_written read_str)
  moreover have "field (de_vec rd (ApEntry_de rd)) None es ''aps'' = Some (s_aps s)"
    by (rule doc [where v = "v_seq w (map (ap_value w) (s_aps s))"]) (simp_all add: d vec_written ap_written)
  moreover have "field (de_vec rd (PeerEntry_de rd)) (Some []) es ''peers'' = Some (s_peers s)"
    by (rule doc [where v = "v_seq w (map (peer_value w) (s_peers s))"])
      (auto simp: d vec_written peer_written dest!: seq_inj)
  moreover have "field (de_str rd) (Some default_target) es ''target'' = Some (s_target s)"
    by (rule doc [where v = "v_str w (s_target s)"]) (auto simp: d read_str dest!: str_inj)
  moreover have "field (de_u16 rd) (Some default_vlan) es ''management_vlan'' = Some (s_management_vlan s)"
    by (rule doc [where v = "v_u16 w (s_management_vlan s)"]) (auto simp: d read_u16 dest!: u16_inj)
  moreover have "field (Mode_de rd) (Some default_mode) es ''mode'' = Some (s_mode s)"
    by (rule doc [where v = "v_str w (mode_name (s_mode s))"]) (auto simp: d mode_written dest!: mode_inj)
  moreover have "field (Limits_de rd) (Some Limits_default) es ''limits'' = Some (s_limits s)"
    by (rule doc [where v = "limits_value w (s_limits s)"]) (auto simp: d limits_written dest!: limits_inj)
  moreover have "field (de_str rd) (Some default_tap) es ''tap'' = Some (s_tap s)"
    by (rule doc [where v = "v_str w (s_tap s)"]) (auto simp: d read_str dest!: str_inj)
  moreover have "field (de_u16 rd) (Some default_pref) es ''pref'' = Some (s_pref s)"
    by (rule doc [where v = "v_u16 w (s_pref s)"]) (auto simp: d read_u16 dest!: u16_inj)
  ultimately show ?thesis by (simp add: Settings_de_def read_map document_known [OF assms])
qed

end

section \<open>Trees\<close>

text \<open>Values as trees, with scalars already resolved.\<close>

datatype tree = Map "(string \<times> tree) list" | Seq "tree list" | Str string | Num nat | Null

definition num_below :: "nat \<Rightarrow> tree \<Rightarrow> nat option" where
  "num_below bound t = (case t of Num n \<Rightarrow> if n < bound then Some n else None | _ \<Rightarrow> None)"

definition tree_reader :: "tree reader" where
  "tree_reader = \<lparr>de_map = (\<lambda>t. case t of Map es \<Rightarrow> Some es | _ \<Rightarrow> None),
     de_seq = (\<lambda>t. case t of Seq ts \<Rightarrow> Some ts | _ \<Rightarrow> None),
     de_str = (\<lambda>t. case t of Str s \<Rightarrow> Some s | _ \<Rightarrow> None),
     de_u16 = (\<lambda>t. map_option word_of_nat (num_below (2 ^ 16) t)),
     de_u32 = (\<lambda>t. map_option word_of_nat (num_below (2 ^ 32) t)),
     de_null = (\<lambda>t. t = Null)\<rparr>"

definition tree_writer :: "tree writer" where
  "tree_writer = \<lparr>v_map = Map, v_seq = Seq, v_str = Str, v_u16 = (\<lambda>a. Num (unat a)), v_u32 = (\<lambda>b. Num (unat b))\<rparr>"

lemma unat_below: "unat (a :: u16) < 65536" "unat (b :: u32) < 4294967296"
  using unsigned_less [of a, where ?'a = nat] unsigned_less [of b, where ?'a = nat] by simp_all

interpretation trees: yaml_values tree_reader tree_writer
  by unfold_locales (simp_all add: tree_reader_def tree_writer_def num_below_def unat_below)

section \<open>Documents that are refused\<close>

lemma known_fields_None: "k \<in> fst ` set es \<Longrightarrow> k \<notin> set names \<Longrightarrow> known_fields names es = None"
  by (auto simp: known_fields_def list_all_iff)

lemma field_missing: "k \<notin> fst ` set es \<Longrightarrow> field de missing es k = missing"
  by (simp add: field_def flip: map_of_eq_None_iff)

lemma field_None: "map_of es k = Some v \<Longrightarrow> de v = None \<Longrightarrow> field de missing es k = None"
  by (simp add: field_def)

lemma bind_all_None: "(\<And>x. k x = None) \<Longrightarrow> Option.bind a k = None"
  by (cases a) simp_all

text \<open>What is wrong with the entries of a struct: an unknown or repeated field, or a required one missing.\<close>

definition bad_shape :: "string list \<Rightarrow> string list \<Rightarrow> (string \<times> 'v) list \<Rightarrow> bool" where
  "bad_shape names required es \<longleftrightarrow> \<not> distinct (map fst es) \<or> list_ex (\<lambda>e. fst e \<notin> set names) es \<or>
     list_ex (\<lambda>k. k \<notin> fst ` set es) required"

lemma bad_shape_cases:
  assumes "bad_shape names required es"
  obtains "known_fields names es = None" | k where "k \<in> set required" "k \<notin> fst ` set es"
proof (cases "known_fields names es = None")
  case False
  then show thesis
    using assms that(2) by (auto simp: bad_shape_def known_fields_def list_ex_iff list_all_iff split: if_splits)
qed (rule that(1))

context yaml_values
begin

lemma bad_peer: "bad_shape PEER_FIELDS [''mac''] es \<Longrightarrow> PeerEntry_de rd (v_map w es) = None"
  by (erule bad_shape_cases)
    (simp_all add: PeerEntry_de_def read_map field_missing bind_all_None)

lemma bad_ap: "bad_shape AP_FIELDS [''interface''] es \<Longrightarrow> ApEntry_de rd (v_map w es) = None"
  by (erule bad_shape_cases) (simp_all add: ApEntry_de_def read_map field_missing bind_all_None)

lemma bad_settings: "bad_shape SETTINGS_FIELDS [''sources'', ''aps''] es \<Longrightarrow> Settings_de rd (v_map w es) = None"
  by (erule bad_shape_cases) (auto simp: Settings_de_def read_map field_missing bind_all_None)

lemma bad_entry: "map_of es k = Some (v_seq w vs) \<Longrightarrow> v \<in> set vs \<Longrightarrow> de v = None \<Longrightarrow>
    field (de_vec rd de) missing es k = None"
  by (simp add: field_def de_vec_def read_seq collect_None)

lemma bad_settings_peer: "map_of es ''peers'' = Some (v_seq w vs) \<Longrightarrow> v \<in> set vs \<Longrightarrow> PeerEntry_de rd v = None \<Longrightarrow>
    Settings_de rd (v_map w es) = None"
  by (simp add: Settings_de_def read_map bad_entry bind_all_None)

lemma bad_settings_ap: "map_of es ''aps'' = Some (v_seq w vs) \<Longrightarrow> v \<in> set vs \<Longrightarrow> ApEntry_de rd v = None \<Longrightarrow>
    Settings_de rd (v_map w es) = None"
  by (simp add: Settings_de_def read_map bad_entry bind_all_None)

end

section \<open>Properties\<close>

text \<open>
  C17. A configuration file means what it says: whatever the order of its entries, and with any of the
  optional entries left out whose setting is the default, loading it gives exactly the settings it was
  written for, or the error of the structural validation of those.
\<close>

theorem document_loads_as_written:
  assumes "yaml_values rd w" "document_of w s es" "read path = Some doc" "parse doc = Some (v_map w es)"
  shows "load read (from_str parse rd) path = (case validate s of Inl e \<Rightarrow> Inl e | Inr _ \<Rightarrow> Inr s)"
  by (simp add: load_def from_str_def assms(3,4) yaml_values.document_read [OF assms(1,2)])

definition minimal_document :: "(string \<times> tree) list" where
  "minimal_document = [(''aps'', Seq [Map [(''interface'', Str ''wifi1ap4'')]]), (''sources'', Seq [Str ''eth1''])]"

theorem document_loads_as_written_witness:
  "load (\<lambda>_. Some ''doc'') (from_str (\<lambda>_. Some (Map minimal_document)) tree_reader) [] =
    Inr (minimal_settings [''eth1''] [\<lparr>ap_interface = ''wifi1ap4'', ap_r0kh_id = None\<rparr>])"
proof -
  let ?s = "minimal_settings [''eth1''] [\<lparr>ap_interface = ''wifi1ap4'', ap_r0kh_id = None\<rparr>]"
  have "document_of tree_writer ?s minimal_document" by code_simp
  moreover have "validate ?s = Inr ()" by code_simp
  moreover have "v_map tree_writer = Map" by (simp add: tree_writer_def)
  ultimately show ?thesis
    using document_loads_as_written [OF trees.yaml_values_axioms, of ?s minimal_document "\<lambda>_. Some ''doc''" "[]" "''doc''"
        "\<lambda>_. Some (Map minimal_document)"] by simp
qed

text \<open>
  C35. A malformed document is refused: one with a field that does not exist, a repeated field, or
  without \<open>sources\<close> or \<open>aps\<close>, and also one with such a fault in an entry of \<open>aps\<close> or \<open>peers\<close>.
\<close>

theorem malformed_document_refused:
  assumes "yaml_values rd w" "read path = Some doc" "parse doc = Some (v_map w es)"
    and "bad_shape SETTINGS_FIELDS [''sources'', ''aps''] es \<or>
      (map_of es ''aps'' = Some (v_seq w vs) \<and> v_map w fs \<in> set vs \<and> bad_shape AP_FIELDS [''interface''] fs) \<or>
      (map_of es ''peers'' = Some (v_seq w vs) \<and> v_map w fs \<in> set vs \<and> bad_shape PEER_FIELDS [''mac''] fs)"
  shows "load read (from_str parse rd) path = Inl ParseError"
proof -
  have "Settings_de rd (v_map w es) = None"
    using assms(4) yaml_values.bad_settings [OF assms(1)] yaml_values.bad_ap [OF assms(1)]
      yaml_values.bad_peer [OF assms(1)] yaml_values.bad_settings_peer [OF assms(1)]
      yaml_values.bad_settings_ap [OF assms(1)] by blast
  then show ?thesis by (simp add: load_def from_str_def assms(2,3))
qed

text \<open>The example in the documentation of the configuration module gives a peer a field \<open>bssid\<close>.\<close>

definition documented_example :: "(string \<times> tree) list" where
  "documented_example = [(''sources'', Seq [Str ''eth1'', Str ''eth2'']),
     (''aps'', Seq [Map [(''interface'', Str ''wifi1ap4'')]]),
     (''peers'', Seq [Map [(''mac'', Str ''1c:0b:8b:ea:60:c9''), (''bssid'', Str ''1c:0b:8b:ea:60:c9'')]]),
     (''target'', Str ''br0'')]"

theorem malformed_document_refused_witness:
  "load (\<lambda>_. Some ''doc'') (from_str (\<lambda>_. Some (Map documented_example)) tree_reader) [] = Inl ParseError"
proof -
  let ?p = "[(''mac'', Str ''1c:0b:8b:ea:60:c9''), (''bssid'', Str ''1c:0b:8b:ea:60:c9'')]"
  have w: "v_map tree_writer = Map" "v_seq tree_writer = Seq" by (simp_all add: tree_writer_def)
  have "map_of documented_example ''peers'' = Some (Seq [Map ?p])" by (simp add: documented_example_def)
  moreover have "bad_shape PEER_FIELDS [''mac''] ?p" by code_simp
  ultimately show ?thesis
    using malformed_document_refused [OF trees.yaml_values_axioms, of "\<lambda>_. Some ''doc''" "[]" "''doc''"
        "\<lambda>_. Some (Map documented_example)" documented_example "[Map ?p]" ?p] by (simp add: w)
qed

end
