(* ===== verification/Tests.thy ===== *)
theory Tests
  imports Relay Yaml
begin

text \<open>
  The unit tests of the repository on the model: one boolean per test function of
  \<open>src/src/proto/tests.rs\<close>, \<open>relay.rs\<close>, \<open>config.rs\<close> and \<open>hostapd.rs\<close>, in the order of its assertions. That all
  of them hold ties the definitions of the development to the behaviour the authors check for.
\<close>

unbundle bit_operations_syntax

section \<open>The validator (proto/tests.rs)\<close>

definition accepted :: "bytes \<Rightarrow> bool" where
  "accepted f \<longleftrightarrow> \<not> isl (classify f Vlan_default test_filter)"

text \<open>\<open>[&f[..12], &f[16..]].concat()\<close> and the slice assignment \<open>f[i..j].copy_from_slice(v)\<close>.\<close>

definition strip_tag :: "bytes \<Rightarrow> bytes" where
  "strip_tag f = take 12 f @ drop 16 f"

definition set_range :: "bytes \<Rightarrow> nat \<Rightarrow> bytes \<Rightarrow> bytes" where
  "set_range f i v = take i f @ v @ drop (i + length v) f"

definition ascii :: "string \<Rightarrow> bytes" where
  "ascii s = map of_char s"

definition five_types_case :: "u8 \<Rightarrow> bool" where
  "five_types_case k =
     (let f = test_frame k False (test_tlv 1 (ascii ''nonce''));
          stripped = strip_tag f;
          v = \<lparr>present = True, proto = TPID_8021Q, tci = 1 OR push_bit 13 7\<rparr>;
          wrong_vid = v\<lparr>tci := 2\<rparr>
      in classify f Vlan_default test_filter =
           Inr \<lparr>kind = k, body_offset = ETH_HEADER_LEN + VLAN_TAG_LEN\<rparr> \<and>
         \<not> isl (classify stripped v test_filter) \<and>
         classify stripped wrong_vid test_filter = Inl Counter.Vlan \<and>
         classify stripped Vlan_default test_filter = Inl Counter.Vlan \<and>
         isl (classify f v test_filter))"

definition all_five_message_types_and_vlan_representations :: bool where
  "all_five_message_types_and_vlan_representations = list_all five_types_case [1, 2, 3, 4, 5]"

definition scope_mutations_are_rejected_without_mutating_original :: bool where
  "scope_mutations_are_rejected_without_mutating_original =
     (let original = test_frame 5 False (test_tlv 1 (ascii ''nonce''))
      in list_all (\<lambda>offset. \<not> accepted (original[offset := original ! offset XOR 0x10]))
           [0, 6, 12, 15, 16, 18, 22, 24, 30] \<and>
         list_all (\<lambda>n. \<not> accepted (take n original)) [0..<length original] \<and>
         accepted (original[14 := original ! 14 OR 0xe0]) \<and>
         \<not> accepted (set_range original 18 [0x80, 0x2a, 0xa8, 0, 1]) \<and>
         \<not> accepted (original @ replicate (MAX_FRAME + 1 - length original) 0))"

definition broadcast_case :: "u8 \<Rightarrow> bool" where
  "broadcast_case k \<longleftrightarrow>
     accepted (test_frame k True (test_tlv TLV_R0KH (ascii ''local''))) = (k = KIND_PULL \<or> k = KIND_SEQ_REQUEST) \<and>
     \<not> accepted (test_frame k True (test_tlv TLV_R0KH (ascii ''other''))) \<and>
     \<not> accepted (test_frame k True [])"

definition broadcast_requires_correct_r0kh_and_request_type :: bool where
  "broadcast_requires_correct_r0kh_and_request_type \<longleftrightarrow>
     list_all broadcast_case [1, 2, 3, 4, 5] \<and>
     accepted (set_range (test_frame KIND_SEQ_REQUEST True (test_tlv TLV_R0KH (ascii ''local''))) 0 (replicate 6 255))"

text \<open>\<open>c.locals[0].r0kh_len = len\<close> and a new \<open>c.locals[0].r0kh\<close>.\<close>

definition set_r0kh :: "Filter \<Rightarrow> nat \<Rightarrow> bytes \<Rightarrow> Filter" where
  "set_r0kh c len ident =
     c\<lparr>locals := (locals c)[0 := (locals c ! 0)\<lparr>r0kh_len := word_of_nat len, r0kh := ident\<rparr>]\<rparr>"

definition boundary_filter :: "nat \<Rightarrow> Filter" where
  "boundary_filter len = set_r0kh test_filter len (set_range (r0kh (locals test_filter ! 0)) 0 (replicate len 0x61))"

definition changed_filter :: "nat \<Rightarrow> Filter" where
  "changed_filter len = set_r0kh (boundary_filter len) len ((r0kh (locals (boundary_filter len) ! 0))[len - 1 := 0x62])"

definition boundary_tlvs :: "nat \<Rightarrow> bytes" where
  "boundary_tlvs len = test_tlv 1 (ascii ''nonce'') @ test_tlv TLV_R0KH (replicate len 0x61) @ test_tlv 5 (ascii ''r1kh'')"

definition r0kh_boundary_case :: "nat \<Rightarrow> bool" where
  "r0kh_boundary_case len =
     (let f = test_frame KIND_SEQ_REQUEST True (boundary_tlvs len)
      in \<not> isl (classify f Vlan_default (boundary_filter len)) \<and>
         classify f Vlan_default (changed_filter len) = Inl BroadcastScope)"

definition deferred_r0kh_check_preserves_boundaries_and_unicast_scope :: bool where
  "deferred_r0kh_check_preserves_boundaries_and_unicast_scope \<longleftrightarrow>
     list_all r0kh_boundary_case [1, 12, MAX_R0KH] \<and>
     accepted (test_frame KIND_RESPONSE False (test_tlv TLV_R0KH (ascii ''remote-r0kh''))) \<and>
     \<not> accepted (test_frame KIND_SEQ_REQUEST True (test_tlv TLV_R0KH [])) \<and>
     \<not> accepted (test_frame KIND_SEQ_REQUEST True (test_tlv TLV_R0KH (replicate (MAX_R0KH + 1) 0x61)))"

definition tlv_duplicate_overflow_and_count_limits :: bool where
  "tlv_duplicate_overflow_and_count_limits =
     (let a = test_tlv TLV_R0KH (ascii ''local'');
          auth = concat (map (\<lambda>tag. test_tlv (word_of_nat tag) []) [0..<MAX_TLVS])
      in \<not> accepted (test_frame KIND_SEQ_REQUEST True (a @ a)) \<and>
         \<not> accepted (test_frame 4 False [1, 0, 255, 255]) \<and>
         \<not> accepted (test_frame 4 False [1, 0, 0]) \<and>
         accepted (test_frame 5 False auth) \<and>
         \<not> accepted (test_frame 5 False (auth @ test_tlv 500 [])))"

definition empty_peer_bssid_list_is_a_wildcard :: bool where
  "empty_peer_bssid_list_is_a_wildcard =
     (let c = test_filter\<lparr>peers := (peers test_filter)[0 := (peers test_filter ! 0)\<lparr>bssid_count := 0\<rparr>]\<rparr>;
          f = test_frame 5 False (test_tlv 1 (ascii ''nonce''))
      in \<not> isl (classify (set_range f 24 [9, 9, 9, 9, 9, 9]) Vlan_default c) \<and>
         classify (f[6 := f ! 6 XOR 0x10]) Vlan_default c = Inl EtherAddress)"

definition empty_peer_list_accepts_all_senders :: bool where
  "empty_peer_list_accepts_all_senders =
     (let c = test_filter\<lparr>peer_count := 0\<rparr>;
          f = test_frame 5 False (test_tlv 1 (ascii ''nonce''))
      in \<not> isl (classify (set_range (set_range f 6 [8, 8, 8, 8, 8, 8]) 24 [9, 9, 9, 9, 9, 9]) Vlan_default c) \<and>
         classify (set_range f 30 [7, 7, 7, 7, 7, 7]) Vlan_default c = Inl DestinationBss)"

definition encrypted_payload_is_never_scanned_or_misparsed :: bool where
  "encrypted_payload_is_never_scanned_or_misparsed =
     (let c = test_filter;
          auth = test_tlv 2 (replicate 16 0) @ test_tlv 1 (replicate 12 0) @
            test_tlv TLV_R0KH (ascii ''020000000102'') @ test_tlv TLV_R1KH (local_bssid (locals c ! 0))
      in list_all (\<lambda>k.
           let f = test_frame k False auth @ test_tlv 6 [0xaa, 0xbb, 0xcc, 0xdd, 0xee, 0xff];
               stripped = strip_tag f
           in \<not> isl (classify f Vlan_default c) \<and> length stripped = 122 \<and>
              \<not> isl (classify stripped \<lparr>present = True, proto = TPID_8021Q, tci = 1\<rparr> c))
           [KIND_PULL, KIND_RESPONSE, KIND_PUSH])"

section \<open>Relay logic (relay.rs)\<close>

definition untag_removes_inline_tag :: bool where
  "untag_removes_inline_tag =
     (let tagged = [1, 2, 3, 4, 5, 6, 7, 8, 9, 10, 11, 12, 0x81, 0x00, 0x00, 0x01, 0x88, 0xb7, 0xaa, 0xbb]
      in case untag tagged Vlan_default of
           None \<Rightarrow> False
         | Some out \<Rightarrow> out = take 12 tagged @ drop 16 tagged \<and> take 2 (drop 12 out) = [0x88, 0xb7])"

definition untag_passthrough_when_tag_in_metadata :: bool where
  "untag_passthrough_when_tag_in_metadata =
     (let frame = [1, 2, 3, 4, 5, 6, 7, 8, 9, 10, 11, 12, 0x88, 0xb7, 0xaa]
      in untag frame \<lparr>present = True, proto = TPID_8021Q, tci = 1\<rparr> = Some frame)"

definition limiter_windows :: bool where
  "limiter_windows =
     (let (r1, l) = admit (Limiter_new 2) 1; (r2, l) = admit l 1; (r3, l) = admit l 1;
          (r4, l) = admit l 2; (r5, l) = admit l 2; (r6, l) = admit l 2; (r7, l) = admit l 3
      in r1 = Inr () \<and> r2 = Inr () \<and> r3 = Inl RateLimited \<and> r4 = Inr () \<and> r5 = Inr () \<and>
         r6 = Inl RateLimited \<and> r7 = Inr ())"


section \<open>Configuration (config.rs) and hostapd (hostapd.rs)\<close>

text \<open>
  The documents of these tests, as text; \<open>parse\<close> is the YAML parser, and the trees after each text are
  what YAML says it stands for.
\<close>

definition unlines :: "string list \<Rightarrow> string" where
  "unlines ls = concat (map (\<lambda>l. l @ [newline]) ls)"

definition mac_parsing :: bool where
  "mac_parsing \<longleftrightarrow> mac ''22:0b:8b:ea:60:c9'' = Inr [0x22, 0x0b, 0x8b, 0xea, 0x60, 0xc9] \<and>
     isl (mac ''22:0b:8b:ea:60'') \<and> isl (mac ''22:0b:8b:ea:60:cg'') \<and> isl (mac ''220b8bea60c9'')"

definition minimal_text :: string where
  "minimal_text = unlines [[], ''sources: [eth1]'', ''aps:'', ''  - interface: wifi1ap4'']"

definition minimal_tree :: tree where
  "minimal_tree = Map [(''sources'', Seq [Str ''eth1'']), (''aps'', Seq [Map [(''interface'', Str ''wifi1ap4'')]])]"

definition full_text :: string where
  "full_text = unlines [[], ''sources: [eth1, eth2]'', ''aps:'', ''  - interface: wifi1ap4'', ''    r0kh_id: my-r0kh-id'',
     ''peers:'', ''  - mac: \"1c:0b:8b:ea:60:c9\"'', ''    bssids: [\"1c:0b:8b:ea:60:c9\", \"22:0b:8b:ea:60:c9\"]'',
     ''  - mac: \"1c:0b:8b:ea:60:c8\"'', ''target: br1'', ''management_vlan: 10'', ''mode: observe'', ''limits:'',
     ''  packets_per_second: 5'', ''tap: rrb1'', ''pref: 1234'']"

definition full_tree :: tree where
  "full_tree = Map [(''sources'', Seq [Str ''eth1'', Str ''eth2'']),
     (''aps'', Seq [Map [(''interface'', Str ''wifi1ap4''), (''r0kh_id'', Str ''my-r0kh-id'')]]),
     (''peers'', Seq [Map [(''mac'', Str ''1c:0b:8b:ea:60:c9''),
         (''bssids'', Seq [Str ''1c:0b:8b:ea:60:c9'', Str ''22:0b:8b:ea:60:c9''])],
       Map [(''mac'', Str ''1c:0b:8b:ea:60:c8'')]]),
     (''target'', Str ''br1''), (''management_vlan'', Num 10), (''mode'', Str ''observe''),
     (''limits'', Map [(''packets_per_second'', Num 5)]), (''tap'', Str ''rrb1''), (''pref'', Num 1234)]"

definition yaml_minimal_and_full :: "(string \<Rightarrow> tree option) \<Rightarrow> bool" where
  "yaml_minimal_and_full parse \<longleftrightarrow>
     (case from_str parse tree_reader minimal_text of
        None \<Rightarrow> False
      | Some minimal \<Rightarrow> s_target minimal = ''br0'' \<and> s_management_vlan minimal = 1 \<and> s_mode minimal = Forward \<and>
          packets_per_second (s_limits minimal) = 20 \<and> s_tap minimal = ''rrb0'' \<and> s_pref minimal = DEFAULT_PREF \<and>
          validate minimal = Inr ()) \<and>
     (case from_str parse tree_reader full_text of
        None \<Rightarrow> False
      | Some full \<Rightarrow> s_mode full = Observe \<and> packets_per_second (s_limits full) = 5 \<and> s_pref full = 1234 \<and>
          length (entry_bssids (s_peers full ! 0)) = 2 \<and> entry_bssids (s_peers full ! 1) = [] \<and>
          validate full = Inr ())"

definition bogus_text :: string where
  "bogus_text = ''sources: [eth1]'' @ [newline] @ ''aps: []'' @ [newline] @ ''bogus: 1''"

definition bogus_tree :: tree where
  "bogus_tree = Map [(''sources'', Seq [Str ''eth1'']), (''aps'', Seq []), (''bogus'', Num 1)]"

definition bssid_text :: string where
  "bssid_text = unlines [''sources: [eth1]'', ''aps:'', ''  - interface: wifi1ap4'', ''peers:'',
     ''  - mac: \"1c:0b:8b:ea:60:c9\"'', ''    bssid: \"1c:0b:8b:ea:60:c9\"'']"

definition bssid_tree :: tree where
  "bssid_tree = Map [(''sources'', Seq [Str ''eth1'']), (''aps'', Seq [Map [(''interface'', Str ''wifi1ap4'')]]),
     (''peers'', Seq [Map [(''mac'', Str ''1c:0b:8b:ea:60:c9''), (''bssid'', Str ''1c:0b:8b:ea:60:c9'')]])]"

definition no_sources_text :: string where
  "no_sources_text = unlines [''sources: []'', ''aps:'', ''  - interface: wifi1ap4'']"

definition no_sources_tree :: tree where
  "no_sources_tree = Map [(''sources'', Seq []), (''aps'', Seq [Map [(''interface'', Str ''wifi1ap4'')]])]"

definition twice_text :: string where
  "twice_text = unlines [''sources: [eth1, eth1]'', ''aps:'', ''  - interface: wifi1ap4'']"

definition twice_tree :: tree where
  "twice_tree = Map [(''sources'', Seq [Str ''eth1'', Str ''eth1'']), (''aps'', Seq [Map [(''interface'', Str ''wifi1ap4'')]])]"

definition yaml_rejects_bad_shape :: "(string \<Rightarrow> tree option) \<Rightarrow> bool" where
  "yaml_rejects_bad_shape parse \<longleftrightarrow>
     from_str parse tree_reader bogus_text = None \<and>
     from_str parse tree_reader bssid_text = None \<and>
     (case from_str parse tree_reader no_sources_text of None \<Rightarrow> False | Some s \<Rightarrow> isl (validate s)) \<and>
     (case from_str parse tree_reader twice_text of None \<Rightarrow> False | Some s \<Rightarrow> isl (validate s))"

definition test_documents :: "(string \<times> tree) list" where
  "test_documents = [(minimal_text, minimal_tree), (full_text, full_tree), (bogus_text, bogus_tree),
     (bssid_text, bssid_tree), (no_sources_text, no_sources_tree), (twice_text, twice_tree)]"

definition parses_get_config_reply :: bool where
  "parses_get_config_reply =
     (let cfg = parse_config (''bssid=22:0b:8b:ea:60:c9'' @ [newline] @ ''ssid=Home'' @ [newline] @
            ''key_mgmt=FT-PSK'' @ [newline] @ [newline] @ ''junkline'' @ [newline])
      in cfg ''bssid'' = Some ''22:0b:8b:ea:60:c9'' \<and> cfg ''junkline'' = None \<and> card (dom cfg) = 3)"

section \<open>Verdicts on the test frames\<close>

lemma test_filter_parts:
  "target_mac test_filter = [2, 0, 0, 0, 0, 1]" "management_vlan test_filter = 1"
  "map peer_mac (filter_peers test_filter) = [[2, 0, 0, 0, 1, 1]]"
  "map peer_bss_list (filter_peers test_filter) = [[[2, 0, 0, 0, 1, 2]]]"
  "map local_bssid (filter_locals test_filter) = [[2, 0, 0, 0, 0, 2]]"
  "map local_r0kh (filter_locals test_filter) = [ascii ''local'']"
  by code_simp+

lemma test_frame_value:
  "test_frame k b auth = [2, 0, 0, 0, 0, 1, 2, 0, 0, 0, 1, 1, 0x81, 0, 0, 1, 0x88, 0xb7, 0, 0x13, 0x74, 0, 1, k, 2, 0, 0, 0, 1, 2] @
    (if b then [255, 255, 255, 255, 255, 255] else [2, 0, 0, 0, 0, 2]) @
    u16_to_le_bytes (word_of_nat (length auth)) @ auth @ replicate 16 0"
proof -
  have "target_mac test_filter = [2, 0, 0, 0, 0, 1]" "peer_mac (peers test_filter ! 0) = [2, 0, 0, 0, 1, 1]"
    "peer_bssids (peers test_filter ! 0) ! 0 = [2, 0, 0, 0, 1, 2]" "local_bssid (locals test_filter ! 0) = [2, 0, 0, 0, 0, 2]"
    "u16_to_be_bytes ETH_P_RRB = [0x88, 0xb7]" "replicate 6 (255 :: u8) = [255, 255, 255, 255, 255, 255]"
    by code_simp+
  then show ?thesis by (simp add: test_frame_def RRB_SELECTOR_def SIV_LEN_def)
qed

definition like_test :: "Filter \<Rightarrow> bool" where
  "like_test f \<longleftrightarrow> wf_Filter f \<and> distinct_peers f \<and> target_mac f = [2, 0, 0, 0, 0, 1] \<and> management_vlan f = 1 \<and>
     filter_peers f = filter_peers test_filter \<and> map local_bssid (filter_locals f) = [[2, 0, 0, 0, 0, 2]]"

lemma test_sender: "sender_ok test_filter [2, 0, 0, 0, 1, 1] [2, 0, 0, 0, 1, 2]" by code_simp

lemma test_frame_verdict:
  assumes "like_test f" "length auth + length rest \<le> 1000"
  shows "classify (test_frame k b auth @ rest) Vlan_default f =
    (if \<not> (KIND_PULL \<le> k \<and> k \<le> KIND_SEQ_RESPONSE) then Inl OuiType
     else if \<nexists>ts. tlv_block auth ts then Inl Tlv
     else if b \<and> (\<nexists>ts. tlv_block auth ts \<and> target_ok f k BROADCAST (r0kh_value ts)) then Inl BroadcastScope
     else Inr \<lparr>kind = k, body_offset = 18\<rparr>)"
proof -
  let ?r = "test_frame k b auth @ rest"
  let ?bss = "if b then [255, 255, 255, 255, 255, 255] else [2, 0, 0, 0, 0, 2] :: u8 list"
  let ?h = "[0, 0x13, 0x74, 0, 1, k, 2, 0, 0, 0, 1, 2] @ ?bss @ u16_to_le_bytes (word_of_nat (length auth))"
  have f: "target_mac f = [2, 0, 0, 0, 0, 1]" "management_vlan f = 1" "filter_peers f = filter_peers test_filter"
    "local_bssid ` set (filter_locals f) = {[2, 0, 0, 0, 0, 2]}" "peer_mac ` set (filter_peers test_filter) = {[2, 0, 0, 0, 1, 1]}"
    using assms(1) test_filter_parts(3) by (auto simp: like_test_def simp flip: set_map)
  have r: "length ?r = 54 + length auth + length rest" "take 6 ?r = [2, 0, 0, 0, 0, 1]" "subslice ?r 6 12 = [2, 0, 0, 0, 1, 1]"
    "subslice ?r 18 38 = ?h" "subslice ?r 38 (38 + length auth) = auth" "?r ! 23 = k"
    by (simp_all add: test_frame_value subslice_def)
  have h: "take 5 ?h = RRB_SELECTOR" "?h ! 5 = k" "subslice ?h 6 12 = [2, 0, 0, 0, 1, 2]" "subslice ?h 12 18 = ?bss"
    by (simp_all add: subslice_def RRB_SELECTOR_def)
  have len: "auth_len ?h = length auth"
    using assms(2) by (simp add: auth_len_def unat_of_nat nth_append)
  have "u16_to_be_bytes TPID_8021Q = [129, 0]" "u16_from_be_bytes 0 1 AND TCI_VID_MASK = 1"
    "u16_to_be_bytes ETH_P_RRB = [136, 183]" by code_simp+
  then have tag: "tag_ok f Vlan_default ?r"
    using f(2) by (simp add: tag_ok_def Vlan_default_def test_frame_value subslice_def)
  have snd: "sender_ok f [2, 0, 0, 0, 1, 1] [2, 0, 0, 0, 1, 2]" using test_sender by (simp add: sender_ok_def f(3))
  have start: "body_start Vlan_default = 18" by (simp add: body_start_def Vlan_default_def)
  have bc: "BROADCAST = [255, 255, 255, 255, 255, 255]" by code_simp
  have bss: "?bss = BROADCAST \<longleftrightarrow> b" unfolding bc by simp
  have loc: "?bss \<noteq> BROADCAST \<and> ?bss \<notin> local_bssid ` set (filter_locals f) \<longleftrightarrow> False"
    using f(4) bss by simp
  have tgt: "target_ok f k ?bss x \<longleftrightarrow> (b \<longrightarrow> target_ok f k BROADCAST x)" for x
    using f(4) bss by (simp add: target_ok_def)
  have "reject_reason f Vlan_default ?r =
    (if \<not> (KIND_PULL \<le> k \<and> k \<le> KIND_SEQ_RESPONSE) then Some OuiType
     else if \<nexists>ts. tlv_block auth ts then Some Tlv
     else if \<nexists>ts. tlv_block auth ts \<and> target_ok f k ?bss (r0kh_value ts) then Some BroadcastScope
     else None)"
  proof (rule reject_reason_parts [where h = ?h and n = "length auth"], unfold start)
    show "subslice ?r 18 (18 + 20) = ?h" "subslice ?r (18 + 20) (18 + 20 + length auth) = auth" using r(4,5) by simp_all
    show "sender_ok f (subslice ?r 6 12) (subslice ?h 6 12)" using snd unfolding r(3) h(3) .
    show "?bss = BROADCAST \<or> ?bss \<in> local_bssid ` set (filter_locals f)" using loc by blast
    show "take 6 ?r = target_mac f \<or> take 6 ?r = BROADCAST" using r(2) f(1) by simp
  qed (use assms(2) tag h len r(1) in simp_all)
  then show ?thesis
    unfolding tgt using assms(1) r(6) by (auto simp: classify_reject_reason like_test_def start)
qed


lemma test_frame_tlvs:
  assumes "like_test f" "list_all (\<lambda>(tag, v). length v < 65536) ts" "length (encode_tlvs ts) + length rest \<le> 1000"
  shows "classify (test_frame k b (encode_tlvs ts) @ rest) Vlan_default f =
    (if \<not> (KIND_PULL \<le> k \<and> k \<le> KIND_SEQ_RESPONSE) then Inl OuiType
     else if \<not> tlvs_ok ts then Inl Tlv
     else if b \<and> \<not> target_ok f k BROADCAST (r0kh_value ts) then Inl BroadcastScope
     else Inr \<lparr>kind = k, body_offset = 18\<rparr>)"
  by (simp add: test_frame_verdict [OF assms(1,3)] tlv_block_encoded [OF assms(2)])

lemma test_tlv_encode: "test_tlv tag v = encode_tlv (tag, v)"
  by (simp add: test_tlv_def)

lemma like_test_filter: "like_test test_filter"
  using test_filter_wf test_filter_parts by (simp add: like_test_def)

lemma test_target:
  "target_ok test_filter k BROADCAST x \<longleftrightarrow> (k = KIND_PULL \<or> k = KIND_SEQ_REQUEST) \<and> x = ascii ''local''"
proof -
  have "local_r0kh ` set (filter_locals test_filter) = {ascii ''local''}"
    using test_filter_parts(6) by (auto simp flip: set_map)
  moreover have "ascii ''local'' \<noteq> []" "length (ascii ''local'') \<le> MAX_R0KH" by code_simp+
  ultimately show ?thesis by (auto simp: target_ok_def)
qed

lemmas accepted_tlvs = test_frame_tlvs [OF like_test_filter, where rest = "[]", simplified append_Nil2 test_target]


lemma isl_if: "isl (if c then a else b) = (if c then isl a else isl b)"
  by simp

lemma accepted_single:
  "accepted (test_frame k b (test_tlv tag v)) \<longleftrightarrow> KIND_PULL \<le> k \<and> k \<le> KIND_SEQ_RESPONSE \<and>
    (b \<longrightarrow> (k = KIND_PULL \<or> k = KIND_SEQ_REQUEST) \<and> tag = TLV_R0KH \<and> v = ascii ''local'')"
  if "length v \<le> 900"
proof -
  have "length (ascii ''local'') = 5" by code_simp
  then have "ascii ''local'' \<noteq> []" by auto
  then show ?thesis
    using accepted_tlvs [of "[(tag, v)]" k b] that
    by (auto simp: accepted_def test_tlv_encode isl_if tlvs_ok_def MAX_TLVS_def r0kh_value_def)
qed

lemma accepted_empty: "\<not> accepted (test_frame k True [])"
proof -
  have "length (ascii ''local'') = 5" by code_simp
  then have "ascii ''local'' \<noteq> []" by auto
  then show ?thesis
    using accepted_tlvs [of "[]" k True]
    by (auto simp: accepted_def isl_if tlvs_ok_def r0kh_value_def)
qed

lemma kind_cases:
  assumes "k \<in> set [1, 2, 3, 4, 5 :: u8]"
  shows "KIND_PULL \<le> k \<and> k \<le> KIND_SEQ_RESPONSE"
  using assms by (auto simp: KIND_PULL_def KIND_SEQ_RESPONSE_def)

lemma ascii_lengths:
  "length (ascii ''local'') = 5" "length (ascii ''other'') = 5" "length (ascii ''nonce'') = 5"
  "length (ascii ''remote-r0kh'') = 11" "ascii ''other'' \<noteq> ascii ''local''"
  by code_simp+

lemma broadcast_case_holds: "KIND_PULL \<le> k \<and> k \<le> KIND_SEQ_RESPONSE \<Longrightarrow> broadcast_case k"
  by (auto simp: broadcast_case_def accepted_single accepted_empty ascii_lengths)

lemma broadcast_pass: broadcast_requires_correct_r0kh_and_request_type
proof -
  have "accepted (set_range (test_frame KIND_SEQ_REQUEST True (test_tlv TLV_R0KH (ascii ''local''))) 0 (replicate 6 255))"
    by code_simp
  then show ?thesis
    unfolding broadcast_requires_correct_r0kh_and_request_type_def list_all_iff
    using broadcast_case_holds kind_cases by blast
qed


definition boundary_ok :: "nat \<Rightarrow> bool" where
  "boundary_ok len \<longleftrightarrow> 0 < len \<and> len \<le> 48 \<and> like_test (boundary_filter len) \<and> like_test (changed_filter len) \<and>
     map local_r0kh (filter_locals (boundary_filter len)) = [replicate len 0x61] \<and>
     map local_r0kh (filter_locals (changed_filter len)) = [replicate (len - 1) 0x61 @ [0x62]]"

lemma boundary_evaluated: "boundary_ok 1" "boundary_ok 12" "boundary_ok 48"
  by code_simp+

lemma boundary_case_holds:
  assumes "boundary_ok len"
  shows "r0kh_boundary_case len"
proof -
  let ?ts = "[(1, ascii ''nonce''), (TLV_R0KH, replicate len 0x61), (5, ascii ''r1kh'')] :: tlv list"
  have len: "0 < len" "len \<le> 48" using assms by (simp_all add: boundary_ok_def)
  have sp: "boundary_tlvs len = encode_tlvs ?ts" by (simp add: boundary_tlvs_def test_tlv_encode)
  have asc: "length (ascii ''nonce'') = 5" "length (ascii ''r1kh'') = 4" by code_simp+
  have ok: "tlvs_ok ?ts" "r0kh_value ?ts = replicate len 0x61" "list_all (\<lambda>(tag, v). length v < 65536) ?ts"
    "length (encode_tlvs ?ts) + length ([] :: u8 list) \<le> 1000"
    using len by (simp_all add: tlvs_ok_def r0kh_value_def TLV_R0KH_def MAX_TLVS_def asc)
  have l1: "local_r0kh ` set (filter_locals (boundary_filter len)) = {replicate len 0x61}"
    and l2: "local_r0kh ` set (filter_locals (changed_filter len)) = {replicate (len - 1) 0x61 @ [0x62]}"
    using assms by (simp_all add: boundary_ok_def flip: set_map)
  have ne: "replicate len 0x61 \<noteq> replicate (len - 1) 0x61 @ [0x62 :: u8]"
  proof
    assume "replicate len 0x61 = replicate (len - 1) 0x61 @ [0x62 :: u8]"
    then have "last (replicate len 0x61) = (0x62 :: u8)" by simp
    then show False using len by simp
  qed
  have t: "target_ok (boundary_filter len) KIND_SEQ_REQUEST BROADCAST (r0kh_value ?ts)"
    "\<not> target_ok (changed_filter len) KIND_SEQ_REQUEST BROADCAST (r0kh_value ?ts)"
    using len ne unfolding ok(2) target_ok_def l1 l2 by (simp_all add: MAX_R0KH_def)
  have k: "KIND_PULL \<le> KIND_SEQ_REQUEST" "KIND_SEQ_REQUEST \<le> KIND_SEQ_RESPONSE" by code_simp+
  have "classify (test_frame KIND_SEQ_REQUEST True (boundary_tlvs len)) Vlan_default (boundary_filter len) =
      Inr \<lparr>kind = KIND_SEQ_REQUEST, body_offset = 18\<rparr>"
    "classify (test_frame KIND_SEQ_REQUEST True (boundary_tlvs len)) Vlan_default (changed_filter len) = Inl BroadcastScope"
    using test_frame_tlvs [OF _ ok(3,4), of "boundary_filter len" KIND_SEQ_REQUEST True]
      test_frame_tlvs [OF _ ok(3,4), of "changed_filter len" KIND_SEQ_REQUEST True] assms t k ok(1)
    by (simp_all add: boundary_ok_def sp)
  then show ?thesis by (simp add: r0kh_boundary_case_def)
qed

lemma boundaries_pass: deferred_r0kh_check_preserves_boundaries_and_unicast_scope
proof -
  have "KIND_PULL \<le> KIND_RESPONSE" "KIND_RESPONSE \<le> KIND_SEQ_RESPONSE" "MAX_R0KH = 48" by code_simp+
  moreover have "0x61 # replicate MAX_R0KH 0x61 \<noteq> ascii ''local''" "[] \<noteq> ascii ''local''"
    by (auto dest!: arg_cong [of _ _ length] simp: ascii_lengths(1) MAX_R0KH_def)
  ultimately show ?thesis
    using boundary_evaluated
    by (simp add: deferred_r0kh_check_preserves_boundaries_and_unicast_scope_def boundary_case_holds accepted_single
        ascii_lengths)
qed

lemma tlv_limits_pass: tlv_duplicate_overflow_and_count_limits
proof -
  let ?a = "(TLV_R0KH, ascii ''local'')" and ?ts = "map (\<lambda>tag. (word_of_nat tag :: u16, [] :: u8 list)) [0..<16]"
  have auth: "concat (map (\<lambda>tag. test_tlv (word_of_nat tag) []) [0..<MAX_TLVS]) = encode_tlvs ?ts"
    by (simp add: MAX_TLVS_def test_tlv_encode encode_tlvs_def comp_def)
  have len: "length (encode_tlvs ?ts) = 64" "tlvs_ok ?ts" by code_simp+
  have small: "list_all (\<lambda>(tag, v). length v < 65536) ?ts" by (simp add: list_all_iff)
  have k: "KIND_PULL \<le> 5" "5 \<le> KIND_SEQ_RESPONSE" by code_simp+
  have "accepted (test_frame 5 False (encode_tlvs ?ts))"
    using accepted_tlvs [of ?ts 5 False] len k by (simp add: accepted_def tlvs_ok_def)
  moreover have "\<not> accepted (test_frame 5 False (encode_tlvs ?ts @ test_tlv 500 []))"
  proof -
    have "encode_tlvs ?ts @ test_tlv 500 [] = encode_tlvs (?ts @ [(500, [])])"
      by (simp add: encode_tlvs_def test_tlv_encode)
    then show ?thesis
      using accepted_tlvs [of "?ts @ [(500, [])]" 5 False] len(1) k small
      by (simp add: accepted_def tlvs_ok_def MAX_TLVS_def encode_tlvs_def)
  qed
  moreover have "\<not> accepted (test_frame KIND_SEQ_REQUEST True (test_tlv TLV_R0KH (ascii ''local'') @ test_tlv TLV_R0KH (ascii ''local'')))"
    using accepted_tlvs [of "[?a, ?a]" KIND_SEQ_REQUEST True]
    by (auto simp: accepted_def test_tlv_encode tlvs_ok_def isl_if ascii_lengths)
  moreover have "\<not> accepted (test_frame 4 False [1, 0, 255, 255])" "\<not> accepted (test_frame 4 False [1, 0, 0])"
    unfolding test_frame_value by code_simp+
  ultimately show ?thesis by (simp add: tlv_duplicate_overflow_and_count_limits_def auth)
qed

text \<open>Untagging by hand.\<close>

definition test_message :: "u8 \<Rightarrow> tlv list \<Rightarrow> bytes \<Rightarrow> rrb_msg" where
  "test_message k ts rest = (test_msg k)\<lparr>m_tlvs := ts, m_sealed := replicate 16 0 @ rest\<rparr>"

lemma test_frame_message: "test_frame k False (encode_tlvs ts) @ rest = encode_inline 1 (test_message k ts rest)"
  "strip_tag (test_frame k False (encode_tlvs ts) @ rest) = encode_untagged (test_message k ts rest)"
proof -
  have "u16_to_be_bytes TPID_8021Q = [129, 0]" "u16_to_be_bytes 1 = [0, 1]" "u16_to_be_bytes ETH_P_RRB = [136, 183]" by code_simp+
  then show "test_frame k False (encode_tlvs ts) @ rest = encode_inline 1 (test_message k ts rest)"
    "strip_tag (test_frame k False (encode_tlvs ts) @ rest) = encode_untagged (test_message k ts rest)"
    by (simp_all add: test_frame_value strip_tag_def encode_inline_def encode_untagged_def encode_body_def encode_header_def
        test_message_def test_msg_def RRB_SELECTOR_def)
qed

lemma test_frame_stripped:
  assumes "KIND_PULL \<le> k" "k \<le> KIND_SEQ_RESPONSE" "tlvs_ok ts" "length (encode_tlvs ts) + length rest \<le> 1000"
    and v: "present v" "proto v = TPID_8021Q" "tci v AND TCI_VID_MASK = 1"
  shows "\<not> isl (classify (strip_tag (test_frame k False (encode_tlvs ts) @ rest)) v test_filter)"
proof -
  let ?m = "test_message k ts rest"
  have small: "list_all (\<lambda>(tag, v). length v < 65536) ts" using assms(3) by (simp add: tlvs_ok_def)
  have wf: "wf_msg ?m" using assms(3,4) by (simp add: wf_msg_def test_message_def test_msg_def SIV_LEN_def)
  have "classify (frame_of Vlan_default 1 ?m) Vlan_default test_filter = Inr \<lparr>kind = k, body_offset = 18\<rparr>"
    using test_frame_tlvs [OF like_test_filter small assms(4), of k False] assms(1-3)
    by (simp add: test_frame_message frame_of_def Vlan_default_def)
  then have "length (frame_of Vlan_default 1 ?m) \<le> MAX_FRAME" "acceptable test_filter ?m"
    by (simp_all add: classify_frame_of [OF test_filter_wf wf])
  moreover have "scope_ok test_filter v 1" using v test_filter_parts(2) by (simp add: scope_ok_def)
  moreover have "length (frame_of v 1 ?m) \<le> length (frame_of Vlan_default 1 ?m)"
    using v(1) by (simp add: length_frame_of Vlan_default_def)
  ultimately have "classify (frame_of v 1 ?m) v test_filter = Inr \<lparr>kind = m_kind ?m, body_offset = body_start v\<rparr>"
    by (simp add: classify_frame_of [OF test_filter_wf wf])
  then show ?thesis using v(1) by (simp add: test_frame_message(2) frame_of_def)
qed

lemma five_types_case_holds:
  assumes "KIND_PULL \<le> k \<and> k \<le> KIND_SEQ_RESPONSE"
  shows "five_types_case k"
proof -
  let ?auth = "test_tlv 1 (ascii ''nonce'')"
  let ?v = "\<lparr>present = True, proto = TPID_8021Q, tci = 1 OR push_bit 13 7\<rparr>"
  have enc: "?auth = encode_tlvs [(1, ascii ''nonce'')]" by (simp add: test_tlv_encode)
  have ok: "tlvs_ok [(1, ascii ''nonce'')]" "length (encode_tlvs [(1 :: u16, ascii ''nonce'')]) \<le> 1000" by code_simp+
  have "classify (test_frame k False ?auth) Vlan_default test_filter = Inr \<lparr>kind = k, body_offset = 18\<rparr>"
    using accepted_tlvs [of "[(1, ascii ''nonce'')]" k False] assms ok by (simp add: enc tlvs_ok_def)
  moreover have "tci ?v AND TCI_VID_MASK = 1" by code_simp
  then have "\<not> isl (classify (strip_tag (test_frame k False ?auth)) ?v test_filter)"
    using test_frame_stripped [of k "[(1, ascii ''nonce'')]" "[]" ?v] assms ok by (simp add: enc)
  moreover have "classify (strip_tag (test_frame k False ?auth)) \<lparr>present = True, proto = TPID_8021Q, tci = 2\<rparr> test_filter = Inl Counter.Vlan"
    "classify (strip_tag (test_frame k False ?auth)) Vlan_default test_filter = Inl Counter.Vlan"
    "isl (classify (test_frame k False ?auth) ?v test_filter)"
    unfolding test_frame_value by code_simp+
  ultimately show ?thesis
    by (simp add: five_types_case_def Let_def ETH_HEADER_LEN_def VLAN_TAG_LEN_def)
qed

lemma five_types_pass: all_five_message_types_and_vlan_representations
  unfolding all_five_message_types_and_vlan_representations_def list_all_iff
  using five_types_case_holds kind_cases by blast

lemma payload_pass: encrypted_payload_is_never_scanned_or_misparsed
proof -
  let ?ts = "[(2, replicate 16 0), (1, replicate 12 0), (TLV_R0KH, ascii ''020000000102''), (TLV_R1KH, [2, 0, 0, 0, 0, 2])] :: tlv list"
  let ?rest = "test_tlv 6 [0xaa, 0xbb, 0xcc, 0xdd, 0xee, 0xff]" and ?v = "\<lparr>present = True, proto = TPID_8021Q, tci = 1\<rparr>"
  have ok: "tlvs_ok ?ts" "length (encode_tlvs ?ts) = 62" "length ?rest = 10" "tci ?v AND TCI_VID_MASK = 1" by code_simp+
  have enc: "test_tlv 2 (replicate 16 0) @ test_tlv 1 (replicate 12 0) @ test_tlv TLV_R0KH (ascii ''020000000102'') @
      test_tlv TLV_R1KH (local_bssid (locals test_filter ! 0)) = encode_tlvs ?ts"
    by code_simp
  have "\<not> isl (classify (test_frame k False (encode_tlvs ?ts) @ ?rest) Vlan_default test_filter) \<and>
      length (strip_tag (test_frame k False (encode_tlvs ?ts) @ ?rest)) = 122 \<and>
      \<not> isl (classify (strip_tag (test_frame k False (encode_tlvs ?ts) @ ?rest)) ?v test_filter)"
    if "KIND_PULL \<le> k" "k \<le> KIND_SEQ_RESPONSE" for k
  proof (intro conjI)
    have small: "list_all (\<lambda>(tag, v). length v < 65536) ?ts" using ok(1) by (simp add: tlvs_ok_def)
    show "\<not> isl (classify (test_frame k False (encode_tlvs ?ts) @ ?rest) Vlan_default test_filter)"
      by (subst test_frame_tlvs [OF like_test_filter small]) (use ok that in \<open>simp_all add: del: encode_tlvs_simps\<close>)
    show "length (strip_tag (test_frame k False (encode_tlvs ?ts) @ ?rest)) = 122"
      using ok by (simp add: strip_tag_def test_frame_value del: encode_tlvs_simps)
    show "\<not> isl (classify (strip_tag (test_frame k False (encode_tlvs ?ts) @ ?rest)) ?v test_filter)"
      by (rule test_frame_stripped) (use ok that in \<open>simp_all del: encode_tlvs_simps\<close>)
  qed
  moreover have "KIND_PULL \<le> KIND_PULL" "KIND_PULL \<le> KIND_SEQ_RESPONSE" "KIND_PULL \<le> KIND_RESPONSE"
    "KIND_RESPONSE \<le> KIND_SEQ_RESPONSE" "KIND_PULL \<le> KIND_PUSH" "KIND_PUSH \<le> KIND_SEQ_RESPONSE" by code_simp+
  ultimately show ?thesis
    unfolding encrypted_payload_is_never_scanned_or_misparsed_def Let_def enc by simp
qed

lemma mutations_pass: scope_mutations_are_rejected_without_mutating_original
proof -
  let ?f = "test_frame 5 False (test_tlv 1 (ascii ''nonce''))" and ?m = "test_msg 5"
  have f: "?f = frame_of Vlan_default 1 ?m" and wf: "wf_msg ?m" "length (m_sealed ?m) = SIV_LEN" by code_simp+
  have len: "length ?f = 63" by code_simp
  have "list_all (\<lambda>n. \<not> accepted (take n ?f)) [0..<length ?f]"
    using truncated_rejected [OF test_filter_wf wf] by (auto simp: list_all_iff accepted_def f)
  moreover have "list_all (\<lambda>offset. \<not> accepted (?f[offset := ?f ! offset XOR 0x10])) [0, 6, 12, 15, 16, 18, 22, 24, 30]"
    unfolding test_frame_value by code_simp
  moreover have "\<not> accepted (set_range ?f 18 [0x80, 0x2a, 0xa8, 0, 1])" unfolding test_frame_value by code_simp
  moreover have "accepted (?f[14 := ?f ! 14 OR 0xe0])" unfolding test_frame_value by code_simp
  moreover have "\<not> accepted (?f @ replicate (MAX_FRAME + 1 - length ?f) 0)"
    using classify_length [of "?f @ replicate (MAX_FRAME + 1 - length ?f) 0" Vlan_default test_filter]
    by (simp add: accepted_def len MAX_FRAME_def)
  ultimately show ?thesis
    unfolding scope_mutations_are_rejected_without_mutating_original_def Let_def by blast
qed

lemma wildcards_pass: empty_peer_bssid_list_is_a_wildcard empty_peer_list_accepts_all_senders
  unfolding empty_peer_bssid_list_is_a_wildcard_def empty_peer_list_accepts_all_senders_def Let_def test_frame_value
  by code_simp+

lemma relay_pass: untag_removes_inline_tag untag_passthrough_when_tag_in_metadata limiter_windows
  by code_simp+

lemma mac_pass: mac_parsing by code_simp

lemma documents_read:
  assumes "list_all (\<lambda>(doc, t). parse doc = Some t) test_documents"
  shows "from_str parse tree_reader minimal_text = Settings_de tree_reader minimal_tree"
    "from_str parse tree_reader full_text = Settings_de tree_reader full_tree"
    "from_str parse tree_reader bogus_text = Settings_de tree_reader bogus_tree"
    "from_str parse tree_reader bssid_text = Settings_de tree_reader bssid_tree"
    "from_str parse tree_reader no_sources_text = Settings_de tree_reader no_sources_tree"
    "from_str parse tree_reader twice_text = Settings_de tree_reader twice_tree"
  using assms by (simp_all add: test_documents_def from_str_def)

lemma yaml_pass:
  assumes "list_all (\<lambda>(doc, t). parse doc = Some t) test_documents"
  shows "yaml_minimal_and_full parse" "yaml_rejects_bad_shape parse"
  unfolding yaml_minimal_and_full_def yaml_rejects_bad_shape_def documents_read [OF assms] by code_simp+

lemma reply_pass: parses_get_config_reply
proof -
  let ?t = "''bssid=22:0b:8b:ea:60:c9'' @ [newline] @ ''ssid=Home'' @ [newline] @
            ''key_mgmt=FT-PSK'' @ [newline] @ [newline] @ ''junkline'' @ [newline]"
  have "rev (List.map_filter (split_once (CHR ''='')) (str_lines ?t)) =
      [(''key_mgmt'', ''FT-PSK''), (''ssid'', ''Home''), (''bssid'', ''22:0b:8b:ea:60:c9'')]" by code_simp
  then have "parse_config ?t = map_of [(''key_mgmt'', ''FT-PSK''), (''ssid'', ''Home''), (''bssid'', ''22:0b:8b:ea:60:c9'')]"
    by (simp only: parse_config_def)
  then show ?thesis by (simp add: parses_get_config_reply_def Let_def)
qed

section \<open>All tests\<close>

text \<open>
  Every unit test of the repository passes on the model: those of the validator, of the relay
  logic, of the configuration, given what YAML makes of their documents, and of the hostapd client.
\<close>

lemma unit_tests_pass:
  assumes "list_all (\<lambda>(doc, t). parse doc = Some t) test_documents"
  shows "all_five_message_types_and_vlan_representations \<and> scope_mutations_are_rejected_without_mutating_original \<and>
    broadcast_requires_correct_r0kh_and_request_type \<and> deferred_r0kh_check_preserves_boundaries_and_unicast_scope \<and>
    tlv_duplicate_overflow_and_count_limits \<and> empty_peer_bssid_list_is_a_wildcard \<and>
    empty_peer_list_accepts_all_senders \<and> encrypted_payload_is_never_scanned_or_misparsed \<and>
    untag_removes_inline_tag \<and> untag_passthrough_when_tag_in_metadata \<and> limiter_windows \<and>
    mac_parsing \<and> yaml_minimal_and_full parse \<and> yaml_rejects_bad_shape parse \<and> parses_get_config_reply"
  using five_types_pass mutations_pass broadcast_pass boundaries_pass tlv_limits_pass wildcards_pass payload_pass
    relay_pass mac_pass yaml_pass [OF assms] reply_pass by blast

end
