(* ===== verification/Spec2Isabelle.thy ===== *)
theory Spec2Isabelle
  imports Cli Tests
begin

text \<open>
  A verification of \<open>rerrb\<close>, the relay that carries 802.11r RRB frames (EtherType 0x88B7) from the
  switch-facing ports of a router to hostapd on its bridge. Sources are under \<open>src/src\<close>.

  \<^bold>\<open>The program and its model.\<close> A frame arrives on a packet socket behind a classic BPF filter
  (\<open>packet.rs\<close>), is validated against the configured identity (\<open>proto/\<close>), loses its management
  VLAN tag (\<open>relay.rs\<close>), passes a bounded channel to the inject task (\<open>app.rs\<close>), which applies the rate
  limit (\<open>relay.rs\<close>) and writes it to a TAP whose single \<open>tc\<close> rule redirects it to the bridge (\<open>tap.rs\<close>). The
  identity comes from the configuration file, sysfs and hostapd (\<open>config.rs\<close>, \<open>hostapd.rs\<close>). The
  theories follow that division:

  \<^item> \<open>Prelude\<close>: machine integers, slices, bounded scan loops, byte order; \<open>Proto\<close>: bounds, the records
    \<open>Peer\<close>, \<open>Local\<close>, \<open>Filter\<close> with their defaults and well-formedness, the counters (\<open>proto/mod.rs\<close>).
  \<^item> \<open>Parse\<close>: the reader, \<open>classify\<close> and \<open>parse_rrb\<close>, one definition per loop (\<open>proto/parse.rs\<close>). \<open>Wire\<close>: the
    frame format as an encoder over a record of messages, the declarative admission rule \<open>acceptable\<close>,
    and the proof that the parser decides exactly the two. \<open>Validation\<close>: the validator's properties, on
    the fixtures of \<open>proto/tests.rs\<close>.
  \<^item> \<open>Text\<close>: the string operations and the MAC parser; \<open>Hostapd\<close>: the control-socket client; \<open>Config\<close>:
    settings, structural validation, and the assembly of the filter, loop by loop; \<open>Yaml\<close>: the
    deserialisers derived from the struct declarations of \<open>config.rs\<close>.
  \<^item> \<open>Relay\<close>: untagging, message types, the limiter behind the interface \<open>rate_limiter\<close>. \<open>Packet\<close>: the BPF
    program, socket set-up, metadata, the receive loop. \<open>Tap\<close>: the commands and device operations.
  \<^item> \<open>App\<close>: the daemon's tasks as the labelled step relation \<open>step\<close>, with the reachable states of every
    interleaving, the clock and the shutdown. \<open>Invariants\<close>: what every reachable state satisfies.
    \<open>Progress\<close>: the daemon's own steps (\<open>istep\<close>), their measure \<open>work\<close>, and rest. \<open>Refinement\<close>: an abstract
    relay with a backlog and a budget per second, and the simulation. \<open>Daemon\<close>: the properties.
  \<^item> \<open>Cli\<close>: start, stop, command dispatch and exit status (\<open>run\<close> of \<open>app.rs\<close>, \<open>main.rs\<close>). \<open>Tests\<close>: the unit
    tests of the repository, translated. This theory: the guarantee from configuration file to TAP.

  \<^bold>\<open>How Rust becomes HOL.\<close> Structs are records and enums are datatypes with the source's names;
  \<open>Result\<close> is a sum with \<open>Inl\<close> for the error; a panic is a value of its own (\<open>None\<close> of \<open>untag\<close>, \<open>Panic\<close> of the
  configuration errors, \<open>Panicked\<close> of the capture task), so that its absence is a theorem. \<open>u8\<close> to \<open>u64\<close> are
  words; \<open>usize\<close> is a natural number whose addition wraps at \<open>2 ^ 64\<close>, as the build profiles have it. Arrays
  with a count are lists of their full length; the valid prefix is \<open>filter_peers\<close>, \<open>filter_locals\<close> and
  the like. Loops are folds, structural recursion, or recursion with a measure; there is no fuel except
  in \<open>trim_start_with\<close>, where the length of the string bounds the number of code points removed, and
  every definition is total. The async loops consume explicit lists of events; running out of events
  is the state of waiting.

  \<^bold>\<open>What is a parameter.\<close> Code outside the repository is never defined, only assumed to answer: system
  calls and files (\<open>hostapd_env\<close>, \<open>config_env\<close>, \<open>tap_env\<close>, \<open>run_env\<close>, the argument \<open>os\<close>, the events of \<open>recv\<close>), the
  YAML library (the parser and the views \<open>reader\<close> of a value, with the locale \<open>yaml_values\<close>), the kernel's
  BPF machine (locale \<open>cbpf_machine\<close>, the documented meaning of three opcodes), and the tokio channel
  (locale \<open>bounded_fifo\<close>). The last three have reference instances, \<open>tree_reader\<close>, \<open>bpf_run\<close> and
  \<open>list_channel\<close>, on which witnesses are evaluated. The interfaces inside the
  program are \<open>frame_reader\<close> (interpreted on slices, as the parser uses it) and \<open>rate_limiter\<close>
  (interpreted on \<open>admit\<close>, used for the daemon's rate bound).

  \<^bold>\<open>What is shown.\<close>
  \<^item> Validator: it accepts exactly the encodings of admitted messages under the management tag, every
    rejection is the first failing check, the TLV walk decodes exactly the admissible auth blocks, and
    the whole verdict is insensitive to priority bits and to the sealed payload but not to truncation.
  \<^item> Relay and limiter: untagging an accepted frame yields the untagged frame of its message and
    cannot panic; inline and metadata tags are equivalent up to the length limit; every window grants its budget and no more.
  \<^item> Capture: the socket filter keeps exactly the candidates and loses no acceptable frame; sockets are
    bound only after they were configured, and closed on every failure.
  \<^item> Configuration: a document loads as the settings it was written for, and malformed ones are refused;
    a filter assembled from validated settings is well formed and says what the settings say; assembly
    cannot panic; hostapd discovery, retry, reply and address parsing are characterised.
  \<^item> Daemon, in every interleaving: the counters are a census of the arrivals; no accepted frame is lost,
    duplicated or overtaken by one of its own source, except by a shutdown; only admitted messages are
    written, in order and within the rate; observe mode writes nothing; the daemon's own steps come to
    rest within a bound, never block, and then every accepted frame went through the inject task; the
    whole refines the abstract relay.
  \<^item> Command line: a run gives back its sockets and its TAP and uses neither after that, captures only
    behind an installed redirect, which is gated on the EtherType of the validator, and ends with a log
    line from which every counter can be read (the counters of the session are a parameter of \<open>run\<close>,
    tied to the daemon by a hypothesis); the maintenance commands.
  \<^item> Tests: a check of the definitions, not a property: all unit tests of the repository hold on the model.
  \<^item> Deviations from the stated intent: oversized frames are validated and relayed truncated; a VLAN
    above 4094 passes validation, and above 4095 silences the relay; an octet may be written with a sign;
    the documented example is refused; the broadcast restriction does not look at the Ethernet
    destination.

  \<^bold>\<open>What is not modelled.\<close> The text of log lines other than the counters, error context strings, the
  text parsers of clap and YAML, structs written as YAML sequences, the scheduling order within the
  runtime beyond interleaving at awaits (progress is stated for the daemon's own steps, whatever their
  order, the return of a TAP write among them), timeouts and sleeps, the order in which the runtime
  drops aborted tasks, and the behaviour of \<open>tc\<close> and the bridge behind the commands. Deployment files have no logic of their own.
\<close>

section \<open>From the configuration to the TAP\<close>

lemma load_Inr: "load read yaml path = Inr s \<Longrightarrow> validate s = Inr ()"
  by (auto simp: load_def split: option.splits sum.splits)

text \<open>The identity checks of the validator, read back through the filter to the settings.\<close>

definition configured_sender :: "config_env \<Rightarrow> Settings \<Rightarrow> rrb_msg \<Rightarrow> bool" where
  "configured_sender env s m \<longleftrightarrow> s_peers s = [] \<or>
     (\<exists>p\<in>set (s_peers s). mac (entry_mac p) = Inr (m_src m) \<and>
        (\<exists>bs. entry_bssids_are env p bs \<and> m_src_bss m \<in> set bs))"

definition configured_target :: "config_env \<Rightarrow> Settings \<Rightarrow> rrb_msg \<Rightarrow> bool" where
  "configured_target env s m \<longleftrightarrow>
     (m_dst m = BROADCAST \<or> sysfs_mac env (s_target s) = Inr (m_dst m)) \<and>
     (if m_dst_bss m = BROADCAST
      then m_kind m \<in> {KIND_PULL, KIND_SEQ_REQUEST} \<and>
        (\<exists>ap\<in>set (s_aps s). \<exists>b. sysfs_mac env (ap_interface ap) = Inr b \<and>
           r0kh_value (m_tlvs m) = as_bytes (case ap_r0kh_id ap of Some x \<Rightarrow> x | None \<Rightarrow> default_r0kh_id b))
      else \<exists>ap\<in>set (s_aps s). sysfs_mac env (ap_interface ap) = Inr (m_dst_bss m))"

lemma list_all2_in_right: "list_all2 P xs ys \<Longrightarrow> y \<in> set ys \<Longrightarrow> \<exists>x\<in>set xs. P x y"
  by (induction rule: list_all2_induct) auto

lemma assembled_peer:
  assumes "assembled env s f" "q \<in> set (filter_peers f)"
  obtains p where "p \<in> set (s_peers s)" "mac (entry_mac p) = Inr (peer_mac q)"
    "entry_bssids_are env p (peer_bss_list q)" "peer_bss_list q \<noteq> []"
proof -
  have "list_all2 (entry_peer env) (s_peers s) (filter_peers f)" using assms(1) by (simp add: assembled_def)
  from list_all2_in_right [OF this assms(2)] obtain p where "p \<in> set (s_peers s)" "entry_peer env p q" by blast
  then show thesis using that by (auto simp: entry_peer_def make_peer_bss)
qed

lemma assembled_local:
  assumes "assembled env s f" "l \<in> set (filter_locals f)"
  obtains ap where "ap \<in> set (s_aps s)" "sysfs_mac env (ap_interface ap) = Inr (local_bssid l)"
    "local_r0kh l = as_bytes (case ap_r0kh_id ap of Some x \<Rightarrow> x | None \<Rightarrow> default_r0kh_id (local_bssid l))"
proof -
  have "list_all2 (ap_local env) (s_aps s) (filter_locals f)" using assms(1) by (simp add: assembled_def)
  from list_all2_in_right [OF this assms(2)] obtain ap where "ap \<in> set (s_aps s)" "ap_local env ap l" by blast
  then show thesis
    using that by (cases "ap_r0kh_id ap") (auto simp: ap_local_def make_local_r0kh)
qed

lemma acceptable_configured:
  assumes "assembled env s f" "acceptable f m"
  shows "configured_sender env s m \<and> configured_target env s m"
proof
  have hdr: "m_dst m = target_mac f \<or> m_dst m = BROADCAST" "sender_ok f (m_src m) (m_src_bss m)"
    "target_ok f (m_kind m) (m_dst_bss m) (r0kh_value (m_tlvs m))"
    using assms(2) by (simp_all add: acceptable_def header_ok_def)
  have "filter_peers f = [] \<longleftrightarrow> s_peers s = []"
    using assms(1) by (auto simp: assembled_def)
  with hdr(2) show "configured_sender env s m"
    unfolding configured_sender_def sender_ok_def by (metis assembled_peer [OF assms(1)])
  have "sysfs_mac env (s_target s) = Inr (target_mac f)" using assms(1) by (simp add: assembled_def)
  moreover have "\<exists>ap\<in>set (s_aps s). sysfs_mac env (ap_interface ap) = Inr (m_dst_bss m)"
    if bss: "m_dst_bss m \<noteq> BROADCAST"
  proof -
    obtain l where "l \<in> set (filter_locals f)" "m_dst_bss m = local_bssid l"
      using hdr(3) bss by (auto simp: target_ok_def)
    then show ?thesis by (metis assembled_local [OF assms(1)])
  qed
  moreover have "m_kind m \<in> {KIND_PULL, KIND_SEQ_REQUEST} \<and>
      (\<exists>ap\<in>set (s_aps s). \<exists>b. sysfs_mac env (ap_interface ap) = Inr b \<and>
         r0kh_value (m_tlvs m) = as_bytes (case ap_r0kh_id ap of Some x \<Rightarrow> x | None \<Rightarrow> default_r0kh_id b))"
    if bss: "m_dst_bss m = BROADCAST"
  proof -
    obtain l where "l \<in> set (filter_locals f)" "r0kh_value (m_tlvs m) = local_r0kh l"
      using hdr(3) bss by (auto simp: target_ok_def)
    moreover have "m_kind m \<in> {KIND_PULL, KIND_SEQ_REQUEST}" using hdr(3) bss by (simp add: target_ok_def)
    ultimately show ?thesis by (metis assembled_local [OF assms(1)])
  qed
  ultimately show "configured_target env s m" using hdr(1) by (auto simp: configured_target_def)
qed

section \<open>Properties of the whole\<close>

text \<open>
  C1. End to end: whatever arrives on the sources, every frame a forwarding daemon writes to the TAP
  is the untagged form of a well-formed message whose sender and source BSS are those of a configured
  peer (when any is configured), and which is addressed to the target bridge or broadcast and meant
  for one of the configured AP interfaces, by its BSSID, or, for pull and sequence requests only, by
  its R0KH-ID; and no more frames are written in any second than the settings allow.
\<close>

theorem relayed_frames_as_configured:
  assumes "bounded_fifo ch contents capacity" "load read yaml path = Inr s" "settings_filter env s = Inr f"
    and "reachable ch f (s_mode s = Forward) (packets_per_second (s_limits s)) d" "(t, x) \<in> set (attempts d)"
  shows "(\<exists>m. wf_msg m \<and> x = encode_untagged m \<and> KIND_PULL \<le> m_kind m \<and> m_kind m \<le> KIND_SEQ_RESPONSE \<and>
      configured_sender env s m \<and> configured_target env s m) \<and>
    length (filter (\<lambda>a. fst a = t) (attempts d)) \<le> unat (packets_per_second (s_limits s))"
proof -
  have a: "assembled env s f" by (rule settings_filter_assembled [OF load_Inr [OF assms(2)] assms(3)])
  then have wf: "wf_Filter f" "distinct_peers f" by (simp_all add: assembled_def)
  have fw: "s_mode s = Forward"
  proof (rule ccontr)
    assume "s_mode s \<noteq> Forward"
    with assms(4) have "observe_ok d" by (intro reachable_observe_ok [OF wf]) simp
    with assms(5) show False by (simp add: observe_ok_def)
  qed
  then have r: "reachable ch f True (packets_per_second (s_limits s)) d" using assms(4) by simp
  have "x \<in> set (map snd (attempts d))" using assms(5) by force
  then have "x \<in> set (map snd (sent d))"
    using list_emb_set [OF bounded_fifo.attempts_in_order [OF assms(1) wf r]] by blast
  from bounded_fifo.sent_legitimate [OF assms(1) wf r this] obtain m where
    m: "wf_msg m" "acceptable f m" "x = encode_untagged m" by (auto simp: legitimate_def)
  then have "KIND_PULL \<le> m_kind m" "m_kind m \<le> KIND_SEQ_RESPONSE" by (simp_all add: acceptable_def header_ok_def)
  moreover have "length (filter (\<lambda>a. fst a = t) (attempts d)) \<le> unat (packets_per_second (s_limits s))"
    using reachable_rate_ok [OF r] by (simp add: rate_ok_def written_at_def)
  ultimately show ?thesis using m acceptable_configured [OF a m(2)] by blast
qed

definition site_msg :: rrb_msg where
  "site_msg = \<lparr>m_dst = [0x22, 0x0b, 0x8b, 0xea, 0x60, 0xc9], m_src = [0x1c, 0x0b, 0x8b, 0xea, 0x60, 0xc9],
     m_kind = 3, m_src_bss = [0x1c, 0x0b, 0x8b, 0xea, 0x60, 0xc9], m_dst_bss = [0x22, 0x0b, 0x8b, 0xea, 0x60, 0xc9],
     m_tlvs = [(1, nonce_bytes)], m_sealed = replicate 16 0\<rparr>"

definition site_filter :: Filter where
  "site_filter = projr (settings_filter demo_config_env demo_settings)"

lemma site_accepted:
  "classify (encode_inline 1 site_msg) Vlan_default site_filter = Inr \<lparr>kind = 3, body_offset = 18\<rparr>"
  by code_simp

theorem relayed_frames_as_configured_witness:
  "\<exists>d x. reachable list_channel site_filter True 20 d \<and> attempts d = [(0, x)] \<and>
    (\<exists>m. x = encode_untagged m \<and> configured_sender demo_config_env demo_settings m)"
proof -
  have f: "settings_filter demo_config_env demo_settings = Inr site_filter"
    using demo_filter by (simp add: site_filter_def)
  have a: "assembled demo_config_env demo_settings site_filter"
    by (rule settings_filter_assembled [OF demo_valid f])
  have l: "load (\<lambda>_. Some []) (\<lambda>_. Some demo_settings) [] = Inr demo_settings"
    using demo_valid by (simp add: load_def)
  have md: "s_mode demo_settings = Forward" "packets_per_second (s_limits demo_settings) = 20" by code_simp+
  obtain d x where d: "reachable list_channel site_filter True 20 d" "attempts d = [(0, x)]"
    using list_queue.accepted_frame_written [of site_filter "plain_msg (encode_inline 1 site_msg)" _ 20]
      site_accepted a by (auto simp: assembled_def)
  have "reachable list_channel site_filter (s_mode demo_settings = Forward)
      (packets_per_second (s_limits demo_settings)) d" using d md by simp
  from relayed_frames_as_configured [OF list_queue.bounded_fifo_axioms l f this, of 0 x] d show ?thesis by auto
qed

end
